(* ===== verification/Kernull_Prelude.thy ===== *)
theory Kernull_Prelude
  imports Main "HOL-Library.Word"
begin

unbundle bit_operations_syntax

text \<open>
  Shared vocabulary of the development: the C integer types of
  \<^verbatim>\<open>include/kernel/types.h\<close> as machine words, the byte-addressed memory the C code
  reads and writes, the little-endian accesses the compiler emits for 32- and 64-bit
  fields, C bit-fields, and the outcomes other than a normal return.

  Addresses are 64-bit words, so pointer arithmetic wraps as on the machine.  A memory is a
  total function from addresses to bytes: there is no unmapped address at this level; the
  page tables are a component of their own.
\<close>

named_theorems mem_simps \<open>reads over writes\<close>
named_theorems mem_eval \<open>evaluation of loads and stores on concrete memories\<close>
named_theorems field_simps_c \<open>C bit-field reads over writes\<close>

section \<open>Integer types, memory, outcomes\<close>

type_synonym u8 = "8 word"
type_synonym u16 = "16 word"
type_synonym u32 = "32 word"
type_synonym u64 = "64 word"

type_synonym mem = "u64 \<Rightarrow> u8"

abbreviation NULL :: u64 where "NULL \<equiv> 0"

text \<open>
  What a C function can do instead of returning a value: loop for ever, reach
  \<^verbatim>\<open>abort()\<close> (\<^verbatim>\<open>cli; hlt\<close>), trap on a division, index an array outside its bounds,
  dereference a null pointer, run off the end of a non-void function, or fetch a variable
  argument that was not passed.
\<close>

datatype fault =
    NoReturn
  | Aborted
  | DivideError
  | OutOfBounds
  | NullDeref
  | MissingReturn
  | BadVarArg

type_synonym 'a result = "fault + 'a"

definition rbind :: "'a result \<Rightarrow> ('a \<Rightarrow> 'b result) \<Rightarrow> 'b result" where
  "rbind r f = (case r of Inl e \<Rightarrow> Inl e | Inr x \<Rightarrow> f x)"

definition of_loop :: "'a option \<Rightarrow> 'a result" where
  "of_loop r = (case r of None \<Rightarrow> Inl NoReturn | Some x \<Rightarrow> Inr x)"

lemma rbind_simps [simp]:
  "rbind (Inl e) f = Inl e" "rbind (Inr x) f = f x"
  by (simp_all add: rbind_def)

lemma rbind_eq_Inr [simp]:
  "rbind r f = Inr y \<longleftrightarrow> (\<exists>x. r = Inr x \<and> f x = Inr y)"
  by (cases r) auto

lemma of_loop_simps [simp]:
  "of_loop None = Inl NoReturn" "of_loop (Some x) = Inr x"
  by (simp_all add: of_loop_def)

lemma of_loop_eq_Inr [simp]: "of_loop r = Inr x \<longleftrightarrow> r = Some x"
  by (cases r) auto

section \<open>Word arithmetic\<close>

lemma unat_of_nat_64 [simp]: "n < 2 ^ 64 \<Longrightarrow> unat (of_nat n :: u64) = n"
  by (simp add: unat_of_nat take_bit_nat_eq_self_iff)

lemma unat_bound_64 [simp]:
  "unat (n::u64) < 18446744073709551616" "unat (n::u64) \<le> 18446744073709551616"
  using unsigned_less [of n, where 'a = nat] by simp_all

lemma less_unat_64: "i < unat (n::u64) \<Longrightarrow> i < 18446744073709551616"
  by (rule less_trans [OF _ unat_bound_64(1)])

lemma eq_of_nat_64: "k < 2 ^ 64 \<Longrightarrow> x = (of_nat k :: u64) \<longleftrightarrow> unat x = k"
  by auto

lemma unat_bound_8 [simp]: "unat (n::u8) < 256"
  using unsigned_less [of n, where 'a = nat] by simp

lemma unat_ucast_8_64 [simp]: "unat (ucast (x::u8) :: u64) = unat x"
  by (simp add: unsigned_ucast_eq take_bit_nat_eq_self less_trans [OF unat_bound_8])

lemma unat_ucast_32_64 [simp]: "unat (ucast (x::u32) :: u64) = unat x"
  using less_trans [OF unsigned_less [of x, where 'a = nat], of "2 ^ 64"]
  by (simp add: unsigned_ucast_eq take_bit_nat_eq_self)

lemma unat_of_nat_8: "n < 256 \<Longrightarrow> unat (of_nat n :: u8) = n"
  by (simp add: unat_of_nat take_bit_nat_eq_self)

lemma ucast_of_nat_8_64: "n < 256 \<Longrightarrow> ucast (of_nat n :: u8) = (of_nat n :: u64)"
  by (simp add: word_unat_eq_iff unat_of_nat_8)

lemma eq_add_of_nat_64:
  "k < 2 ^ 64 \<Longrightarrow> x = (a + of_nat k :: u64) \<longleftrightarrow> unat (x - a) = k"
  by (metis eq_of_nat_64 diff_eq_eq add.commute)

lemma word_diff_add_cancel [simp]: "(a::'a::len word) + (x - a) = x"
  by simp

lemma unat_sub_self_add:
  assumes "i < 2 ^ 64" shows "unat (a + of_nat i - a :: u64) = i"
  using assms by simp

lemma add_of_nat_inj_64:
  assumes "i < 2 ^ 64" "j < 2 ^ 64" "a + of_nat i = (a + of_nat j :: u64)"
  shows "i = j"
  using assms by (metis add_left_cancel unat_of_nat_64)

lemma unat_sub_less_Suc:
  "unat (x - a) < Suc n \<longleftrightarrow> x = a \<or> (x \<noteq> a \<and> unat (x - (a + 1)) < n)"
  if "Suc n \<le> 2 ^ 64" for x a :: u64
proof (cases "x = a")
  case False
  then have "x - a \<noteq> 0" by simp
  then have "unat (x - a) = Suc (unat (x - a - 1))"
    by (metis Suc_pred' unat_gt_0 unat_minus_one)
  then show ?thesis using False by (simp add: diff_diff_eq)
qed (use that in simp)

text \<open>Clearing the low bits rounds down to a multiple of a power of two.\<close>

lemma and_not_mask_eq: "x AND NOT (mask k) = push_bit k (drop_bit k (x :: 'a::len word))"
  by (auto intro!: bit_word_eqI simp: bit_simps)

lemma unat_and_not_mask: "unat (x AND NOT (mask k)) = unat (x :: 'a::len word) div 2 ^ k * 2 ^ k"
proof -
  have "unat x div 2 ^ k * 2 ^ k \<le> unat x" by simp
  also have "\<dots> < 2 ^ LENGTH('a)" by (rule unsigned_less)
  finally have small: "unat x div 2 ^ k * 2 ^ k < 2 ^ LENGTH('a)" .
  have "unat (drop_bit k x) = unat x div 2 ^ k"
    unfolding unsigned_drop_bit_eq take_bit_nat_eq_self [OF unsigned_less] by (rule drop_bit_eq_div)
  then have "unat (push_bit k (drop_bit k x)) = take_bit LENGTH('a) (unat x div 2 ^ k * 2 ^ k)"
    unfolding unsigned_push_bit_eq by (simp only: push_bit_eq_mult)
  then show ?thesis using small by (simp only: and_not_mask_eq take_bit_nat_eq_self)
qed

section \<open>Byte ranges\<close>

text \<open>\<open>in_range a n x\<close>: address \<open>x\<close> is one of the \<open>n\<close> bytes starting at \<open>a\<close>.\<close>

definition in_range :: "u64 \<Rightarrow> nat \<Rightarrow> u64 \<Rightarrow> bool" where
  "in_range a n x \<longleftrightarrow> unat (x - a) < n"

definition bytes_at :: "mem \<Rightarrow> u64 \<Rightarrow> nat \<Rightarrow> u8 list" where
  "bytes_at m a n = map (\<lambda>i. m (a + of_nat i)) [0..<n]"

lemma length_bytes_at [simp]: "length (bytes_at m a n) = n"
  by (simp add: bytes_at_def)

lemma nth_bytes_at [simp]: "i < n \<Longrightarrow> bytes_at m a n ! i = m (a + of_nat i)"
  by (simp add: bytes_at_def)

lemma in_range_0 [simp]: "\<not> in_range a 0 x"
  by (simp add: in_range_def)

lemma in_range_add [simp]:
  "i < 2 ^ 64 \<Longrightarrow> in_range a n (a + of_nat i) \<longleftrightarrow> i < n"
  by (simp add: in_range_def)

lemma in_rangeE:
  assumes "in_range a n x" obtains i where "i < n" "i < 2 ^ 64" "x = a + of_nat i"
proof
  show "unat (x - a) < n" using assms by (simp add: in_range_def)
  show "unat (x - a) < 2 ^ 64" using unsigned_less [of "x - a"] by simp
  show "x = a + of_nat (unat (x - a))" by simp
qed

lemma in_range_mono: "in_range a n x \<Longrightarrow> n \<le> k \<Longrightarrow> in_range a k x"
  by (simp add: in_range_def)

text \<open>A range inside a range.\<close>

lemma inside_range:
  assumes "in_range b k x" "unat a \<le> unat b" "unat b + k \<le> unat a + n" "unat a + n \<le> 2 ^ 64"
  shows "in_range a n x"
proof -
  obtain i where i: "i < k" "i < 2 ^ 64" "x = b + of_nat i" using assms(1) by (rule in_rangeE)
  have "b = a + of_nat (unat b - unat a)" using assms(2) by (simp add: of_nat_diff)
  then have "x = a + of_nat (unat b - unat a + i)" using i(3) by (simp add: add.assoc)
  then show ?thesis using i(1) assms(2-4) in_range_add [of "unat b - unat a + i" a n] by simp
qed

lemma range_split:
  assumes "in_range a (n + k) x" shows "in_range a n x \<or> in_range (a + of_nat n) k x"
proof (cases "in_range a n x")
  case False
  obtain i where i: "i < n + k" "i < 2 ^ 64" "x = a + of_nat i" using assms by (rule in_rangeE)
  then have "n \<le> i" using False by (simp add: not_less)
  then have "x = a + of_nat n + of_nat (i - n)" using i(3) by (simp add: of_nat_diff)
  then show ?thesis using i \<open>n \<le> i\<close> in_range_add [of "i - n" "a + of_nat n" k] by simp
qed simp

text \<open>The two ranges share no address.\<close>

definition disjoint_ranges :: "u64 \<Rightarrow> nat \<Rightarrow> u64 \<Rightarrow> nat \<Rightarrow> bool" where
  "disjoint_ranges a n b k \<longleftrightarrow> (\<forall>x. \<not> (in_range a n x \<and> in_range b k x))"

lemma disjoint_rangesD:
  "disjoint_ranges a n b k \<Longrightarrow> in_range a n x \<Longrightarrow> \<not> in_range b k x"
  by (auto simp: disjoint_ranges_def)

lemma disjoint_ranges_sym: "disjoint_ranges a n b k \<Longrightarrow> disjoint_ranges b k a n"
  by (auto simp: disjoint_ranges_def)

lemma disjoint_ranges_offset:
  assumes "n \<le> d" "d + k \<le> 2 ^ 64"
  shows "disjoint_ranges a n (a + of_nat d) k"
  unfolding disjoint_ranges_def
proof (intro allI notI, elim conjE)
  fix x assume x: "in_range a n x" "in_range (a + of_nat d) k x"
  obtain i where i: "i < n" "i < 2 ^ 64" "x = a + of_nat i" using x(1) by (rule in_rangeE)
  obtain j where j: "j < k" "j < 2 ^ 64" "x = a + of_nat d + of_nat j" using x(2) by (rule in_rangeE)
  have "a + of_nat i = a + (of_nat (d + j) :: u64)" using i j by (simp add: add.assoc)
  then have "i = d + j" using i j assms by (intro add_of_nat_inj_64) auto
  then show False using i assms by simp
qed

lemma disjoint_ranges_below:
  assumes "unat a + n \<le> unat b" "unat b + k \<le> 2 ^ 64"
  shows "disjoint_ranges a n b k"
proof -
  have "b = a + of_nat (unat b - unat a)" using assms(1) by (simp add: of_nat_diff)
  then show ?thesis
    using disjoint_ranges_offset [of n "unat b - unat a" k a] assms by simp
qed

lemma disjoint_ranges_above:
  "unat b + k \<le> unat a \<Longrightarrow> unat a + n \<le> 2 ^ 64 \<Longrightarrow> disjoint_ranges a n b k"
  by (rule disjoint_ranges_sym) (rule disjoint_ranges_below)

text \<open>Writing a list of bytes upwards from an address.\<close>

fun put_list :: "mem \<Rightarrow> u64 \<Rightarrow> u8 list \<Rightarrow> mem" where
  "put_list m a [] = m"
| "put_list m a (x # xs) = put_list (m(a := x)) (a + 1) xs"

lemma in_range_Suc:
  "Suc n \<le> 2 ^ 64 \<Longrightarrow> in_range a (Suc n) x \<longleftrightarrow> x = a \<or> (x \<noteq> a \<and> in_range (a + 1) n x)"
  unfolding in_range_def by (rule unat_sub_less_Suc)

lemma not_in_range_succ: "n < 2 ^ 64 \<Longrightarrow> \<not> in_range (a + 1) n a"
  by (simp add: in_range_def unsigned_minus_1_eq_mask mask_eq_exp_minus_1)

lemma unat_sub_succ:
  fixes x a :: u64
  assumes "x \<noteq> a" shows "unat (x - a) = Suc (unat (x - (a + 1)))"
proof -
  have "x - a \<noteq> 0" using assms by simp
  then show ?thesis by (metis Suc_pred' unat_gt_0 unat_minus_one diff_diff_eq)
qed

lemma put_list_apply:
  "length xs \<le> 2 ^ 64 \<Longrightarrow>
     put_list m a xs x = (if in_range a (length xs) x then xs ! unat (x - a) else m x)"
proof (induction xs arbitrary: m a)
  case (Cons y ys)
  show ?case
  proof (cases "x = a")
    case True
    then show ?thesis using Cons not_in_range_succ [of "length ys" a] by (simp add: in_range_Suc)
  next
    case False
    then show ?thesis using Cons unat_sub_succ [OF False] by (simp add: in_range_Suc)
  qed
qed simp

lemma bytes_at_put_list: "length xs \<le> 2 ^ 64 \<Longrightarrow> bytes_at (put_list m a xs) a (length xs) = xs"
  by (auto simp: bytes_at_def put_list_apply intro!: nth_equalityI)

section \<open>Little-endian loads and stores\<close>

fun load_bytes :: "mem \<Rightarrow> u64 \<Rightarrow> nat \<Rightarrow> 'a::len word" where
  "load_bytes m a 0 = 0"
| "load_bytes m a (Suc k) = ucast (m a) OR push_bit 8 (load_bytes m (a + 1) k)"

fun store_bytes :: "mem \<Rightarrow> u64 \<Rightarrow> 'a::len word \<Rightarrow> nat \<Rightarrow> mem" where
  "store_bytes m a v 0 = m"
| "store_bytes m a v (Suc k) = store_bytes (m(a := ucast v)) (a + 1) (drop_bit 8 v) k"

definition load32 :: "mem \<Rightarrow> u64 \<Rightarrow> u32" where
  "load32 m a = load_bytes m a 4"

definition load64 :: "mem \<Rightarrow> u64 \<Rightarrow> u64" where
  "load64 m a = load_bytes m a 8"

definition store32 :: "mem \<Rightarrow> u64 \<Rightarrow> u32 \<Rightarrow> mem" where
  "store32 m a v = store_bytes m a v 4"

definition store64 :: "mem \<Rightarrow> u64 \<Rightarrow> u64 \<Rightarrow> mem" where
  "store64 m a v = store_bytes m a v 8"

lemma load_bytes_numeral [mem_eval]:
  "load_bytes m a (numeral k) = ucast (m a) OR push_bit 8 (load_bytes m (a + 1) (pred_numeral k))"
  by (simp add: numeral_eq_Suc)

lemma store_bytes_numeral [mem_eval]:
  "store_bytes m a v (numeral k) =
     store_bytes (m(a := ucast v)) (a + 1) (drop_bit 8 v) (pred_numeral k)"
  by (simp add: numeral_eq_Suc)

declare load32_def [mem_eval] load64_def [mem_eval] store32_def [mem_eval] store64_def [mem_eval]

lemma bit_load_bytes:
  "bit (load_bytes m a k :: 'a::len word) i \<longleftrightarrow>
     i < 8 * k \<and> i < LENGTH('a) \<and> bit (m (a + of_nat (i div 8))) (i mod 8)"
proof (induction k arbitrary: a i)
  case (Suc k)
  show ?case
  proof (cases "i < 8")
    case True
    then show ?thesis by (auto simp: bit_simps Suc.IH)
  next
    case False
    then obtain j where j: "i = j + 8" by (metis add.commute le_add_diff_inverse not_less)
    have "i div 8 = Suc (j div 8)" by (simp add: j)
    then have "m (a + 1 + of_nat (j div 8)) = m (a + of_nat ((j + 8) div 8))"
      by (simp add: j add.assoc)
    moreover have "\<not> bit (m a) i" using False by (auto dest: bit_imp_le_length)
    ultimately show ?thesis
      using False by (auto simp: bit_simps Suc.IH j)
  qed
qed simp

lemma store_bytes_apply:
  assumes "k \<le> 2 ^ 64"
  shows "store_bytes m a v k x =
    (if in_range a k x then ucast (drop_bit (8 * unat (x - a)) v) else m x)"
  using assms
proof (induction k arbitrary: m a v)
  case (Suc k)
  note split = unat_sub_less_Suc [OF Suc.prems, of x a]
  show ?case
  proof (cases "x = a")
    case True
    have "\<not> in_range (a + 1) k a"
    proof -
      have "unat (a - (a + 1)) = 2 ^ 64 - 1"
        by (simp add: unsigned_minus_1_eq_mask mask_eq_exp_minus_1)
      then show ?thesis using Suc.prems by (simp add: in_range_def)
    qed
    then show ?thesis using True Suc by (simp add: in_range_def)
  next
    case False
    then have "x - a \<noteq> 0" by simp
    then have "unat (x - a) = Suc (unat (x - (a + 1)))"
      by (metis Suc_pred' unat_gt_0 unat_minus_one diff_diff_eq)
    then have "8 * unat (x - a) = 8 * unat (x - (a + 1)) + 8" by simp
    then show ?thesis
      using False Suc split by (simp add: in_range_def drop_bit_drop_bit add.commute)
  qed
qed simp

lemma store64_apply:
  "store64 m a v x = (if in_range a 8 x then ucast (drop_bit (8 * unat (x - a)) v) else m x)"
  by (simp add: store64_def store_bytes_apply)

lemma store32_apply:
  "store32 m a v x = (if in_range a 4 x then ucast (drop_bit (8 * unat (x - a)) v) else m x)"
  by (simp add: store32_def store_bytes_apply)

lemma load64_cong:
  "(\<And>x. in_range a 8 x \<Longrightarrow> m x = m' x) \<Longrightarrow> load64 m a = load64 m' a"
  by (rule bit_word_eqI) (auto simp: load64_def bit_load_bytes)

lemma load32_cong:
  "(\<And>x. in_range a 4 x \<Longrightarrow> m x = m' x) \<Longrightarrow> load32 m a = load32 m' a"
  by (rule bit_word_eqI) (auto simp: load32_def bit_load_bytes)

lemma load64_store64 [mem_simps, simp]: "load64 (store64 m a v) a = v"
proof (rule bit_word_eqI)
  fix i assume "i < LENGTH(64)"
  then have i: "i div 8 < 8" "i < 64" by auto
  then have "in_range a 8 (a + of_nat (i div 8))" by simp
  moreover have "unat (of_nat (i div 8) :: u64) = i div 8" using i by simp
  moreover have "8 * (i div 8) + i mod 8 = i" by simp
  ultimately show "bit (load64 (store64 m a v) a) i = bit v i"
    using i by (simp add: load64_def bit_load_bytes store64_apply bit_simps)
qed

lemma load32_store32 [mem_simps, simp]: "load32 (store32 m a v) a = v"
proof (rule bit_word_eqI)
  fix i assume "i < LENGTH(32)"
  then have i: "i div 8 < 4" "i < 32" by auto
  then have "in_range a 4 (a + of_nat (i div 8))" by simp
  moreover have "unat (of_nat (i div 8) :: u64) = i div 8" using i by simp
  moreover have "8 * (i div 8) + i mod 8 = i" by simp
  ultimately show "bit (load32 (store32 m a v) a) i = bit v i"
    using i by (simp add: load32_def bit_load_bytes store32_apply bit_simps)
qed

lemma load64_store64_disjoint [mem_simps]:
  "disjoint_ranges a 8 b 8 \<Longrightarrow> load64 (store64 m b v) a = load64 m a"
  by (rule load64_cong) (auto simp: store64_apply disjoint_ranges_def)

end
