(* ===== verification/C_String.thy ===== *)
theory C_String
  imports Kernull_Prelude "HOL-Library.Sublist"
begin

text \<open>
  The freestanding string library, \<^verbatim>\<open>src/kernel/string.c\<close>, over the byte memory of the
  prelude.  Counted loops recurse on the count; loops that run until a NUL byte are
  \<^theory_text>\<open>partial_function (option)\<close>, with \<open>None\<close> for a run that never meets a NUL.  A
  function that writes returns the new memory together with the pointer the C function
  returns.  \<open>char\<close> is signed on this target, so a \<open>char\<close> read as an \<open>int\<close> is
  \<open>sint\<close> of the byte; an \<open>unsigned char\<close> is \<open>uint\<close> of it.
\<close>

section \<open>Memory functions\<close>

fun memchr_loop :: "mem \<Rightarrow> u64 \<Rightarrow> u8 \<Rightarrow> nat \<Rightarrow> u64" where
  "memchr_loop m p c 0 = NULL"
| "memchr_loop m p c (Suc n) = (if m p = c then p else memchr_loop m (p + 1) c n)"

definition memchr :: "mem \<Rightarrow> u64 \<Rightarrow> u32 \<Rightarrow> u64 \<Rightarrow> u64" where
  "memchr m s c n = memchr_loop m s (ucast c) (unat n)"

fun memcmp_loop :: "mem \<Rightarrow> u64 \<Rightarrow> u64 \<Rightarrow> int \<Rightarrow> nat \<Rightarrow> int" where
  "memcmp_loop m p1 p2 ret 0 = ret"
| "memcmp_loop m p1 p2 ret (Suc n) =
     (let ret = uint (m p1) - uint (m p2)
      in if ret \<noteq> 0 then ret else memcmp_loop m (p1 + 1) (p2 + 1) ret n)"

definition memcmp :: "mem \<Rightarrow> u64 \<Rightarrow> u64 \<Rightarrow> u64 \<Rightarrow> int" where
  "memcmp m s1 s2 n = memcmp_loop m s1 s2 0 (unat n)"

fun memcpy_loop :: "mem \<Rightarrow> u64 \<Rightarrow> u64 \<Rightarrow> nat \<Rightarrow> mem" where
  "memcpy_loop m pd ps 0 = m"
| "memcpy_loop m pd ps (Suc n) = memcpy_loop (m(pd := m ps)) (pd + 1) (ps + 1) n"

definition memcpy :: "mem \<Rightarrow> u64 \<Rightarrow> u64 \<Rightarrow> u64 \<Rightarrow> mem \<times> u64" where
  "memcpy m dest src n = (memcpy_loop m dest src (unat n), dest)"

fun memmove_back :: "mem \<Rightarrow> u64 \<Rightarrow> u64 \<Rightarrow> nat \<Rightarrow> mem" where
  "memmove_back m pd ps 0 = m"
| "memmove_back m pd ps (Suc n) =
     memmove_back (m(pd - 1 := m (ps - 1))) (pd - 1) (ps - 1) n"

definition memmove :: "mem \<Rightarrow> u64 \<Rightarrow> u64 \<Rightarrow> u64 \<Rightarrow> mem \<times> u64" where
  "memmove m dest src n =
     (if dest \<le> src then memcpy_loop m dest src (unat n)
      else memmove_back m (dest + n) (src + n) (unat n), dest)"

fun stosb :: "mem \<Rightarrow> u64 \<Rightarrow> u8 \<Rightarrow> nat \<Rightarrow> mem" where
  "stosb m d a 0 = m"
| "stosb m d a (Suc n) = stosb (m(d := a)) (d + 1) a n"

definition memset :: "mem \<Rightarrow> u64 \<Rightarrow> u32 \<Rightarrow> u64 \<Rightarrow> mem \<times> u64" where
  "memset m s c n = (stosb m s (ucast c) (unat n), s)"

section \<open>String functions\<close>

partial_function (option) strlen_loop :: "mem \<Rightarrow> u64 \<Rightarrow> u64 \<Rightarrow> u64 option" where
  "strlen_loop m s n = (if m (s + n) \<noteq> 0 then strlen_loop m s (n + 1) else Some n)"

definition strlen :: "mem \<Rightarrow> u64 \<Rightarrow> u64 option" where
  "strlen m s = strlen_loop m s 0"

partial_function (option) skip_past_nul :: "mem \<Rightarrow> u64 \<Rightarrow> u64 option" where
  "skip_past_nul m d = (if m d \<noteq> 0 then skip_past_nul m (d + 1) else Some (d + 1))"

partial_function (option) strcpy_loop :: "mem \<Rightarrow> u64 \<Rightarrow> u64 \<Rightarrow> mem option" where
  "strcpy_loop m dest src =
     (let c = m src; m' = m(dest := c)
      in if c \<noteq> 0 then strcpy_loop m' (dest + 1) (src + 1) else Some m')"

definition strcpy :: "mem \<Rightarrow> u64 \<Rightarrow> u64 \<Rightarrow> (mem \<times> u64) option" where
  "strcpy m dest src = map_option (\<lambda>m'. (m', dest)) (strcpy_loop m dest src)"

fun strncpy_loop :: "mem \<Rightarrow> u64 \<Rightarrow> u64 \<Rightarrow> nat \<Rightarrow> mem" where
  "strncpy_loop m dest src 0 = m"
| "strncpy_loop m dest src (Suc n) =
     (let c = m src; m' = m(dest := c)
      in if c = 0 then m' else strncpy_loop m' (dest + 1) (src + 1) n)"

definition strncpy :: "mem \<Rightarrow> u64 \<Rightarrow> u64 \<Rightarrow> u64 \<Rightarrow> mem \<times> u64" where
  "strncpy m dest src n = (strncpy_loop m dest src (unat n), dest)"

definition strcat :: "mem \<Rightarrow> u64 \<Rightarrow> u64 \<Rightarrow> (mem \<times> u64) option" where
  "strcat m dest src =
     (case skip_past_nul m dest of
        None \<Rightarrow> None
      | Some d \<Rightarrow> map_option (\<lambda>m'. (m', dest)) (strcpy_loop m d src))"

fun strncat_loop :: "mem \<Rightarrow> u64 \<Rightarrow> u64 \<Rightarrow> nat \<Rightarrow> mem" where
  "strncat_loop m dest src 0 = m"
| "strncat_loop m dest src (Suc n) =
     (let c = m src; m' = m(dest := c)
      in if c \<noteq> 0
         then (if n = 0 then m'(dest + 1 := 0) else strncat_loop m' (dest + 1) (src + 1) n)
         else m')"

definition strncat :: "mem \<Rightarrow> u64 \<Rightarrow> u64 \<Rightarrow> u64 \<Rightarrow> (mem \<times> u64) option" where
  "strncat m dest src n =
     (if n \<noteq> 0 then
        (case skip_past_nul m dest of
           None \<Rightarrow> None
         | Some d \<Rightarrow> Some (strncat_loop m d src (unat n), dest))
      else Some (m, dest))"

partial_function (option) strchr_loop :: "mem \<Rightarrow> u64 \<Rightarrow> u8 \<Rightarrow> u64 option" where
  "strchr_loop m s c =
     (if m s \<noteq> 0 then
        (if sint (m s) = uint c then Some s else strchr_loop m (s + 1) c)
      else Some NULL)"

definition strchr :: "mem \<Rightarrow> u64 \<Rightarrow> u32 \<Rightarrow> u64 option" where
  "strchr m s c = strchr_loop m s (ucast c)"

partial_function (option) strrchr_loop :: "mem \<Rightarrow> u64 \<Rightarrow> u8 \<Rightarrow> u64 \<Rightarrow> u64 option" where
  "strrchr_loop m s c ret =
     (if m s \<noteq> 0 then
        strrchr_loop m (s + 1) c (if sint (m s) = uint c then s else ret)
      else Some ret)"

definition strrchr :: "mem \<Rightarrow> u64 \<Rightarrow> u32 \<Rightarrow> u64 option" where
  "strrchr m s c = strrchr_loop m s (ucast c) NULL"

partial_function (option) strcmp :: "mem \<Rightarrow> u64 \<Rightarrow> u64 \<Rightarrow> int option" where
  "strcmp m s1 s2 =
     (if m s1 \<noteq> 0 \<and> m s2 \<noteq> 0 then
        (if m s1 \<noteq> m s2 then Some (if sint (m s1) < sint (m s2) then - 1 else 1)
         else strcmp m (s1 + 1) (s2 + 1))
      else Some 0)"

fun strncmp_loop :: "mem \<Rightarrow> u64 \<Rightarrow> u64 \<Rightarrow> nat \<Rightarrow> int" where
  "strncmp_loop m s1 s2 0 = 0"
| "strncmp_loop m s1 s2 (Suc n) =
     (if m s1 \<noteq> 0 \<and> m s2 \<noteq> 0 then
        (if m s1 \<noteq> m s2 then (if sint (m s1) < sint (m s2) then - 1 else 1)
         else strncmp_loop m (s1 + 1) (s2 + 1) n)
      else 0)"

definition strncmp :: "mem \<Rightarrow> u64 \<Rightarrow> u64 \<Rightarrow> u64 \<Rightarrow> int" where
  "strncmp m s1 s2 n = strncmp_loop m s1 s2 (unat n)"

partial_function (option) strstr_loop :: "mem \<Rightarrow> u64 \<Rightarrow> u64 \<Rightarrow> u64 \<Rightarrow> u64 \<Rightarrow> u64 option" where
  "strstr_loop m dom_p sub_p dom_len sub_len =
     (if sub_len \<le> dom_len then
        (if memcmp m dom_p sub_p sub_len = 0 then Some dom_p
         else strstr_loop m (dom_p + 1) sub_p (dom_len - 1) sub_len)
      else Some NULL)"

definition strstr :: "mem \<Rightarrow> u64 \<Rightarrow> u64 \<Rightarrow> u64 option" where
  "strstr m dom_p sub_p =
     (case strlen m sub_p of
        None \<Rightarrow> None
      | Some sub_len \<Rightarrow>
          if sub_len = 0 then Some dom_p
          else (case strlen m dom_p of
                  None \<Rightarrow> None
                | Some dom_len \<Rightarrow> strstr_loop m dom_p sub_p dom_len sub_len))"

section \<open>C strings in memory\<close>

text \<open>\<open>cstring m s xs\<close>: at \<open>s\<close> stand the non-NUL bytes \<open>xs\<close> and then a NUL.\<close>

fun cstring :: "mem \<Rightarrow> u64 \<Rightarrow> u8 list \<Rightarrow> bool" where
  "cstring m s [] \<longleftrightarrow> m s = 0"
| "cstring m s (x # xs) \<longleftrightarrow> m s = x \<and> x \<noteq> 0 \<and> cstring m (s + 1) xs"

lemma cstring_nth:
  "cstring m s xs \<longleftrightarrow>
     (\<forall>i < length xs. m (s + of_nat i) = xs ! i \<and> xs ! i \<noteq> 0) \<and> m (s + of_nat (length xs)) = 0"
proof (induction xs arbitrary: s)
  case (Cons x xs)
  have "(\<forall>i < length (x # xs). m (s + of_nat i) = (x # xs) ! i \<and> (x # xs) ! i \<noteq> 0) \<longleftrightarrow>
    (m s = x \<and> x \<noteq> 0) \<and>
    (\<forall>i < length xs. m (s + 1 + of_nat i) = xs ! i \<and> xs ! i \<noteq> 0)"
    by (simp add: All_less_Suc2 add.assoc)
  then show ?case using Cons by (auto simp: add.assoc)
qed simp

lemma cstring_length:
  assumes "cstring m s xs" shows "length xs < 2 ^ 64"
proof (rule ccontr)
  let ?k = "length xs - 2 ^ 64"
  assume "\<not> length xs < 2 ^ 64"
  then have k: "?k < length xs" "length xs = ?k + 2 ^ 64" by auto
  have "s + of_nat (length xs) = s + (of_nat ?k :: u64) + of_nat (2 ^ 64)"
    by (subst k(2)) (simp only: of_nat_add add.assoc)
  also have "(of_nat (2 ^ 64) :: u64) = 0" by simp
  finally have "s + of_nat (length xs) = s + (of_nat ?k :: u64)" by simp
  then show False using assms k(1) unfolding cstring_nth by metis
qed

lemma cstring_unique: "cstring m s xs \<Longrightarrow> cstring m s ys \<Longrightarrow> xs = ys"
proof (induction xs arbitrary: s ys)
  case Nil
  then show ?case by (cases ys) auto
next
  case (Cons x xs)
  then show ?case by (cases ys) auto
qed

lemma cstring_cong:
  assumes "cstring m s xs" "\<And>x. in_range s (Suc (length xs)) x \<Longrightarrow> m' x = m x"
  shows "cstring m' s xs"
proof -
  note len = cstring_length [OF assms(1)]
  have "m' (s + of_nat i) = m (s + of_nat i)" if "i \<le> length xs" for i
    using that len by (intro assms(2)) simp
  then show ?thesis using assms(1) unfolding cstring_nth by simp
qed

lemma cstring_drop:
  "cstring m s xs \<Longrightarrow> k \<le> length xs \<Longrightarrow> cstring m (s + of_nat k) (drop k xs)"
proof (induction k arbitrary: s xs)
  case (Suc k)
  then obtain y ys where "xs = y # ys" by (cases xs) auto
  with Suc.IH [of "s + 1" ys] Suc.prems show ?case by (simp add: add.assoc)
qed simp

section \<open>Length\<close>

lemma strlen_loop_cstring:
  "cstring m (s + n) xs \<Longrightarrow> strlen_loop m s n = Some (n + of_nat (length xs))"
proof (induction xs arbitrary: n)
  case Nil
  then show ?case by (subst strlen_loop.simps) simp
next
  case (Cons x xs)
  then have "strlen_loop m s (n + 1) = Some (n + 1 + of_nat (length xs))"
    by (intro Cons.IH) (simp add: add.assoc)
  with Cons.prems show ?case by (subst strlen_loop.simps) (simp add: algebra_simps)
qed

lemma strlen_cstring [simp]: "cstring m s xs \<Longrightarrow> strlen m s = Some (of_nat (length xs))"
  using strlen_loop_cstring [of m s 0] by (simp add: strlen_def)

text \<open>Some NUL byte in the address space is enough for a string to end.\<close>

lemma cstring_exists:
  assumes "m a = 0" shows "\<exists>xs. cstring m s xs"
proof -
  let ?P = "\<lambda>i. m (s + of_nat i) = 0"
  define k where "k = (LEAST i. ?P i)"
  have "?P (unat (a - s))" using assms by simp
  then have "?P k" unfolding k_def by (rule LeastI)
  moreover have "m (s + of_nat i) \<noteq> 0" if "i < k" for i
    using that not_less_Least unfolding k_def by blast
  ultimately have "cstring m s (bytes_at m s k)"
    by (simp add: cstring_nth)
  then show ?thesis ..
qed

lemma strlen_loop_None:
  assumes "\<And>a. m a \<noteq> 0" shows "strlen_loop m s n \<noteq> Some r"
proof
  assume ret: "strlen_loop m s n = Some r"
  have "m (s + r) = 0"
  proof (rule strlen_loop.raw_induct [where P = "\<lambda>m s n r. m (s + r) = 0", OF _ ret])
    fix f m s n r
    assume "\<And>m s n r. f m s n = Some r \<Longrightarrow> m (s + r) = (0::u8)"
      and "(if m (s + n) \<noteq> 0 then f m s (n + 1) else Some n) = Some r"
    then show "m (s + r) = 0" by (auto split: if_splits)
  qed
  then show False using assms by simp
qed

section \<open>Searching and comparing a counted range\<close>

lemma find_upt_Suc:
  "find P [0..<Suc n] = (if P 0 then Some 0 else map_option Suc (find (\<lambda>i. P (Suc i)) [0..<n]))"
proof -
  have "[0..<Suc n] = 0 # map Suc [0..<n]"
    by (simp add: upt_conv_Cons map_Suc_upt del: upt_Suc)
  moreover have "find P (map Suc xs) = map_option Suc (find (\<lambda>i. P (Suc i)) xs)" for xs
    by (induction xs) auto
  ultimately show ?thesis by simp
qed

lemma memchr_loop_find:
  "memchr_loop m p c n =
     (case find (\<lambda>i. m (p + of_nat i) = c) [0..<n] of None \<Rightarrow> NULL | Some i \<Rightarrow> p + of_nat i)"
proof (induction n arbitrary: p)
  case (Suc n)
  show ?case
    unfolding find_upt_Suc by (auto simp: Suc.IH add.assoc split: option.splits)
qed simp

lemma memcmp_loop_find:
  "memcmp_loop m p q 0 n =
     (case find (\<lambda>i. m (p + of_nat i) \<noteq> m (q + of_nat i)) [0..<n] of
        None \<Rightarrow> 0 | Some i \<Rightarrow> uint (m (p + of_nat i)) - uint (m (q + of_nat i)))"
proof (induction n arbitrary: p q)
  case (Suc n)
  show ?case
    unfolding find_upt_Suc
    by (auto simp: Suc.IH add.assoc Let_def split: option.splits dest: unsigned_word_eqI)
qed simp

lemma memcmp_loop_eq_0: "memcmp_loop m p q 0 n = 0 \<longleftrightarrow> bytes_at m p n = bytes_at m q n"
proof -
  have "memcmp_loop m p q 0 n = 0 \<longleftrightarrow> (\<forall>i<n. m (p + of_nat i) = m (q + of_nat i))"
    by (auto simp: memcmp_loop_find find_None_iff find_Some_iff
        split: option.splits dest: unsigned_word_eqI)
  then show ?thesis by (simp add: list_eq_iff_nth_eq)
qed

lemma memcmp_eq_0: "memcmp m p q n = 0 \<longleftrightarrow> bytes_at m p (unat n) = bytes_at m q (unat n)"
  by (simp add: memcmp_def memcmp_loop_eq_0)

section \<open>Copying\<close>

text \<open>
  A forward copy delivers the original source bytes as long as no byte it has written is read
  later; a backward copy as long as no byte it has written is read later in its own order.
\<close>

lemma memcpy_loop_apply:
  assumes "n \<le> 2 ^ 64"
    and "\<And>i j. i < j \<Longrightarrow> j < n \<Longrightarrow> pd + of_nat i \<noteq> ps + of_nat j"
  shows "memcpy_loop m pd ps n x = (if in_range pd n x then m (ps + (x - pd)) else m x)"
  using assms
proof (induction n arbitrary: m pd ps)
  case (Suc n)
  have step: "memcpy_loop m' (pd + 1) (ps + 1) n x =
      (if in_range (pd + 1) n x then m' (ps + 1 + (x - (pd + 1))) else m' x)" for m'
  proof (rule Suc.IH)
    fix i j assume "i < j" "j < n"
    then have "pd + of_nat (Suc i) \<noteq> ps + of_nat (Suc j)" by (intro Suc.prems(2)) auto
    then show "pd + 1 + of_nat i \<noteq> ps + 1 + of_nat j" by (simp add: add.assoc)
  qed (use Suc.prems in simp)
  have clean: "ps + (x - pd) \<noteq> pd" if r: "in_range (pd + 1) n x"
  proof -
    obtain i where i: "i < n" "x = pd + 1 + of_nat i" using r by (rule in_rangeE)
    then have "pd + of_nat 0 \<noteq> ps + of_nat (Suc i)" by (intro Suc.prems(2)) auto
    with i show ?thesis by (simp add: algebra_simps)
  qed
  show ?case
    using Suc.prems(1) clean not_in_range_succ [of n pd]
    by (auto simp: step in_range_Suc)
qed simp

lemma memmove_back_apply:
  assumes "n \<le> 2 ^ 64"
    and "\<And>i j. i < j \<Longrightarrow> j < n \<Longrightarrow> d + of_nat j \<noteq> s + of_nat i"
  shows "memmove_back m (d + of_nat n) (s + of_nat n) n x =
    (if in_range d n x then m (s + (x - d)) else m x)"
  using assms
proof (induction n arbitrary: m)
  case (Suc n)
  let ?m = "m(d + of_nat n := m (s + of_nat n))"
  have "memmove_back m (d + of_nat (Suc n)) (s + of_nat (Suc n)) (Suc n) x =
      memmove_back ?m (d + of_nat n) (s + of_nat n) n x"
    by (simp add: algebra_simps)
  also have "\<dots> = (if in_range d n x then ?m (s + (x - d)) else ?m x)"
    using Suc.prems by (intro Suc.IH) auto
  finally have eq: "memmove_back m (d + of_nat (Suc n)) (s + of_nat (Suc n)) (Suc n) x =
      (if in_range d n x then ?m (s + (x - d)) else ?m x)" .
  have clean: "s + (x - d) \<noteq> d + of_nat n" if "in_range d n x"
    using that Suc.prems(2) by (elim in_rangeE) (metis add_diff_cancel_left' lessI)
  have top: "in_range d (Suc n) x \<longleftrightarrow> in_range d n x \<or> x = d + of_nat n"
    using Suc.prems(1) unfolding in_range_def by (auto simp: less_Suc_eq)
  have "\<not> in_range d n (d + of_nat n)" using Suc.prems(1) by simp
  then show ?case unfolding eq using clean by (auto simp: top)
qed simp

text \<open>Ranges that do not wrap around the top of the address space.\<close>

lemma unat_add_of_nat:
  "unat (a::u64) + k \<le> 2 ^ 64 \<Longrightarrow> i < k \<Longrightarrow> unat (a + of_nat i) = unat a + i"
  by (simp add: unat_add_lem [THEN iffD1])

lemma memmove_apply:
  assumes d: "unat dest + unat n \<le> 2 ^ 64" and s: "unat src + unat n \<le> 2 ^ 64"
  shows "fst (memmove m dest src n) x =
    (if in_range dest (unat n) x then m (src + (x - dest)) else m x)"
proof -
  have n: "unat n \<le> 2 ^ 64" using d by simp
  have unat_eq: "unat (dest + of_nat i) = unat dest + i" "unat (src + of_nat i) = unat src + i"
    if "i < unat n" for i
    using that d s by (simp_all add: unat_add_of_nat)
  show ?thesis
  proof (cases "dest \<le> src")
    case True
    have "dest + of_nat i \<noteq> src + of_nat j" if "i < j" "j < unat n" for i j
      using unat_eq [of i] unat_eq [of j] that True by (auto simp: word_le_nat_alt)
    then show ?thesis using True n by (simp add: memmove_def memcpy_loop_apply)
  next
    case False
    have "dest + of_nat j \<noteq> src + of_nat i" if "i < j" "j < unat n" for i j
      using unat_eq [of i] unat_eq [of j] that False by (auto simp: word_le_nat_alt)
    then show ?thesis
      using False n memmove_back_apply [of "unat n" dest src m x] by (simp add: memmove_def)
  qed
qed

lemma stosb_apply:
  "n \<le> 2 ^ 64 \<Longrightarrow> stosb m d a n x = (if in_range d n x then a else m x)"
proof (induction n arbitrary: m d)
  case (Suc n)
  then show ?case using not_in_range_succ [of n d] by (auto simp: in_range_Suc)
qed simp

lemma memset_apply:
  "fst (memset m s c n) x = (if in_range s (unat n) x then ucast c else m x)"
  by (simp add: memset_def stosb_apply)

section \<open>Copying strings\<close>

text \<open>Copying a string with its NUL is the counted forward copy of one byte more.\<close>

lemma strcpy_loop_memcpy:
  assumes "cstring m src xs"
    and "\<And>i j. i < j \<Longrightarrow> j \<le> length xs \<Longrightarrow> dest + of_nat i \<noteq> src + of_nat j"
  shows "strcpy_loop m dest src = Some (memcpy_loop m dest src (Suc (length xs)))"
  using assms
proof (induction xs arbitrary: m dest src)
  case Nil
  then show ?case by (subst strcpy_loop.simps) simp
next
  case (Cons x xs)
  let ?m = "m(dest := m src)"
  have later: "dest + 1 + of_nat i \<noteq> src + 1 + of_nat j" if "i < j" "j \<le> length xs" for i j
    using Cons.prems(2) [of "Suc i" "Suc j"] that by (simp add: add.assoc)
  have fresh: "\<not> in_range (src + 1) (Suc (length xs)) dest"
  proof
    assume "in_range (src + 1) (Suc (length xs)) dest"
    then obtain i where "i < Suc (length xs)" "dest = src + 1 + of_nat i"
      by (rule in_rangeE)
    then show False using Cons.prems(2) [of 0 "Suc i"] by (simp add: add.assoc)
  qed
  have "cstring ?m (src + 1) xs"
  proof (rule cstring_cong)
    show "cstring m (src + 1) xs" using Cons.prems(1) by simp
    show "?m y = m y" if "in_range (src + 1) (Suc (length xs)) y" for y
      using fresh that by (metis fun_upd_other)
  qed
  then have "strcpy_loop ?m (dest + 1) (src + 1) =
      Some (memcpy_loop ?m (dest + 1) (src + 1) (Suc (length xs)))"
    using later by (rule Cons.IH)
  then show ?case using Cons.prems(1) by (subst strcpy_loop.simps) (simp add: Let_def)
qed

lemma disjoint_ranges_neq:
  assumes "disjoint_ranges d n s k" "i < n" "j < k" "n \<le> 2 ^ 64" "k \<le> 2 ^ 64"
  shows "d + of_nat i \<noteq> s + of_nat j"
proof
  assume eq: "d + of_nat i = s + of_nat j"
  have "in_range d n (d + of_nat i)" "in_range s k (s + of_nat j)" using assms by simp_all
  then show False using assms(1) unfolding eq disjoint_ranges_def by blast
qed

lemma memcpy_loop_disjoint:
  assumes "disjoint_ranges d n s n" "n \<le> 2 ^ 64"
  shows "memcpy_loop m d s n x = (if in_range d n x then m (s + (x - d)) else m x)"
  using assms disjoint_ranges_neq [OF assms(1)] by (intro memcpy_loop_apply) auto

lemma cstring_memcpy:
  assumes "cstring m src xs"
    and "disjoint_ranges dest (Suc (length xs)) src (Suc (length xs))"
  shows "cstring (memcpy_loop m dest src (Suc (length xs))) dest xs"
proof -
  have len: "length xs < 2 ^ 64" using assms(1) by (rule cstring_length)
  have "memcpy_loop m dest src (Suc (length xs)) (dest + of_nat i) = m (src + of_nat i)"
    if "i \<le> length xs" for i
    using that len assms(2) by (subst memcpy_loop_disjoint) auto
  then show ?thesis using assms(1) by (auto simp: cstring_nth)
qed

lemma strcpy_loop_disjoint:
  assumes "cstring m src xs"
    and "disjoint_ranges dest (Suc (length xs)) src (Suc (length xs))"
  shows "strcpy_loop m dest src = Some (memcpy_loop m dest src (Suc (length xs)))"
  using assms(1)
proof (rule strcpy_loop_memcpy)
  fix i j assume "i < j" "j \<le> length xs"
  then show "dest + of_nat i \<noteq> src + of_nat j"
    using cstring_length [OF assms(1)] by (intro disjoint_ranges_neq [OF assms(2)]) auto
qed

lemma skip_past_nul_cstring:
  "cstring m d xs \<Longrightarrow> skip_past_nul m d = Some (d + of_nat (Suc (length xs)))"
proof (induction xs arbitrary: d)
  case Nil
  then show ?case by (subst skip_past_nul.simps) simp
next
  case (Cons x xs)
  then show ?case
    by (subst skip_past_nul.simps) (simp add: algebra_simps)
qed

section \<open>Comparing and searching strings\<close>

text \<open>The sign the code gives to two unequal \<open>char\<close> values.\<close>

definition char_order :: "u8 \<Rightarrow> u8 \<Rightarrow> int" where
  "char_order x y = (if sint x < sint y then - 1 else 1)"

fun first_difference :: "u8 list \<Rightarrow> u8 list \<Rightarrow> int" where
  "first_difference (x # xs) (y # ys) =
     (if x \<noteq> y then char_order x y else first_difference xs ys)"
| "first_difference _ _ = 0"

lemma strcmp_first_difference:
  "cstring m s1 xs \<Longrightarrow> cstring m s2 ys \<Longrightarrow> strcmp m s1 s2 = Some (first_difference xs ys)"
proof (induction xs arbitrary: s1 s2 ys)
  case Nil
  then show ?case by (subst strcmp.simps) simp
next
  case (Cons x xs)
  then show ?case by (subst strcmp.simps) (cases ys; auto simp: char_order_def)
qed

lemma strncmp_loop_first_difference:
  "cstring m s1 xs \<Longrightarrow> cstring m s2 ys \<Longrightarrow>
     strncmp_loop m s1 s2 n = first_difference (take n xs) (take n ys)"
proof (induction n arbitrary: s1 s2 xs ys)
  case (Suc n)
  show ?case
  proof (cases "xs = [] \<or> ys = []")
    case True
    then show ?thesis using Suc.prems by (cases xs; cases ys) auto
  next
    case False
    then obtain x xs' y ys' where "xs = x # xs'" "ys = y # ys'" by (metis neq_Nil_conv)
    with Suc show ?thesis by (auto simp: char_order_def)
  qed
qed simp

lemma first_difference_eq_0:
  "first_difference xs ys = 0 \<longleftrightarrow> prefix xs ys \<or> prefix ys xs"
  by (induction xs ys rule: first_difference.induct) (auto simp: char_order_def)

text \<open>A \<open>char\<close> compared with an \<open>unsigned char\<close>: equal only below 128.\<close>

lemma sint_eq_uint_u8: "sint x = uint (c::u8) \<longleftrightarrow> x = c \<and> uint c < 128"
proof -
  have range: "0 \<le> uint x" "uint x < 256" "0 \<le> uint c"
    using unsigned_less [of x, where 'a = int] by simp_all
  have sint: "sint x = (uint x + 128) mod 256 - 128"
    by (simp add: sint_uint signed_take_bit_eq_take_bit_shift take_bit_eq_mod)
  show ?thesis
  proof (cases "uint x < 128")
    case True
    then have "sint x = uint x" using range sint by simp
    then show ?thesis using True by (auto simp: word_uint_eq_iff)
  next
    case False
    then have "sint x = uint x - 256" using range sint by (simp add: mod_pos_geq)
    then have "sint x \<noteq> uint c" using range by linarith
    then show ?thesis using False by auto
  qed
qed

lemma strchr_loop_find:
  "cstring m s xs \<Longrightarrow> strchr_loop m s c =
     Some (case find (\<lambda>i. xs ! i = c \<and> uint c < 128) [0..<length xs] of
             None \<Rightarrow> NULL | Some i \<Rightarrow> s + of_nat i)"
proof (induction xs arbitrary: s)
  case Nil
  then show ?case by (subst strchr_loop.simps) simp
next
  case (Cons x xs)
  then show ?case
    unfolding list.size(4) add_Suc_right add_0_right find_upt_Suc
    by (subst strchr_loop.simps)
      (auto simp: sint_eq_uint_u8 add.assoc split: option.splits)
qed

lemma strrchr_loop_find:
  "cstring m s xs \<Longrightarrow> strrchr_loop m s c ret =
     Some (case find (\<lambda>i. xs ! i = c \<and> uint c < 128) (rev [0..<length xs]) of
             None \<Rightarrow> ret | Some i \<Rightarrow> s + of_nat i)"
proof (induction xs arbitrary: s ret)
  case Nil
  then show ?case by (subst strrchr_loop.simps) simp
next
  case (Cons x xs)
  have upt: "[0..<Suc n] = 0 # map Suc [0..<n]" for n
    by (simp add: upt_conv_Cons map_Suc_upt del: upt_Suc)
  have find_app: "find P (ys @ [y]) = (case find P ys of None \<Rightarrow> if P y then Some y else None | r \<Rightarrow> r)"
    for P and y :: nat and ys by (induction ys) auto
  have find_map: "find P (map Suc ys) = map_option Suc (find (\<lambda>i. P (Suc i)) ys)" for P ys
    by (induction ys) auto
  from Cons show ?case
    unfolding list.size(4) add_Suc_right add_0_right upt rev.simps(2) find_app rev_map find_map
    by (subst strrchr_loop.simps)
      (auto simp: sint_eq_uint_u8 add.assoc split: option.splits)
qed

lemma strncpy_loop_memcpy:
  assumes "cstring m src xs"
    and "\<And>i j. i < j \<Longrightarrow> j \<le> length xs \<Longrightarrow> dest + of_nat i \<noteq> src + of_nat j"
  shows "strncpy_loop m dest src n = memcpy_loop m dest src (min n (Suc (length xs)))"
  using assms
proof (induction n arbitrary: m dest src xs)
  case (Suc n)
  show ?case
  proof (cases xs)
    case Nil
    then show ?thesis using Suc.prems by (simp add: Let_def)
  next
    case (Cons y ys)
    let ?m = "m(dest := m src)"
    have later: "dest + 1 + of_nat i \<noteq> src + 1 + of_nat j" if "i < j" "j \<le> length ys" for i j
      using Suc.prems(2) [of "Suc i" "Suc j"] that Cons by (simp add: add.assoc)
    have fresh: "\<not> in_range (src + 1) (Suc (length ys)) dest"
    proof
      assume "in_range (src + 1) (Suc (length ys)) dest"
      then obtain i where "i < Suc (length ys)" "dest = src + 1 + of_nat i" by (rule in_rangeE)
      then show False using Suc.prems(2) [of 0 "Suc i"] Cons by (simp add: add.assoc)
    qed
    have "cstring ?m (src + 1) ys"
    proof (rule cstring_cong)
      show "cstring m (src + 1) ys" using Suc.prems(1) Cons by simp
      show "?m x = m x" if "in_range (src + 1) (Suc (length ys)) x" for x
        using fresh that by (metis fun_upd_other)
    qed
    then have "strncpy_loop ?m (dest + 1) (src + 1) n =
        memcpy_loop ?m (dest + 1) (src + 1) (min n (Suc (length ys)))"
      using later by (rule Suc.IH)
    then show ?thesis using Suc.prems(1) Cons by (auto simp: Let_def min_def)
  qed
qed simp

lemma bytes_at_cstring:
  "cstring m s xs \<Longrightarrow> n \<le> length xs \<Longrightarrow> bytes_at m s n = take n xs"
  by (auto simp: cstring_nth intro!: nth_equalityI)

lemma memcmp_prefix:
  assumes "cstring m d xs" "cstring m s ys" "length ys \<le> length xs"
  shows "memcmp m d s (of_nat (length ys)) = 0 \<longleftrightarrow> prefix ys xs"
proof -
  have "length ys < 2 ^ 64" using assms(2) by (rule cstring_length)
  then have "memcmp m d s (of_nat (length ys)) = 0 \<longleftrightarrow> take (length ys) xs = ys"
    using assms bytes_at_cstring [OF assms(1)] bytes_at_cstring [OF assms(2)]
    by (simp add: memcmp_eq_0)
  then show ?thesis by (metis append_eq_conv_conj prefix_def take_is_prefix)
qed

lemma of_nat_le_64:
  "a < 2 ^ 64 \<Longrightarrow> b < 2 ^ 64 \<Longrightarrow> (of_nat a :: u64) \<le> of_nat b \<longleftrightarrow> a \<le> b"
  by (simp add: word_le_nat_alt)

lemma strstr_loop_find:
  assumes "cstring m s ys" "ys \<noteq> []"
  shows "cstring m d xs \<Longrightarrow>
    strstr_loop m d s (of_nat (length xs)) (of_nat (length ys)) =
      Some (case find (\<lambda>i. prefix ys (drop i xs)) [0..<Suc (length xs)] of
              None \<Rightarrow> NULL | Some i \<Rightarrow> d + of_nat i)"
proof (induction xs arbitrary: d)
  case Nil
  then show ?case
    using assms cstring_length [OF assms(1)] of_nat_le_64 [of "length ys" 0]
    by (subst strstr_loop.simps) simp
next
  case (Cons x xs)
  note len = cstring_length [OF assms(1)] cstring_length [OF Cons.prems]
  have le: "(of_nat (length ys) :: u64) \<le> of_nat (length (x # xs)) \<longleftrightarrow>
      length ys \<le> length (x # xs)"
    using len by (rule of_nat_le_64)
  show ?case
  proof (cases "length ys \<le> length (x # xs)")
    case True
    have "memcmp m d s (of_nat (length ys)) = 0 \<longleftrightarrow> prefix ys (x # xs)"
      using Cons.prems assms(1) True by (rule memcmp_prefix)
    moreover have "(of_nat (length (x # xs)) - 1 :: u64) = of_nat (length xs)" by simp
    ultimately show ?thesis
      using Cons.IH [of "d + 1"] Cons.prems le True
      by (subst strstr_loop.simps, subst find_upt_Suc)
        (auto simp: add.assoc simp del: upt_Suc split: option.splits)
  next
    case False
    have "\<not> prefix ys (drop i (x # xs))" for i
      using False by (auto dest!: prefix_length_le)
    then have "find (\<lambda>i. prefix ys (drop i (x # xs))) [0..<Suc (length (x # xs))] = None"
      by (simp only: find_None_iff) simp
    then show ?thesis using le False by (subst strstr_loop.simps) simp
  qed
qed

section \<open>Properties of the string library\<close>

text \<open>
  C17: \<open>memmove\<close> copies correctly whatever the overlap: as long as neither range wraps around
  the top of the address space, the destination holds the bytes the source held before the
  call, every other byte is unchanged, and the destination pointer is returned.
\<close>

theorem memmove_correct:
  assumes "unat dest + unat n \<le> 2 ^ 64" and "unat src + unat n \<le> 2 ^ 64"
  shows "bytes_at (fst (memmove m dest src n)) dest (unat n) = bytes_at m src (unat n) \<and>
    (\<forall>x. \<not> in_range dest (unat n) x \<longrightarrow> fst (memmove m dest src n) x = m x) \<and>
    snd (memmove m dest src n) = dest"
proof -
  have "fst (memmove m dest src n) (dest + of_nat i) = m (src + of_nat i)" if "i < unat n" for i
    using that less_unat_64 [OF that] by (simp add: memmove_apply [OF assms])
  then have "bytes_at (fst (memmove m dest src n)) dest (unat n) = bytes_at m src (unat n)"
    by (simp add: bytes_at_def)
  then show ?thesis by (simp add: memmove_apply [OF assms]) (simp add: memmove_def)
qed

theorem memmove_correct_witness:
  "bytes_at (fst (memmove (\<lambda>a. ucast a) 2 0 4)) 2 4 = [0, 1, 2, 3 :: u8]"
proof -
  have "bytes_at (fst (memmove (\<lambda>a. ucast a) 2 0 4)) 2 (unat (4::u64)) =
      bytes_at (\<lambda>a. ucast a) 0 (unat (4::u64))"
    using memmove_correct [of 2 4 0 "\<lambda>a. ucast a"] by simp
  then show ?thesis by (simp add: bytes_at_def upt_rec)
qed

text \<open>
  C22: \<open>strlen\<close> is total on every memory that holds a NUL byte anywhere, and only there: it
  loops for ever exactly when no address holds 0.  When it returns \<open>n\<close>, the \<open>n\<close> bytes at the
  pointer are the C string, and no other \<open>n\<close> is returned.
\<close>

theorem strlen_total:
  "(strlen m s = None \<longleftrightarrow> (\<forall>a. m a \<noteq> 0)) \<and>
   (strlen m s = Some n \<longleftrightarrow> cstring m s (bytes_at m s (unat n)))"
proof -
  have none: "strlen m s = None \<longleftrightarrow> (\<forall>a. m a \<noteq> 0)"
  proof
    assume "strlen m s = None"
    then show "\<forall>a. m a \<noteq> 0" using cstring_exists [of m _ s] by fastforce
  next
    assume "\<forall>a. m a \<noteq> 0"
    then show "strlen m s = None" using strlen_loop_None [of m s 0] by (cases "strlen m s") (auto simp: strlen_def)
  qed
  have "cstring m s (bytes_at m s (unat n))" if ret: "strlen m s = Some n"
  proof -
    obtain a where "m a = 0" using ret none by auto
    then obtain xs where xs: "cstring m s xs" using cstring_exists by blast
    have "n = of_nat (length xs)" using ret xs by simp
    then have "unat n = length xs" using cstring_length [OF xs] by simp
    then show ?thesis using xs bytes_at_cstring [OF xs, of "length xs"] by simp
  qed
  then show ?thesis using none by auto
qed

text \<open>
  \<open>strcpy\<close> round trip: copying a string to a range that does not overlap it terminates,
  returns the destination, puts the same string there (so \<open>strlen\<close> of the two agree) and
  leaves every byte outside the \<open>length + 1\<close> destination bytes alone.
\<close>

theorem strcpy_roundtrip:
  assumes "cstring m src xs"
    and "disjoint_ranges dest (Suc (length xs)) src (Suc (length xs))"
  shows "\<exists>m'. strcpy m dest src = Some (m', dest) \<and> cstring m' dest xs \<and>
    strlen m' dest = strlen m src \<and>
    (\<forall>x. \<not> in_range dest (Suc (length xs)) x \<longrightarrow> m' x = m x)"
proof -
  let ?m = "memcpy_loop m dest src (Suc (length xs))"
  have "strcpy m dest src = Some (?m, dest)"
    by (simp only: strcpy_def strcpy_loop_disjoint [OF assms] option.map)
  moreover have "cstring ?m dest xs" using assms by (rule cstring_memcpy)
  moreover have "?m x = m x" if "\<not> in_range dest (Suc (length xs)) x" for x
    using that cstring_length [OF assms(1)] by (subst memcpy_loop_disjoint [OF assms(2)]) auto
  ultimately show ?thesis
    by (intro exI [of _ ?m]) (simp add: strlen_cstring [OF assms(1)])
qed

theorem strcpy_roundtrip_witness:
  "\<exists>m'. strcpy ((\<lambda>_. 0)(100 := 107, 101 := 110)) 200 100 = Some (m', 200) \<and>
     cstring m' 200 [107, 110 :: u8]"
proof -
  have "disjoint_ranges 200 (Suc (length [107, 110 :: u8])) 100 (Suc (length [107, 110 :: u8]))"
    by (rule disjoint_ranges_above) simp_all
  moreover have "cstring ((\<lambda>_. 0)(100 := 107, 101 := 110)) 100 [107, 110 :: u8]" by simp
  ultimately show ?thesis using strcpy_roundtrip by blast
qed

text \<open>
  C23: \<open>strcmp\<close> terminates on two C strings and returns the order of the first unequal pair of
  (signed) characters; when there is none it returns 0, so it returns 0 exactly when one of
  the strings is a prefix of the other, equal strings being a special case.
\<close>

theorem strcmp_zero_iff_prefix:
  assumes "cstring m s1 xs" and "cstring m s2 ys"
  shows "\<exists>r. strcmp m s1 s2 = Some r \<and> r = first_difference xs ys \<and>
    (r = 0 \<longleftrightarrow> prefix xs ys \<or> prefix ys xs)"
  using strcmp_first_difference [OF assms] by (simp add: first_difference_eq_0)

theorem strcmp_zero_iff_prefix_witness:
  "strcmp ((\<lambda>_. 0)(10 := 97, 20 := 97, 21 := 98)) 10 20 = Some 0 \<and>
   strcmp ((\<lambda>_. 0)(10 := 97, 20 := 98)) 10 20 = Some (- 1)"
  using strcmp_zero_iff_prefix [of "(\<lambda>_. 0)(10 := 97, 20 := 97, 21 := 98)" 10 "[97]" 20 "[97, 98]"]
    strcmp_zero_iff_prefix [of "(\<lambda>_. 0)(10 := 97, 20 := 98)" 10 "[97]" 20 "[98]"]
  by (simp add: char_order_def)

text \<open>
  C24: \<open>strcat\<close> does not concatenate: its first loop stops one byte past the NUL of the
  destination, so the source is copied behind that NUL.  Read as a C string the destination is
  unchanged, and the source string stands at \<open>dest + strlen(dest) + 1\<close>.
\<close>

theorem strcat_writes_behind_nul:
  assumes xs: "cstring m dest xs" and ys: "cstring m src ys"
    and room: "length xs + length ys + 2 \<le> 2 ^ 64"
    and disj: "disjoint_ranges (dest + of_nat (Suc (length xs))) (Suc (length ys)) src (Suc (length ys))"
  shows "\<exists>m'. strcat m dest src = Some (m', dest) \<and> cstring m' dest xs \<and>
    cstring m' (dest + of_nat (Suc (length xs))) ys"
proof -
  let ?d = "dest + of_nat (Suc (length xs))"
  let ?m = "memcpy_loop m ?d src (Suc (length ys))"
  have "strcat m dest src = Some (?m, dest)"
    by (simp only: strcat_def skip_past_nul_cstring [OF xs] option.case
        strcpy_loop_disjoint [OF ys disj] option.map)
  moreover have "cstring ?m ?d ys" using ys disj by (rule cstring_memcpy)
  moreover have "cstring ?m dest xs"
  proof (rule cstring_cong [OF xs])
    fix x assume "in_range dest (Suc (length xs)) x"
    moreover have "disjoint_ranges dest (Suc (length xs)) ?d (Suc (length ys))"
      using room by (intro disjoint_ranges_offset) auto
    ultimately have "\<not> in_range ?d (Suc (length ys)) x" by (simp add: disjoint_rangesD)
    then show "?m x = m x" using cstring_length [OF ys]
      by (subst memcpy_loop_disjoint [OF disj]) auto
  qed
  ultimately show ?thesis by blast
qed

theorem strcat_writes_behind_nul_witness:
  "\<exists>m'. strcat ((\<lambda>_. 0)(10 := 97, 20 := 98)) 10 20 = Some (m', 10) \<and>
     cstring m' 10 [97] \<and> cstring m' 12 [98 :: u8]"
proof -
  have "disjoint_ranges (10 + of_nat (Suc (length [97 :: u8]))) (Suc (length [98 :: u8]))
      20 (Suc (length [98 :: u8]))"
    by (rule disjoint_ranges_below) simp_all
  then show ?thesis
    using strcat_writes_behind_nul
      [of "(\<lambda>_. 0)(10 := 97, 20 := 98)" 10 "[97 :: u8]" 20 "[98 :: u8]"]
    by simp
qed

text \<open>
  C21: \<open>strstr\<close> returns the first occurrence: on two C strings it terminates with a pointer to
  the least offset at which the substring is a prefix of the rest of the text, and with NULL
  when there is no such offset; the empty substring is found at offset 0.
\<close>

theorem strstr_first_occurrence:
  assumes "cstring m d xs" and "cstring m s ys"
  shows "strstr m d s =
    Some (case find (\<lambda>i. prefix ys (drop i xs)) [0..<Suc (length xs)] of
            None \<Rightarrow> NULL | Some i \<Rightarrow> d + of_nat i)"
proof (cases "ys = []")
  case True
  then show ?thesis
    using strlen_cstring [OF assms(2)] unfolding find_upt_Suc by (simp add: strstr_def)
next
  case False
  have "(of_nat (length ys) :: u64) \<noteq> 0"
    using False cstring_length [OF assms(2)] by (metis length_0_conv unat_0 unat_of_nat_64)
  then show ?thesis
    using assms strstr_loop_find [OF assms(2) False assms(1)] by (simp add: strstr_def)
qed

theorem strstr_first_occurrence_witness:
  "strstr ((\<lambda>_. 0)(10 := 97, 11 := 98, 12 := 99, 20 := 98, 21 := 99)) 10 20 = Some 11"
  using strstr_first_occurrence
    [of "(\<lambda>_. 0)(10 := 97, 11 := 98, 12 := 99, 20 := 98, 21 := 99)" 10 "[97, 98, 99]" 20 "[98, 99]"]
  by (simp add: upt_rec)

end
