(* ===== verification/Vga_Terminal.thy ===== *)
theory Vga_Terminal
  imports C_String
begin

text \<open>
  The text-mode terminal, \<^verbatim>\<open>src/arch/x86_64/vga_print.c\<close>: the cursor, the current colour and
  the buffer of 16-bit cells at 0xB8000, as the record \<open>vga\<close>; every function of the file is
  an operation on it.  The buffer is a function from the \<open>size_t\<close> index of a cell, so an index
  outside the 80 by 25 screen is visible in the model: the last section shows none is ever
  written from a well-formed cursor, and that the code implements a terminal of 25 rows of 80
  cells.
\<close>

section \<open>State and operations\<close>

datatype vga_colour =
    VGA_COLOR_BLACK | VGA_COLOR_BLUE | VGA_COLOR_GREEN | VGA_COLOR_CYAN
  | VGA_COLOR_RED | VGA_COLOR_MAGENTA | VGA_COLOR_BROWN | VGA_COLOR_LIGHT_GREY
  | VGA_COLOR_DARK_GREY | VGA_COLOR_LIGHT_BLUE | VGA_COLOR_LIGHT_GREEN | VGA_COLOR_LIGHT_CYAN
  | VGA_COLOR_LIGHT_RED | VGA_COLOR_LIGHT_MAGENTA | VGA_COLOR_LIGHT_BROWN | VGA_COLOR_WHITE

fun colour_code :: "vga_colour \<Rightarrow> u32" where
  "colour_code VGA_COLOR_BLACK = 0"
| "colour_code VGA_COLOR_BLUE = 1"
| "colour_code VGA_COLOR_GREEN = 2"
| "colour_code VGA_COLOR_CYAN = 3"
| "colour_code VGA_COLOR_RED = 4"
| "colour_code VGA_COLOR_MAGENTA = 5"
| "colour_code VGA_COLOR_BROWN = 6"
| "colour_code VGA_COLOR_LIGHT_GREY = 7"
| "colour_code VGA_COLOR_DARK_GREY = 8"
| "colour_code VGA_COLOR_LIGHT_BLUE = 9"
| "colour_code VGA_COLOR_LIGHT_GREEN = 10"
| "colour_code VGA_COLOR_LIGHT_CYAN = 11"
| "colour_code VGA_COLOR_LIGHT_RED = 12"
| "colour_code VGA_COLOR_LIGHT_MAGENTA = 13"
| "colour_code VGA_COLOR_LIGHT_BROWN = 14"
| "colour_code VGA_COLOR_WHITE = 15"

abbreviation VGA_WIDTH :: u64 where "VGA_WIDTH \<equiv> 80"
abbreviation VGA_HEIGHT :: u64 where "VGA_HEIGHT \<equiv> 25"

record vga =
  vga_row :: u64
  vga_column :: u64
  vga_color :: u8
  vga_buffer :: "u64 \<Rightarrow> u16"

definition entry_color :: "vga_colour \<Rightarrow> vga_colour \<Rightarrow> u8" where
  "entry_color fg bg = ucast (colour_code fg OR push_bit 4 (colour_code bg))"

text \<open>\<open>(u16) uc\<close> sign-extends, since \<open>char\<close> is signed.\<close>

definition vga_entry :: "u8 \<Rightarrow> u8 \<Rightarrow> u16" where
  "vga_entry uc color = scast uc OR push_bit 8 (ucast color)"

definition vga_set_color :: "u8 \<Rightarrow> 'a vga_scheme \<Rightarrow> 'a vga_scheme" where
  "vga_set_color color s = s\<lparr>vga_color := color\<rparr>"

definition vga_set_pos :: "u8 \<Rightarrow> u8 \<Rightarrow> 'a vga_scheme \<Rightarrow> 'a vga_scheme" where
  "vga_set_pos x y s = s\<lparr>vga_column := ucast x, vga_row := ucast y\<rparr>"

definition vga_putentryat :: "u8 \<Rightarrow> u8 \<Rightarrow> u64 \<Rightarrow> u64 \<Rightarrow> 'a vga_scheme \<Rightarrow> 'a vga_scheme" where
  "vga_putentryat c color x y s =
     s\<lparr>vga_buffer := (vga_buffer s)(y * VGA_WIDTH + x := vga_entry c color)\<rparr>"

definition vga_terminal_initialize :: "'a vga_scheme \<Rightarrow> 'a vga_scheme" where
  "vga_terminal_initialize s =
     (let s = s\<lparr>vga_row := 0, vga_column := 0,
                vga_color := entry_color VGA_COLOR_LIGHT_GREY VGA_COLOR_BLACK\<rparr>
      in fold (\<lambda>y. fold (\<lambda>x. vga_putentryat 32 (vga_color s) (of_nat x) (of_nat y)) [0..<80])
           [0..<25] s)"

text \<open>The body of the inner loop of \<open>scroll\<close>, then the row loop.\<close>

definition scroll_cell :: "u64 \<Rightarrow> u64 \<Rightarrow> u64 \<Rightarrow> 'a vga_scheme \<Rightarrow> 'a vga_scheme" where
  "scroll_cell by_rows y x s =
     (let src = y * VGA_WIDTH + x;
          dest = (y - by_rows) * VGA_WIDTH + x;
          s = s\<lparr>vga_buffer := (vga_buffer s)(dest := vga_buffer s src)\<rparr>
      in vga_putentryat 32 (vga_color s) x y s)"

function scroll_rows :: "u64 \<Rightarrow> u64 \<Rightarrow> 'a vga_scheme \<Rightarrow> 'a vga_scheme" where
  "scroll_rows by_rows y s =
     (if y \<noteq> VGA_HEIGHT
      then scroll_rows by_rows (y + 1) (fold (\<lambda>x. scroll_cell by_rows y (of_nat x)) [0..<80] s)
      else s)"
  by pat_completeness auto
termination
proof (relation "measure (\<lambda>(by_rows, y, s). unat (VGA_HEIGHT - y))")
  fix by_rows y :: u64 and s :: "'a vga_scheme"
  assume "y \<noteq> VGA_HEIGHT"
  then have "VGA_HEIGHT - y \<noteq> 0" by simp
  then have "unat (VGA_HEIGHT - y - 1) < unat (VGA_HEIGHT - y)"
    by (metis diff_less unat_gt_0 unat_minus_one zero_less_one)
  then show "((by_rows, y + 1, fold (\<lambda>x. scroll_cell by_rows y (of_nat x)) [0..<80] s),
      (by_rows, y, s)) \<in> measure (\<lambda>(by_rows, y, s). unat (VGA_HEIGHT - y))"
    by (simp add: diff_diff_eq)
qed simp

declare scroll_rows.simps [simp del]

definition scroll :: "u8 \<Rightarrow> 'a vga_scheme \<Rightarrow> 'a vga_scheme" where
  "scroll by_rows s = scroll_rows (ucast by_rows) (ucast by_rows) s"

definition vga_putchar :: "u8 \<Rightarrow> 'a vga_scheme \<Rightarrow> 'a vga_scheme" where
  "vga_putchar c s =
     (let s = (if c = 10 then s\<lparr>vga_column := 0, vga_row := vga_row s + 1\<rparr>
               else (let s = vga_putentryat c (vga_color s) (vga_column s) (vga_row s) s;
                         s = s\<lparr>vga_column := vga_column s + 1\<rparr>
                     in if vga_column s = VGA_WIDTH
                        then s\<lparr>vga_column := 0, vga_row := vga_row s + 1\<rparr>
                        else s))
      in if vga_row s = VGA_HEIGHT
         then (let s = scroll 1 s in s\<lparr>vga_row := vga_row s - 1\<rparr>)
         else s)"

fun vga_write_loop :: "mem \<Rightarrow> u64 \<Rightarrow> nat \<Rightarrow> 'a vga_scheme \<Rightarrow> 'a vga_scheme" where
  "vga_write_loop m p 0 s = s"
| "vga_write_loop m p (Suc n) s = vga_write_loop m (p + 1) n (vga_putchar (m p) s)"

definition vga_write :: "mem \<Rightarrow> u64 \<Rightarrow> u64 \<Rightarrow> 'a vga_scheme \<Rightarrow> 'a vga_scheme" where
  "vga_write m p n s = vga_write_loop m p (unat n) s"

definition vga_print :: "mem \<Rightarrow> u64 \<Rightarrow> 'a vga_scheme \<Rightarrow> 'a vga_scheme result" where
  "vga_print m p s = rbind (of_loop (strlen m p)) (\<lambda>n. Inr (vga_write m p n s))"

section \<open>The cursor invariant\<close>

definition vga_inv :: "'a vga_scheme \<Rightarrow> bool" where
  "vga_inv s \<longleftrightarrow> vga_row s < VGA_HEIGHT \<and> vga_column s < VGA_WIDTH"

lemma vga_putentryat_frame [simp]:
  "vga_row (vga_putentryat c k x y s) = vga_row s"
  "vga_column (vga_putentryat c k x y s) = vga_column s"
  "vga_color (vga_putentryat c k x y s) = vga_color s"
  "vga.more (vga_putentryat c k x y s) = vga.more s"
  by (simp_all add: vga_putentryat_def)

lemma scroll_cell_frame [simp]:
  "vga_row (scroll_cell b y x s) = vga_row s"
  "vga_column (scroll_cell b y x s) = vga_column s"
  "vga_color (scroll_cell b y x s) = vga_color s"
  "vga.more (scroll_cell b y x s) = vga.more s"
  by (simp_all add: scroll_cell_def Let_def)

lemma fold_frame:
  assumes "\<And>x s. f (g x s) = f s" shows "f (fold g xs s) = f s"
  using assms by (induction xs arbitrary: s) simp_all

lemma scroll_rows_frame [simp]:
  "vga_row (scroll_rows b y s) = vga_row s"
  "vga_column (scroll_rows b y s) = vga_column s"
  "vga_color (scroll_rows b y s) = vga_color s"
  "vga.more (scroll_rows b y s) = vga.more s"
proof (induction b y s rule: scroll_rows.induct)
  case (1 b y s)
  have row: "f (fold (\<lambda>x. scroll_cell b y (of_nat x)) [0..<80] s) = f s"
    if "\<And>x s. f (scroll_cell b y x s) = f s" for f :: "'a vga_scheme \<Rightarrow> 'c"
    by (rule fold_frame) (rule that)
  {
    case 1
    then show ?case using "1.IH"(1) row [of vga_row] by (subst scroll_rows.simps) simp
  next
    case 2
    then show ?case using "1.IH"(2) row [of vga_column] by (subst scroll_rows.simps) simp
  next
    case 3
    then show ?case using "1.IH"(3) row [of vga_color] by (subst scroll_rows.simps) simp
  next
    case 4
    then show ?case using "1.IH"(4) row [of vga.more] by (subst scroll_rows.simps) simp
  }
qed

lemma scroll_frame [simp]:
  "vga_row (scroll b s) = vga_row s"
  "vga_column (scroll b s) = vga_column s"
  "vga_color (scroll b s) = vga_color s"
  "vga.more (scroll b s) = vga.more s"
  by (simp_all add: scroll_def)

lemma vga_putchar_color [simp]: "vga_color (vga_putchar c s) = vga_color s"
  by (simp add: vga_putchar_def Let_def)

lemma vga_putchar_more [simp]: "vga.more (vga_putchar c s) = vga.more s"
  by (simp add: vga_putchar_def Let_def)

section \<open>What scrolling by one row does to the buffer\<close>

abbreviation blank :: "'a vga_scheme \<Rightarrow> u16" where
  "blank s \<equiv> vga_entry 32 (vga_color s)"

lemma cell_index:
  "Y < 25 \<Longrightarrow> X < 80 \<Longrightarrow> (of_nat Y :: u64) * 80 + of_nat X = of_nat (Y * 80 + X)"
  by simp

lemma scroll_cell_buffer:
  assumes "1 \<le> Y" "Y < 25" "X < 80"
  shows "vga_buffer (scroll_cell 1 (of_nat Y) (of_nat X) s) i =
    (if unat i = Y * 80 + X then blank s
     else if unat i = (Y - 1) * 80 + X then vga_buffer s (of_nat (Y * 80 + X))
     else vga_buffer s i)"
proof -
  have "(of_nat Y - 1 :: u64) = of_nat (Y - 1)" using assms(1) by simp
  then have dest: "((of_nat Y - 1) * 80 + of_nat X :: u64) = of_nat ((Y - 1) * 80 + X)"
    using cell_index [of "Y - 1" X] assms by simp
  have src: "(of_nat Y * 80 + of_nat X :: u64) = of_nat (Y * 80 + X)" by simp
  show ?thesis
    unfolding scroll_cell_def Let_def vga_putentryat_def dest src
    using assms by (auto simp: eq_of_nat_64 simp del: of_nat_add of_nat_mult)
qed

lemma scroll_row_buffer:
  assumes "1 \<le> Y" "Y < 25" "k \<le> 80"
  shows "vga_buffer (fold (\<lambda>x. scroll_cell 1 (of_nat Y) (of_nat x)) [0..<k] s) i =
    (if Y * 80 \<le> unat i \<and> unat i < Y * 80 + k then blank s
     else if (Y - 1) * 80 \<le> unat i \<and> unat i < (Y - 1) * 80 + k then vga_buffer s (i + 80)
     else vga_buffer s i)"
  using assms(3)
proof (induction k arbitrary: i)
  case (Suc k)
  let ?s = "fold (\<lambda>x. scroll_cell 1 (of_nat Y) (of_nat x)) [0..<k] s"
  have k: "k < 80" using Suc.prems by simp
  have blank_eq: "blank ?s = blank s" by (simp add: fold_frame [of vga_color])
  have src: "vga_buffer ?s (of_nat (Y * 80 + k)) = vga_buffer s (of_nat (Y * 80 + k))"
    using assms k by (auto simp: Suc.IH simp del: of_nat_add of_nat_mult)
  have shift: "i + 80 = of_nat (Y * 80 + k)" if "unat i = (Y - 1) * 80 + k"
  proof -
    have "unat i + 80 = Y * 80 + k" using that assms(1) by (cases Y) simp_all
    then have "of_nat (unat i + 80) = (of_nat (Y * 80 + k) :: u64)" by simp
    then show ?thesis by simp
  qed
  show ?case
    using scroll_cell_buffer [OF assms(1,2) k, of ?s i] Suc.IH [of i] Suc.prems assms(1,2) src shift
    by (auto simp: blank_eq less_Suc_eq)
qed auto

lemma scroll_rows_buffer:
  assumes "1 \<le> Y" "Y \<le> 24"
  shows "vga_buffer (scroll_rows 1 (of_nat Y) s) i =
    (if unat i < (Y - 1) * 80 then vga_buffer s i
     else if unat i < 1920 then vga_buffer s (i + 80)
     else if unat i < 2000 then blank s
     else vga_buffer s i)"
  using assms
proof (induction "24 - Y" arbitrary: Y s i)
  case 0
  then have Y: "Y = 24" by simp
  let ?s = "fold (\<lambda>x. scroll_cell 1 24 (of_nat x)) [0..<80] s"
  have "scroll_rows 1 24 s = ?s"
    by (subst scroll_rows.simps, subst scroll_rows.simps) simp
  then show ?case using scroll_row_buffer [of 24 80 s i] Y by auto
next
  case (Suc d)
  let ?s = "fold (\<lambda>x. scroll_cell 1 (of_nat Y) (of_nat x)) [0..<80] s"
  have Y: "Y < 24" "1 \<le> Y" using Suc by simp_all
  have "(of_nat Y :: u64) \<noteq> of_nat 25" using Y eq_of_nat_64 [of 25 "of_nat Y"] by simp
  then have "scroll_rows 1 (of_nat Y) s = scroll_rows 1 (of_nat (Suc Y)) ?s"
    by (subst scroll_rows.simps) (simp add: add.commute)
  moreover have "vga_buffer (scroll_rows 1 (of_nat (Suc Y)) ?s) i =
    (if unat i < (Suc Y - 1) * 80 then vga_buffer ?s i
     else if unat i < 1920 then vga_buffer ?s (i + 80)
     else if unat i < 2000 then blank ?s
     else vga_buffer ?s i)"
    using Suc(2) Y by (intro Suc(1)) auto
  moreover have "blank ?s = blank s" by (simp add: fold_frame [of vga_color])
  moreover have "unat (i + 80) = unat i + 80" if "unat i < 1920"
    using that by (subst unat_add_lem [THEN iffD1]) simp_all
  ultimately show ?case
    using scroll_row_buffer [of Y 80 s i] scroll_row_buffer [of Y 80 s "i + 80"] Y by auto
qed

lemma scroll_1_buffer:
  "vga_buffer (scroll 1 s) i =
    (if unat i < 1920 then vga_buffer s (i + 80)
     else if unat i < 2000 then blank s
     else vga_buffer s i)"
  using scroll_rows_buffer [of 1 s i] by (simp add: scroll_def)

section \<open>The abstract terminal\<close>

text \<open>
  A terminal is 25 rows of 80 cells, a cursor and the current attribute.  Putting a character
  advances the cursor, a newline moves it to the next row, and when the cursor leaves the last
  row the top row is dropped and a blank row is added at the bottom.
\<close>

record tty =
  cells :: "u16 list list"
  crow :: nat
  ccol :: nat
  attr :: u8

definition tty_advance_row :: "tty \<Rightarrow> tty" where
  "tty_advance_row t =
     (if Suc (crow t) = 25
      then t\<lparr>cells := tl (cells t) @ [replicate 80 (vga_entry 32 (attr t))], ccol := 0\<rparr>
      else t\<lparr>crow := Suc (crow t), ccol := 0\<rparr>)"

definition tty_put :: "u8 \<Rightarrow> tty \<Rightarrow> tty" where
  "tty_put c t =
     (if c = 10 then tty_advance_row t
      else let t = t\<lparr>cells := (cells t)[crow t := (cells t ! crow t)[ccol t := vga_entry c (attr t)]]\<rparr>
           in if Suc (ccol t) = 80 then tty_advance_row t
              else t\<lparr>ccol := Suc (ccol t)\<rparr>)"

definition screen :: "(u64 \<Rightarrow> u16) \<Rightarrow> u16 list list" where
  "screen b = map (\<lambda>y. map (\<lambda>x. b (of_nat (y * 80 + x))) [0..<80]) [0..<25]"

definition vga_abs :: "'a vga_scheme \<Rightarrow> tty" where
  "vga_abs s = \<lparr>cells = screen (vga_buffer s), crow = unat (vga_row s),
                ccol = unat (vga_column s), attr = vga_color s\<rparr>"

lemma screen_cong:
  "(\<And>i. unat i < 2000 \<Longrightarrow> b i = b' i) \<Longrightarrow> screen b = screen b'"
  by (auto simp: screen_def simp del: of_nat_add of_nat_mult)

lemma screen_shift:
  assumes "\<And>i. unat i < 2000 \<Longrightarrow> b' i = (if unat i < 1920 then b (i + 80) else e)"
  shows "screen b' = tl (screen b) @ [replicate 80 e]"
proof (rule nth_equalityI)
  fix y assume "y < length (screen b')"
  then have y: "y < 25" by (simp add: screen_def)
  have row: "screen b' ! y = map (\<lambda>x. b' (of_nat (y * 80 + x))) [0..<80]"
    using y by (simp add: screen_def)
  show "screen b' ! y = (tl (screen b) @ [replicate 80 e]) ! y"
  proof (cases "y < 24")
    case True
    have "b' (of_nat (y * 80 + x)) = b (of_nat (Suc y * 80 + x))" if "x < 80" for x
    proof -
      have "(of_nat (Suc y * 80 + x) :: u64) = of_nat (y * 80 + x) + 80" by simp
      then show ?thesis using that True assms [of "of_nat (y * 80 + x)"] by (simp del: of_nat_add of_nat_mult)
    qed
    then show ?thesis using True y unfolding row
      by (simp add: screen_def nth_append nth_tl del: of_nat_add of_nat_mult of_nat_Suc mult_Suc upt_Suc)
  next
    case False
    then have "y = 24" using y by simp
    moreover have "b' (of_nat (1920 + x)) = e" if "x < 80" for x
      using that assms [of "of_nat (1920 + x)"] by (simp del: of_nat_add)
    ultimately show ?thesis unfolding row
      by (simp add: screen_def nth_append del: of_nat_add of_nat_mult)
        (auto intro!: nth_equalityI simp del: of_nat_add)
  qed
qed (simp add: screen_def)

lemma screen_upd:
  assumes "Y < 25" "X < 80"
  shows "screen (b(of_nat (Y * 80 + X) := e)) = (screen b)[Y := (screen b ! Y)[X := e]]"
proof (rule nth_equalityI)
  fix y assume "y < length (screen (b(of_nat (Y * 80 + X) := e)))"
  then have y: "y < 25" by (simp add: screen_def)
  have "(of_nat (y * 80 + x) :: u64) = of_nat (Y * 80 + X) \<longleftrightarrow> y = Y \<and> x = X" if "x < 80" for x
  proof -
    have "(y * 80 + x) div 80 = y" "(y * 80 + x) mod 80 = x"
      "(Y * 80 + X) div 80 = Y" "(Y * 80 + X) mod 80 = X" using that assms by simp_all
    then have "y * 80 + x = Y * 80 + X \<longleftrightarrow> y = Y \<and> x = X" by metis
    moreover have "y * 80 + x < 2 ^ 64" "Y * 80 + X < 2 ^ 64" using that y assms by simp_all
    ultimately show ?thesis by (simp add: eq_of_nat_64 del: of_nat_add of_nat_mult)
  qed
  then show "screen (b(of_nat (Y * 80 + X) := e)) ! y = (screen b)[Y := (screen b ! Y)[X := e]] ! y"
    using y assms
    by (intro nth_equalityI) (auto simp: screen_def nth_list_update simp del: of_nat_add of_nat_mult)
qed (simp add: screen_def)

lemma vga_inv_bounds:
  "vga_inv s \<longleftrightarrow> unat (vga_row s) < 25 \<and> unat (vga_column s) < 80"
  by (simp add: vga_inv_def word_less_nat_alt)

lemma putentry_screen:
  assumes "vga_inv s"
  shows "screen (vga_buffer (vga_putentryat c k (vga_column s) (vga_row s) s)) =
    (screen (vga_buffer s))[unat (vga_row s) :=
       (screen (vga_buffer s) ! unat (vga_row s))[unat (vga_column s) := vga_entry c k]]"
proof -
  have "vga_row s * 80 + vga_column s = of_nat (unat (vga_row s) * 80 + unat (vga_column s))"
    by simp
  then show ?thesis
    using assms screen_upd [of "unat (vga_row s)" "unat (vga_column s)" "vga_buffer s"]
    by (simp add: vga_putentryat_def vga_inv_bounds del: of_nat_add of_nat_mult)
qed

text \<open>The tail of \<open>vga_putchar\<close>, shared by the newline and the wrapped-line branch.\<close>

lemma scroll_if_refines:
  fixes s :: "'a vga_scheme"
  defines "t \<equiv> s\<lparr>vga_column := 0, vga_row := vga_row s + 1\<rparr>"
  assumes "unat (vga_row s) < 25"
  shows "vga_abs (if vga_row t = VGA_HEIGHT then (scroll 1 t)\<lparr>vga_row := vga_row t - 1\<rparr> else t) =
      tty_advance_row (vga_abs s)" (is "vga_abs ?r = _")
    and "vga_inv (if vga_row t = VGA_HEIGHT then (scroll 1 t)\<lparr>vga_row := vga_row t - 1\<rparr> else t)"
    and "2000 \<le> unat i \<Longrightarrow>
      vga_buffer (if vga_row t = VGA_HEIGHT then (scroll 1 t)\<lparr>vga_row := vga_row t - 1\<rparr> else t) i =
      vga_buffer s i"
proof -
  have next_row: "unat (vga_row s + 1) = Suc (unat (vga_row s))"
    using assms(2) by (subst unat_add_lem [THEN iffD1]) simp_all
  then have full: "vga_row s + 1 = 25 \<longleftrightarrow> Suc (unat (vga_row s)) = 25"
    using eq_of_nat_64 [of 25 "vga_row s + 1"] by simp
  have "screen (vga_buffer (scroll 1 t)) =
      tl (screen (vga_buffer s)) @ [replicate 80 (vga_entry 32 (vga_color s))]"
    by (rule screen_shift) (simp add: scroll_1_buffer t_def)
  then show "vga_abs ?r = tty_advance_row (vga_abs s)"
    using full next_row by (auto simp: t_def vga_abs_def tty_advance_row_def)
  show "vga_inv ?r" using full next_row assms(2) by (auto simp: t_def vga_inv_bounds)
  show "vga_buffer ?r i = vga_buffer s i" if "2000 \<le> unat i"
    using that by (simp add: scroll_1_buffer t_def)
qed

lemma vga_putchar_newline:
  "vga_putchar 10 s =
     (let t = s\<lparr>vga_column := 0, vga_row := vga_row s + 1\<rparr>
      in if vga_row t = VGA_HEIGHT then (scroll 1 t)\<lparr>vga_row := vga_row t - 1\<rparr> else t)"
  by (simp add: vga_putchar_def Let_def)

lemma vga_putchar_plain:
  assumes "c \<noteq> 10" "vga_inv s"
  shows "vga_putchar c s =
     (let u = vga_putentryat c (vga_color s) (vga_column s) (vga_row s) s
      in if Suc (unat (vga_column s)) = 80
         then (let t = u\<lparr>vga_column := 0, vga_row := vga_row u + 1\<rparr>
               in if vga_row t = VGA_HEIGHT then (scroll 1 t)\<lparr>vga_row := vga_row t - 1\<rparr> else t)
         else u\<lparr>vga_column := vga_column u + 1\<rparr>)"
proof -
  have "unat (vga_column s + 1) = Suc (unat (vga_column s))"
    using assms(2) by (subst unat_add_lem [THEN iffD1]) (simp_all add: vga_inv_bounds)
  then have "vga_column s + 1 = 80 \<longleftrightarrow> Suc (unat (vga_column s)) = 80"
    using eq_of_nat_64 [of 80 "vga_column s + 1"] by simp
  moreover have "vga_row s \<noteq> 25" using assms(2) by (auto simp: vga_inv_def)
  ultimately show ?thesis using assms(1) by (auto simp: vga_putchar_def Let_def)
qed

lemma vga_putchar_step:
  assumes "vga_inv s"
  shows "vga_abs (vga_putchar c s) = tty_put c (vga_abs s)"
    and "vga_inv (vga_putchar c s)"
    and "2000 \<le> unat i \<Longrightarrow> vga_buffer (vga_putchar c s) i = vga_buffer s i"
proof -
  have row: "unat (vga_row s) < 25" and col: "unat (vga_column s) < 80"
    using assms by (simp_all add: vga_inv_bounds)
  define u where "u = vga_putentryat c (vga_color s) (vga_column s) (vga_row s) s"
  have u_row: "unat (vga_row u) < 25" using row by (simp add: u_def)
  have u_abs: "vga_abs u = (vga_abs s)\<lparr>cells := (cells (vga_abs s))[crow (vga_abs s) :=
      (cells (vga_abs s) ! crow (vga_abs s))[ccol (vga_abs s) := vga_entry c (attr (vga_abs s))]]\<rparr>"
    using putentry_screen [OF assms] by (simp add: vga_abs_def u_def)
  have u_far: "vga_buffer u i = vga_buffer s i" if "2000 \<le> unat i"
  proof -
    have eq: "vga_row s * 80 + vga_column s = of_nat (unat (vga_row s) * 80 + unat (vga_column s))"
      by simp
    have "unat (vga_row s * 80 + vga_column s) < 2000"
      unfolding eq using row col by (subst unat_of_nat_64) auto
    then show ?thesis using that by (auto simp: u_def vga_putentryat_def)
  qed
  have col1: "unat (vga_column s + 1) = Suc (unat (vga_column s))"
    using col by (subst unat_add_lem [THEN iffD1]) simp_all
  note newline = scroll_if_refines [OF row] and wrapped = scroll_if_refines [OF u_row]
  show "vga_abs (vga_putchar c s) = tty_put c (vga_abs s)"
  proof (cases "c = 10")
    case True
    then show ?thesis using newline(1) by (simp add: vga_putchar_newline Let_def tty_put_def)
  next
    case False
    have "ccol (vga_abs s) = unat (vga_column s)" by (simp add: vga_abs_def)
    moreover have "vga_abs (u\<lparr>vga_column := vga_column u + 1\<rparr>) =
        (vga_abs u)\<lparr>ccol := Suc (ccol (vga_abs u))\<rparr>"
      using col1 by (simp add: vga_abs_def u_def)
    ultimately show ?thesis
      using False wrapped(1) unfolding vga_putchar_plain [OF False assms] tty_put_def Let_def
        u_def [symmetric] u_abs [symmetric] by (simp add: u_abs)
  qed
  show "vga_inv (vga_putchar c s)"
  proof (cases "c = 10")
    case True
    then show ?thesis using newline(2) by (simp add: vga_putchar_newline Let_def)
  next
    case False
    have "vga_inv (u\<lparr>vga_column := vga_column u + 1\<rparr>)" if "Suc (unat (vga_column s)) \<noteq> 80"
      using that col col1 u_row by (simp add: vga_inv_bounds u_def)
    then show ?thesis
      using wrapped(2) unfolding vga_putchar_plain [OF False assms] Let_def u_def [symmetric] by simp
  qed
  show "vga_buffer (vga_putchar c s) i = vga_buffer s i" if far: "2000 \<le> unat i"
  proof (cases "c = 10")
    case True
    then show ?thesis using newline(3) [OF far] by (simp add: vga_putchar_newline Let_def)
  next
    case False
    then show ?thesis
      using wrapped(3) [OF far] u_far [OF far]
      unfolding vga_putchar_plain [OF False assms] Let_def u_def [symmetric] by simp
  qed
qed

section \<open>Character sinks\<close>

text \<open>
  What \<^verbatim>\<open>printk.c\<close> and the string printing functions rely on: a device that takes one
  character at a time, keeps an invariant, and is described by an abstract device.  Whatever is
  sent character by character then has the abstract effect of the whole sequence.
\<close>

locale char_sink =
  fixes put :: "u8 \<Rightarrow> 's \<Rightarrow> 's"
    and inv :: "'s \<Rightarrow> bool"
    and abs :: "'s \<Rightarrow> 't"
    and aput :: "u8 \<Rightarrow> 't \<Rightarrow> 't"
  assumes inv_put: "inv s \<Longrightarrow> inv (put c s)"
    and abs_put: "inv s \<Longrightarrow> abs (put c s) = aput c (abs s)"
begin

lemma inv_fold: "inv s \<Longrightarrow> inv (fold put cs s)"
  by (induction cs arbitrary: s) (simp_all add: inv_put)

lemma abs_fold: "inv s \<Longrightarrow> abs (fold put cs s) = fold aput cs (abs s)"
  by (induction cs arbitrary: s) (simp_all add: inv_put abs_put)

end

interpretation vga_sink: char_sink vga_putchar vga_inv vga_abs tty_put
  by unfold_locales (simp_all add: vga_putchar_step)

lemma vga_write_loop_fold: "vga_write_loop m p n s = fold vga_putchar (bytes_at m p n) s"
proof (induction n arbitrary: p s)
  case (Suc n)
  have "[0..<Suc n] = 0 # map Suc [0..<n]"
    by (simp add: upt_conv_Cons map_Suc_upt del: upt_Suc)
  then have "bytes_at m p (Suc n) = m p # bytes_at m (p + 1) n"
    by (simp add: bytes_at_def add.assoc del: upt_Suc)
  then show ?case by (simp add: Suc.IH)
qed (simp add: bytes_at_def)

lemma vga_print_cstring:
  assumes "cstring m p xs"
  shows "vga_print m p s = Inr (fold vga_putchar xs s)"
  using assms bytes_at_cstring [OF assms] cstring_length [OF assms]
  by (simp add: vga_print_def vga_write_def vga_write_loop_fold)

lemma fold_putchar_more [simp]: "vga.more (fold vga_putchar cs s) = vga.more s"
  by (rule fold_frame) simp

lemma fold_putchar_far:
  "vga_inv s \<Longrightarrow> 2000 \<le> unat i \<Longrightarrow> vga_buffer (fold vga_putchar cs s) i = vga_buffer s i"
  by (induction cs arbitrary: s) (simp_all add: vga_putchar_step)

section \<open>Initialisation\<close>

lemma init_row_buffer:
  assumes "Y < 25" "k \<le> 80"
  shows "vga_buffer (fold (\<lambda>x. vga_putentryat c a (of_nat x) (of_nat Y)) [0..<k] s) i =
    (if Y * 80 \<le> unat i \<and> unat i < Y * 80 + k then vga_entry c a else vga_buffer s i)"
  using assms(2)
proof (induction k)
  case (Suc k)
  have eq: "(of_nat Y * 80 + of_nat k :: u64) = of_nat (Y * 80 + k)" by simp
  have "i = of_nat Y * 80 + of_nat k \<longleftrightarrow> unat i = Y * 80 + k"
    unfolding eq using assms(1) Suc.prems by (intro eq_of_nat_64) simp
  then show ?case using Suc by (auto simp: vga_putentryat_def less_Suc_eq)
qed auto

lemma init_rows_buffer:
  assumes "k \<le> 25"
  shows "vga_buffer (fold (\<lambda>y. fold (\<lambda>x. vga_putentryat c a (of_nat x) (of_nat y)) [0..<80])
      [0..<k] s) i = (if unat i < k * 80 then vga_entry c a else vga_buffer s i)"
  using assms
proof (induction k)
  case (Suc k)
  let ?t = "fold (\<lambda>y. fold (\<lambda>x. vga_putentryat c a (of_nat x) (of_nat y)) [0..<80]) [0..<k] s"
  have "fold (\<lambda>y. fold (\<lambda>x. vga_putentryat c a (of_nat x) (of_nat y)) [0..<80]) [0..<Suc k] s =
      fold (\<lambda>x. vga_putentryat c a (of_nat x) (of_nat k)) [0..<80] ?t"
    by (subst upt_Suc) simp
  then show ?case using Suc init_row_buffer [of k 80 c a ?t i] by auto
qed simp

section \<open>Properties of the terminal\<close>

text \<open>
  \<open>vga_putchar\<close> implements the abstract terminal: from a cursor inside the screen, writing
  any character (newline, last column and scrolling included) has the effect of \<open>tty_put\<close>,
  leaves the cursor inside the screen, and changes no memory cell outside the 2000 cells of the
  screen.
\<close>

theorem vga_putchar_refines:
  assumes "vga_inv s"
  shows "vga_abs (vga_putchar c s) = tty_put c (vga_abs s) \<and> vga_inv (vga_putchar c s) \<and>
    (\<forall>i. 2000 \<le> unat i \<longrightarrow> vga_buffer (vga_putchar c s) i = vga_buffer s i)"
  using vga_putchar_step [OF assms] by blast

theorem vga_putchar_refines_witness:
  "vga_abs (vga_putchar 65 \<lparr>vga_row = 24, vga_column = 79, vga_color = 7, vga_buffer = (\<lambda>_. 0)\<rparr>) =
     tty_put 65 (vga_abs \<lparr>vga_row = 24, vga_column = 79, vga_color = 7, vga_buffer = (\<lambda>_. 0)\<rparr>) \<and>
   vga_inv (vga_putchar 65 \<lparr>vga_row = 24, vga_column = 79, vga_color = 7, vga_buffer = (\<lambda>_. 0)\<rparr>)"
  using vga_putchar_refines
    [of "\<lparr>vga_row = 24, vga_column = 79, vga_color = 7, vga_buffer = (\<lambda>_. 0)\<rparr>" 65]
  by (simp add: vga_inv_def)

text \<open>
  C5: \<open>vga_print\<close> of a C string returns, and its effect on the screen is that of putting the
  bytes of the string one after the other on the abstract terminal; the cursor invariant holds
  afterwards and nothing outside the screen is written.
\<close>

theorem vga_print_refines:
  assumes "cstring m p xs" and "vga_inv s"
  shows "\<exists>t. vga_print m p s = Inr t \<and> vga_abs t = fold tty_put xs (vga_abs s) \<and> vga_inv t \<and>
    (\<forall>i. 2000 \<le> unat i \<longrightarrow> vga_buffer t i = vga_buffer s i)"
  using assms vga_sink.inv_fold vga_sink.abs_fold fold_putchar_far
  by (auto simp: vga_print_cstring)

theorem vga_print_refines_witness:
  "\<exists>t. vga_print ((\<lambda>_. 0)(10 := 72, 11 := 105)) 10
       \<lparr>vga_row = 0, vga_column = 0, vga_color = 7, vga_buffer = (\<lambda>_. 0)\<rparr> = Inr t \<and> vga_inv t"
  using vga_print_refines [of "(\<lambda>_. 0)(10 := 72, 11 := 105)" 10 "[72, 105]"
      "\<lparr>vga_row = 0, vga_column = 0, vga_color = 7, vga_buffer = (\<lambda>_. 0)\<rparr>"]
  by (auto simp: vga_inv_def)

text \<open>
  \<open>vga_terminal_initialize\<close> establishes the invariant from any state: the cursor is at the
  top left corner, the colour is light grey on black, all 25 rows are blank, and no cell outside
  the screen is written.
\<close>

theorem vga_terminal_initialize_blank:
  "vga_inv (vga_terminal_initialize s) \<and>
   vga_abs (vga_terminal_initialize s) =
     \<lparr>cells = replicate 25 (replicate 80 (vga_entry 32 7)), crow = 0, ccol = 0, attr = 7\<rparr> \<and>
   (2000 \<le> unat i \<longrightarrow> vga_buffer (vga_terminal_initialize s) i = vga_buffer s i)"
proof -
  let ?s0 = "s\<lparr>vga_row := 0, vga_column := 0, vga_color := 7\<rparr>"
  let ?t = "fold (\<lambda>y. fold (\<lambda>x. vga_putentryat 32 7 (of_nat x) (of_nat y)) [0..<80]) [0..<25] ?s0"
  have t: "vga_terminal_initialize s = ?t"
    by (simp add: vga_terminal_initialize_def entry_color_def)
  have frame: "vga_row ?t = 0" "vga_column ?t = 0" "vga_color ?t = 7"
    by (simp_all add: fold_frame)
  have buf: "vga_buffer ?t j = (if unat j < 2000 then vga_entry 32 7 else vga_buffer s j)" for j
    using init_rows_buffer [of 25 32 7 ?s0 j] by simp
  have "screen (vga_buffer ?t) = screen (\<lambda>_. vga_entry 32 7)"
    by (rule screen_cong) (simp add: buf)
  also have "\<dots> = replicate 25 (replicate 80 (vga_entry 32 7))"
    by (simp add: screen_def map_replicate_const)
  finally show ?thesis unfolding t by (simp add: frame buf vga_inv_def vga_abs_def)
qed

theorem vga_terminal_initialize_blank_witness:
  "vga_buffer (vga_terminal_initialize
     \<lparr>vga_row = 9, vga_column = 9, vga_color = 0, vga_buffer = (\<lambda>_. 3)\<rparr>) 2000 = 3"
  using vga_terminal_initialize_blank
    [of "\<lparr>vga_row = 9, vga_column = 9, vga_color = 0, vga_buffer = (\<lambda>_. 3)\<rparr>" 2000]
  by simp

section \<open>Colours of cells, and positions outside the screen\<close>

text \<open>
  The cell of an ASCII character carries the character and the colour.  For a character of 128
  and above the sign extension overwrites the colour byte with 0xFF.
\<close>

lemma bit_7_u8: "bit (c::u8) 7 \<longleftrightarrow> odd (uint c div 128)"
proof -
  have "bit c 7 \<longleftrightarrow> bit (uint c) 7" by (simp add: bit_simps)
  also have "\<dots> \<longleftrightarrow> odd (uint c div 2 ^ 7)" by (simp only: bit_iff_odd)
  finally show ?thesis by simp
qed

lemma vga_entry_ascii:
  assumes "uint c < 128"
  shows "ucast (vga_entry c k) = c" "ucast (drop_bit 8 (vga_entry c k)) = k"
proof -
  have "\<not> bit c 7"
    using assms by (simp add: bit_7_u8)
  moreover have "7 \<le> n \<longleftrightarrow> n = 7" if "n < 8" for n :: nat using that by auto
  ultimately show "ucast (vga_entry c k) = c" "ucast (drop_bit 8 (vga_entry c k)) = k"
    by (auto intro!: bit_word_eqI simp: vga_entry_def bit_simps min_def split: if_splits)
qed

lemma vga_entry_high:
  assumes "128 \<le> uint c"
  shows "ucast (drop_bit 8 (vga_entry c k)) = (255 :: u8)"
proof -
  have sign: "bit c 7"
  proof -
    have "uint c div 128 = 1" using assms unsigned_less [of c, where 'a = int] by simp
    then show ?thesis by (simp add: bit_7_u8)
  qed
  have ones: "(255 :: u8) = mask 8" by (simp add: mask_eq_exp_minus_1)
  show ?thesis
    unfolding ones using sign by (auto intro!: bit_word_eqI simp: vga_entry_def bit_simps min_def)
qed

text \<open>
  \<open>vga_set_pos\<close> takes any byte as a row: from row 26 a character lands outside the screen.
\<close>

lemma vga_set_pos_escapes:
  "vga_buffer (vga_putchar 65 (vga_set_pos 0 26
     \<lparr>vga_row = 0, vga_column = 0, vga_color = 7, vga_buffer = (\<lambda>_. 0)\<rparr>)) 2080 = vga_entry 65 7"
  by (simp add: vga_putchar_def vga_set_pos_def vga_putentryat_def Let_def)

end
