(* ===== verification/Printk.thy ===== *)
theory Printk
  imports Vga_Terminal
begin

text \<open>
  The kernel's formatted printing, \<^verbatim>\<open>src/kernel/printk.c\<close>: number conversion, the format
  interpreter and \<open>printk\<close>.  A format literal is the list of its bytes before the NUL, a
  variable argument is a 64-bit slot or a string.  \<open>itoa\<close> works on the byte memory, because it
  touches the byte below its buffer: in \<open>vprintk\<close> the buffer is a local array, so the
  state carries, for the \<open>k\<close>-th conversion, the indeterminate contents of the stack
  (\<open>stack_at\<close>) and the address the compiler gave the array (\<open>str_addr\<close>).
\<close>

section \<open>Number conversion\<close>

definition digit_char :: "nat \<Rightarrow> u8" where
  "digit_char d = (if d < 10 then of_nat (48 + d) else of_nat (87 + d))"

partial_function (option) itoa_digits ::
  "mem \<Rightarrow> u64 \<Rightarrow> u8 \<Rightarrow> u64 \<Rightarrow> u8 \<Rightarrow> (mem \<times> u8) result option" where
  "itoa_digits m buf idx num base =
     (if num \<noteq> 0 then
        (if base = 0 then Some (Inl DivideError)
         else let rem = num mod ucast base
              in if 16 \<le> rem then Some (Inl OutOfBounds)
                 else itoa_digits (m(buf + ucast idx := digit_char (unat rem))) buf (idx + 1)
                        (num div ucast base) base)
      else Some (Inr (m, idx)))"

partial_function (option) itoa_reverse ::
  "mem \<Rightarrow> u64 \<Rightarrow> u8 \<Rightarrow> u8 \<Rightarrow> u8 \<Rightarrow> mem option" where
  "itoa_reverse m buf last_idx idx pivot =
     (if pivot \<le> idx then
        (let lo = buf + (ucast last_idx - ucast idx);
             hi = buf + ucast idx;
             tmp = m lo;
             m = m(lo := m hi);
             m = m(hi := tmp)
         in itoa_reverse m buf last_idx (idx - 1) pivot)
      else Some m)"

definition itoa :: "mem \<Rightarrow> u64 \<Rightarrow> u64 \<Rightarrow> u8 \<Rightarrow> mem result" where
  "itoa m buf num base =
     rbind (if num = 0 then Inr (m(buf := 48), 1)
            else rbind (of_loop (itoa_digits m buf 0 num base)) (\<lambda>r. r))
       (\<lambda>(m, idx).
          let m = m(buf + ucast idx := 0);
              last_idx = idx - 1;
              pivot = ucast ((ucast idx + 1 :: u32) div 2)
          in of_loop (itoa_reverse m buf last_idx idx pivot))"

section \<open>The format interpreter\<close>

datatype vararg = Slot u64 | Str "u8 list"

record console = vga +
  conversions :: nat
  stack_at :: "nat \<Rightarrow> mem"
  str_addr :: "nat \<Rightarrow> u64"

text \<open>A string argument is a NUL-terminated array of its own.\<close>

definition lit :: "u8 list \<Rightarrow> mem" where
  "lit bs = put_list (\<lambda>_. 0) 0 bs"

text \<open>
  The common body of the \<open>'d'\<close> and \<open>'x'\<close> cases: \<open>char str[24] = {0}; itoa; vga_print\<close>.  \<open>stack_at\<close> is what the
  stack holds when the array is made.  \<open>itoa\<close> exchanges \<open>str[-1]\<close> with the NUL behind the digits: the byte it
  reads there is printed, while the NUL it stores below the array is dropped here with the whole array
  at the end of the block, as no other part of the stack is modelled.
\<close>

definition print_number :: "u64 \<Rightarrow> u8 \<Rightarrow> 'a console_scheme \<Rightarrow> 'a console_scheme result" where
  "print_number v base s =
     (let k = conversions s;
          str = str_addr s k;
          m = fst (memset (stack_at s k) str 0 24)
      in rbind (itoa m str v base)
           (\<lambda>m. rbind (vga_print m str s) (\<lambda>s. Inr (s\<lparr>conversions := Suc k\<rparr>))))"

fun vprintk :: "u8 list \<Rightarrow> vararg list \<Rightarrow> 'a console_scheme \<Rightarrow> 'a console_scheme result" where
  "vprintk [] args s = Inr s"
| "vprintk (c # cs) args s =
     (if c = 37 then
        (case cs of
           [] \<Rightarrow> Inl OutOfBounds
         | d # cs' \<Rightarrow>
             if d = 99 then
               (case args of
                  Slot v # rest \<Rightarrow> vprintk cs' rest (vga_putchar (ucast v) s)
                | _ \<Rightarrow> Inl BadVarArg)
             else if d = 100 then
               (case args of
                  Slot v # rest \<Rightarrow> rbind (print_number v 10 s) (vprintk cs' rest)
                | _ \<Rightarrow> Inl BadVarArg)
             else if d = 115 then
               (case args of
                  Str bs # rest \<Rightarrow> rbind (vga_print (lit bs) 0 s) (vprintk cs' rest)
                | _ \<Rightarrow> Inl BadVarArg)
             else if d = 120 then
               (case args of
                  Slot v # rest \<Rightarrow> rbind (print_number v 16 s) (vprintk cs' rest)
                | _ \<Rightarrow> Inl BadVarArg)
             else vprintk cs' args s)
      else vprintk cs args (vga_putchar c s))"

text \<open>Formats are written as string literals in the callers.\<close>

definition printk :: "string \<Rightarrow> vararg list \<Rightarrow> 'a console_scheme \<Rightarrow> 'a console_scheme result" where
  "printk fmt args s = vprintk (map of_char fmt) args s"

section \<open>Numerals\<close>

text \<open>The digits of a number, least significant first, and the numeral as it is read.\<close>

function rdigits :: "nat \<Rightarrow> nat \<Rightarrow> u8 list" where
  "rdigits b n = (if n = 0 \<or> b < 2 then [] else digit_char (n mod b) # rdigits b (n div b))"
  by pat_completeness auto
termination
  by (relation "measure (\<lambda>(b, n). n)") (auto intro: div_less_dividend)

declare rdigits.simps [simp del]

definition numeral_string :: "nat \<Rightarrow> nat \<Rightarrow> u8 list" where
  "numeral_string b n = (if n = 0 then [48] else rev (rdigits b n))"

definition digit_value :: "u8 \<Rightarrow> nat" where
  "digit_value c = (if unat c < 58 then unat c - 48 else unat c - 87)"

definition numeral_value :: "nat \<Rightarrow> u8 list \<Rightarrow> nat" where
  "numeral_value b cs = foldl (\<lambda>v c. v * b + digit_value c) 0 cs"

lemma unat_digit_char: "d < 16 \<Longrightarrow> unat (digit_char d) = (if d < 10 then 48 + d else 87 + d)"
  by (auto simp: digit_char_def unat_of_nat take_bit_nat_eq_self simp del: of_nat_add)

lemma digit_value_char: "d < 16 \<Longrightarrow> digit_value (digit_char d) = d"
  by (simp add: digit_value_def unat_digit_char)

lemma digit_char_nonzero: "d < 16 \<Longrightarrow> digit_char d \<noteq> 0"
  using unat_digit_char [of d] by (auto split: if_splits)

lemma rdigits_value:
  "2 \<le> b \<Longrightarrow> b \<le> 16 \<Longrightarrow> foldr (\<lambda>c v. v * b + digit_value c) (rdigits b n) 0 = n"
proof (induction b n rule: rdigits.induct)
  case (1 b n)
  then show ?case
    by (subst rdigits.simps) (auto simp: digit_value_char less_le_trans [of _ b 16])
qed

lemma rdigits_length: "n < b ^ k \<Longrightarrow> length (rdigits b n) \<le> k"
proof (induction b n arbitrary: k rule: rdigits.induct)
  case (1 b n)
  show ?case
  proof (cases "n = 0 \<or> b < 2")
    case True
    then show ?thesis by (simp add: rdigits.simps)
  next
    case False
    then obtain j where j: "k = Suc j" using "1.prems" by (cases k) auto
    have "n div b < b ^ j" using "1.prems" False by (intro less_mult_imp_div_less) (simp add: j mult.commute)
    then show ?thesis using "1.IH" [of j] False j by (subst rdigits.simps) simp
  qed
qed

lemma rdigits_length_64:
  assumes "n < 2 ^ 64" shows "length (rdigits b n) \<le> 64"
proof (cases "b < 2")
  case False
  then have "(2::nat) ^ 64 \<le> b ^ 64" by (intro power_mono) auto
  then show ?thesis using assms by (intro rdigits_length) simp
qed (simp add: rdigits.simps)

lemma rdigits_nonzero: "b \<le> 16 \<Longrightarrow> 0 \<notin> set (rdigits b n)"
proof (induction b n rule: rdigits.induct)
  case (1 b n)
  have "digit_char (n mod b) \<noteq> 0" if "\<not> b < 2"
  proof (rule digit_char_nonzero)
    have "n mod b < b" using that by simp
    then show "n mod b < 16" using "1.prems" by (rule less_le_trans)
  qed
  then show ?case using 1 by (subst rdigits.simps) auto
qed

section \<open>What \<open>itoa\<close> writes\<close>

lemma itoa_digits_put:
  assumes base: "2 \<le> unat base" "unat base \<le> 16"
  shows "i + length (rdigits (unat base) (unat num)) < 256 \<Longrightarrow>
    itoa_digits m buf (of_nat i) num base =
      Some (Inr (put_list m (buf + of_nat i) (rdigits (unat base) (unat num)),
                 of_nat (i + length (rdigits (unat base) (unat num)))))"
proof (induction "unat num" arbitrary: m i num rule: less_induct)
  case less
  show ?case
  proof (cases "num = 0")
    case True
    then show ?thesis by (subst itoa_digits.simps) (simp add: rdigits.simps)
  next
    case False
    let ?q = "num div ucast base" and ?r = "num mod ucast base"
    have base_nz: "base \<noteq> 0" using base(1) by auto
    have q: "unat ?q = unat num div unat base" by (simp add: unat_div)
    have r: "unat ?r = unat num mod unat base" by (simp add: unat_mod)
    have "unat ?r < unat base" unfolding r using base(1) by simp
    then have small: "\<not> 16 \<le> ?r" using base(2) by (simp add: word_le_nat_alt)
    have ds: "rdigits (unat base) (unat num) = digit_char (unat ?r) # rdigits (unat base) (unat ?q)"
      using False base(1) by (subst rdigits.simps) (simp add: q r unat_eq_zero)
    have "unat ?q < unat num"
      unfolding q using False base(1) by (simp add: unat_gt_0)
    moreover have "Suc i + length (rdigits (unat base) (unat ?q)) < 256"
      using less.prems unfolding ds by simp
    ultimately have "itoa_digits (m(buf + of_nat i := digit_char (unat ?r))) buf (of_nat (Suc i)) ?q base =
        Some (Inr (put_list (m(buf + of_nat i := digit_char (unat ?r))) (buf + of_nat (Suc i))
               (rdigits (unat base) (unat ?q)),
             of_nat (Suc i + length (rdigits (unat base) (unat ?q)))))"
      by (rule less.hyps)
    moreover have "i < 256" using less.prems by simp
    then have "ucast (of_nat i :: u8) = (of_nat i :: u64)" by (rule ucast_of_nat_8_64)
    moreover have "(of_nat i + 1 :: u8) = of_nat (Suc i)" by simp
    moreover have "buf + of_nat (Suc i) = buf + of_nat i + 1" by (simp add: add.assoc)
    ultimately show ?thesis
      using False base_nz small unfolding ds
      by (subst itoa_digits.simps) (simp only: Let_def if_True if_False not_False_eq_True put_list.simps
          list.size add_Suc_right add_Suc add_0_right)
  qed
qed

text \<open>
  The second loop reverses the whole window from the byte below the buffer to the NUL after
  the digits.
\<close>

text \<open>
  The memory whose bytes \<open>n - j\<close> to \<open>j + 1\<close>, counted from \<open>a\<close>, stand in reverse order; the reversal
  exchanges the outer two of them and goes on inside.
\<close>

definition mirrored :: "u64 \<Rightarrow> nat \<Rightarrow> nat \<Rightarrow> mem \<Rightarrow> mem" where
  "mirrored a n j m x =
     (if n - j \<le> unat (x - a) \<and> unat (x - a) \<le> Suc j then m (a + of_nat (Suc n - unat (x - a))) else m x)"

lemma mirrored_narrow:
  assumes "(n + 1) div 2 = Suc j" shows "mirrored a n j m = m"
proof
  fix x
  have "2 * j + 1 \<le> n" "n \<le> 2 * j + 2" using assms by linarith+
  then have "Suc n - unat (x - a) = unat (x - a)" if "n - j \<le> unat (x - a)" "unat (x - a) \<le> Suc j"
    using that by linarith
  then show "mirrored a n j m x = m x" by (simp add: mirrored_def)
qed

lemma mirrored_swap:
  fixes a :: u64
  assumes "n < 255" "(n + 1) div 2 \<le> Suc i" "Suc i \<le> n"
  defines "lo \<equiv> a + of_nat (n - Suc i)" and "hi \<equiv> a + of_nat (Suc (Suc i))"
  shows "mirrored a n i (m(lo := m hi, hi := m lo)) = mirrored a n (Suc i) m"
proof
  fix x
  let ?m = "m(lo := m hi, hi := m lo)" and ?p = "unat (x - a)"
  have m_eq: "?m y = (if unat (y - a) = Suc (Suc i) then m lo
      else if unat (y - a) = n - Suc i then m hi else m y)" for y
    using assms(1,3) by (auto simp: lo_def hi_def eq_add_of_nat_64 simp del: of_nat_Suc of_nat_diff)
  have partner: "unat (a + of_nat (Suc n - p) - a) = Suc n - p" for p using assms(1) by simp
  consider "n - i \<le> ?p" "?p \<le> Suc i" | "?p = Suc (Suc i)" | "?p = n - Suc i" "?p \<noteq> Suc (Suc i)"
    | "\<not> (n - Suc i \<le> ?p \<and> ?p \<le> Suc (Suc i))" by linarith
  then show "mirrored a n i ?m x = mirrored a n (Suc i) m x"
  proof cases
    case 1
    then have "Suc n - ?p \<noteq> Suc (Suc i)" "Suc n - ?p \<noteq> n - Suc i" using assms(3) by linarith+
    then have "?m (a + of_nat (Suc n - ?p)) = m (a + of_nat (Suc n - ?p))" by (simp only: m_eq partner if_False)
    then show ?thesis using 1 unfolding mirrored_def by auto
  next
    case 2
    then have "Suc n - ?p = n - Suc i" by simp
    then show ?thesis using 2 assms(2) unfolding mirrored_def m_eq unfolding lo_def by auto
  next
    case 3
    then have "Suc n - ?p = Suc (Suc i)" using assms(3) by simp
    then show ?thesis using 3 assms(2,3) unfolding mirrored_def m_eq unfolding hi_def by auto
  next
    case 4
    have "n - Suc i \<le> Suc (Suc i)" using assms(2) by linarith
    then have "?p \<noteq> Suc (Suc i)" "?p \<noteq> n - Suc i" "\<not> (n - i \<le> ?p \<and> ?p \<le> Suc i)" using 4 by linarith+
    then show ?thesis using 4 by (simp only: mirrored_def m_eq if_False)
  qed
qed

lemma itoa_reverse_mirrored:
  assumes "1 \<le> n" "n < 255" "(n + 1) div 2 \<le> Suc j" "j \<le> n"
  shows "itoa_reverse m buf (of_nat (n - 1)) (of_nat j) (of_nat ((n + 1) div 2)) = Some (mirrored (buf - 1) n j m)"
  using assms(3,4)
proof (induction j arbitrary: m)
  case 0
  then have piv: "(n + 1) div 2 = Suc 0" using assms(1) by linarith
  then show ?case by (subst itoa_reverse.simps) (simp add: mirrored_narrow [OF piv])
next
  case (Suc i)
  let ?piv = "(n + 1) div 2"
  have le: "(of_nat ?piv :: u8) \<le> of_nat (Suc i) \<longleftrightarrow> ?piv \<le> Suc i"
    using assms(2) Suc.prems by (simp add: word_le_nat_alt unat_of_nat_8 del: of_nat_Suc)
  show ?case
  proof (cases "?piv \<le> Suc i")
    case False
    then have "?piv = Suc (Suc i)" using Suc.prems by linarith
    moreover have "itoa_reverse m buf (of_nat (n - 1)) (of_nat (Suc i)) (of_nat ?piv) = Some m"
      using False le by (subst itoa_reverse.simps) (simp only: if_False)
    ultimately show ?thesis by (simp only: mirrored_narrow)
  next
    case True
    let ?lo = "buf - 1 + of_nat (n - Suc i)" and ?hi = "buf - 1 + of_nat (Suc (Suc i))"
    have idx: "ucast (of_nat (n - 1) :: u8) = (of_nat (n - 1) :: u64)"
      "ucast (of_nat (Suc i) :: u8) = (of_nat (Suc i) :: u64)"
      using assms(2) Suc.prems by (simp_all add: ucast_of_nat_8_64 del: of_nat_Suc of_nat_diff)
    have ends: "buf + (of_nat (n - 1) - of_nat (Suc i)) = ?lo" "buf + of_nat (Suc i) = ?hi"
      using assms(1) Suc.prems by simp_all
    have "(of_nat (Suc i) - 1 :: u8) = of_nat i" by simp
    then have "itoa_reverse m buf (of_nat (n - 1)) (of_nat (Suc i)) (of_nat ?piv) =
        itoa_reverse (m(?lo := m ?hi, ?hi := m ?lo)) buf (of_nat (n - 1)) (of_nat i) (of_nat ?piv)"
      using True le by (subst itoa_reverse.simps) (simp only: if_True Let_def idx ends)
    then show ?thesis
      unfolding Suc.IH [OF True Suc_leD [OF Suc.prems(2)]] mirrored_swap [OF assms(2) True Suc.prems(2)] .
  qed
qed

lemma numeral_string_length:
  assumes "n < 2 ^ 64" "2 \<le> b"
  shows "1 \<le> length (numeral_string b n)" "length (numeral_string b n) \<le> 64"
proof -
  have "rdigits b n \<noteq> []" if "n \<noteq> 0" using that assms(2) by (subst rdigits.simps) simp
  then show "1 \<le> length (numeral_string b n)"
    by (cases "rdigits b n") (auto simp: numeral_string_def)
  show "length (numeral_string b n) \<le> 64"
    using rdigits_length_64 [OF assms(1)] by (simp add: numeral_string_def)
qed

text \<open>The first half of \<open>itoa\<close>: the digits, least significant first.\<close>

lemma itoa_stage1:
  assumes "2 \<le> unat base" "unat base \<le> 16"
  shows "(if num = 0 then Inr (m(buf := 48), 1)
          else rbind (of_loop (itoa_digits m buf 0 num base)) (\<lambda>r. r)) =
    Inr (put_list m buf (rev (numeral_string (unat base) (unat num))),
         of_nat (length (numeral_string (unat base) (unat num))))"
proof (cases "num = 0")
  case False
  have "0 + length (rdigits (unat base) (unat num)) < 256"
    using rdigits_length_64 [of "unat num" "unat base"] by simp
  from itoa_digits_put [OF assms this, of m buf] False show ?thesis
    by (simp add: numeral_string_def unat_eq_zero)
qed (simp add: numeral_string_def)

text \<open>The memory between the two halves, seen from the byte below the buffer.\<close>

lemma digits_window:
  fixes buf :: u64 and m :: mem and xs :: "u8 list"
  assumes "length xs \<le> 64"
  defines "m2 \<equiv> (put_list m buf xs)(buf + of_nat (length xs) := 0)"
  shows "q \<le> Suc (length xs) \<Longrightarrow> m2 (buf - 1 + of_nat q) =
      (if q = 0 then m (buf - 1) else if q = Suc (length xs) then 0 else xs ! (q - 1))"
    and "Suc (length xs) < unat (x - (buf - 1)) \<Longrightarrow> m2 x = m x"
proof -
  have m2: "m2 x = (if unat (x - (buf - 1)) = Suc (length xs) then 0
      else if unat (x - (buf - 1)) \<noteq> 0 \<and> unat (x - (buf - 1)) \<le> length xs
      then xs ! (unat (x - (buf - 1)) - 1) else m x)" for x
  proof (cases "x = buf - 1")
    case True
    have "\<not> in_range buf (length xs) (buf - 1)" "buf - 1 \<noteq> buf + of_nat (length xs)"
    proof -
      have "unat (buf - 1 - buf) = 2 ^ 64 - 1"
        by (simp add: unsigned_minus_1_eq_mask mask_eq_exp_minus_1)
      then show "\<not> in_range buf (length xs) (buf - 1)" "buf - 1 \<noteq> buf + of_nat (length xs)"
        using assms(1) by (simp_all only: in_range_def) (auto simp: eq_add_of_nat_64)
    qed
    then show ?thesis using assms(1) True by (simp add: m2_def put_list_apply)
  next
    case False
    then have "unat (x - (buf - 1)) = Suc (unat (x - buf))"
      using unat_sub_succ [of x "buf - 1"] by simp
    moreover have "x = buf + of_nat (length xs) \<longleftrightarrow> unat (x - buf) = length xs"
      using assms(1) by (intro eq_add_of_nat_64) simp
    ultimately show ?thesis
      using assms(1) by (auto simp: m2_def put_list_apply in_range_def)
  qed
  show "m2 (buf - 1 + of_nat q) =
      (if q = 0 then m (buf - 1) else if q = Suc (length xs) then 0 else xs ! (q - 1))"
    if "q \<le> Suc (length xs)"
  proof -
    have "unat (buf - 1 + of_nat q - (buf - 1)) = q" using that assms(1) by simp
    then show ?thesis using that unfolding m2 by auto
  qed
  show "m2 x = m x" if "Suc (length xs) < unat (x - (buf - 1))"
    using that unfolding m2 by auto
qed

lemma itoa_pivot:
  assumes "n \<le> 64"
  shows "ucast ((ucast (of_nat n :: u8) + 1 :: u32) div 2) = (of_nat ((n + 1) div 2) :: u8)"
proof -
  have "unat (ucast (of_nat n :: u8) :: u32) = n"
    using assms by (simp add: unsigned_ucast_eq unat_of_nat_8 take_bit_nat_eq_self)
  then have "(ucast (of_nat n :: u8) :: u32) = of_nat n" by (metis of_nat_unat ucast_id)
  then have "(ucast (of_nat n :: u8) + 1 :: u32) = of_nat (n + 1)" by simp
  moreover have "unat (of_nat (n + 1) div 2 :: u32) = (n + 1) div 2"
    using assms by (simp add: unat_div unat_of_nat take_bit_nat_eq_self del: of_nat_add of_nat_Suc)
  ultimately show ?thesis by (metis of_nat_unat)
qed

text \<open>What the reversal makes of the digits.\<close>

lemma mirrored_digits:
  fixes buf :: u64 and m :: mem and ds :: "u8 list"
  assumes "length ds \<le> 64"
  defines "n \<equiv> length ds"
  shows "mirrored (buf - 1) n n ((put_list m buf (rev ds))(buf + of_nat n := 0)) x =
    (if in_range buf n x then ds ! unat (x - buf)
     else if x = buf + of_nat n then m (buf - 1) else if x = buf - 1 then 0 else m x)"
    (is "mirrored ?a n n ?m x = _")
proof (cases "x = ?a")
  case True
  have "unat (?a - buf) = 2 ^ 64 - 1" by (simp add: unsigned_minus_1_eq_mask mask_eq_exp_minus_1)
  then have "\<not> in_range buf n ?a" "?a \<noteq> buf + of_nat n"
    using assms by (simp_all only: in_range_def) (auto simp: eq_add_of_nat_64)
  moreover have "mirrored ?a n n ?m x = 0"
    using True digits_window(1) [of "rev ds" "Suc n" m buf] assms by (simp only: mirrored_def) simp
  ultimately show ?thesis using True by simp
next
  case False
  let ?i = "unat (x - buf)"
  have p: "unat (x - ?a) = Suc ?i" using unat_sub_succ [OF False] by simp
  have last: "x = buf + of_nat n \<longleftrightarrow> ?i = n" using assms by (intro eq_add_of_nat_64) simp
  note win = digits_window(1) [of "rev ds" _ m buf, unfolded length_rev, folded n_def]
  consider "?i < n" | "?i = n" | "n < ?i" by linarith
  then show ?thesis
  proof cases
    case 1
    then have "n - ?i \<le> Suc n" "n - ?i \<noteq> 0" "n - ?i \<noteq> Suc n" by linarith+
    then have "?m (?a + of_nat (n - ?i)) = rev ds ! (n - ?i - 1)"
      using win [of "n - ?i"] assms(1) [folded n_def] by (simp del: of_nat_diff)
    then have "mirrored ?a n n ?m x = rev ds ! (n - ?i - 1)"
      using 1 unfolding mirrored_def p by (simp del: of_nat_diff)
    then show ?thesis using 1 by (simp add: in_range_def rev_nth n_def)
  next
    case 2
    then have "mirrored ?a n n ?m x = m ?a" using win [of 0] assms unfolding mirrored_def p by simp
    then show ?thesis using 2 last by (simp add: in_range_def)
  next
    case 3
    then have "mirrored ?a n n ?m x = m x"
      using digits_window(2) [of "rev ds" x buf m] assms p unfolding mirrored_def by simp
    then show ?thesis using 3 last False by (simp add: in_range_def)
  qed
qed

lemma itoa_apply:
  fixes num :: u64 and base :: u8
  assumes "2 \<le> unat base" "unat base \<le> 16"
  defines "ds \<equiv> numeral_string (unat base) (unat num)"
  shows "\<exists>m'. itoa m buf num base = Inr m' \<and>
    (\<forall>x. m' x = (if in_range buf (length ds) x then ds ! unat (x - buf)
               else if x = buf + of_nat (length ds) then m (buf - 1)
               else if x = buf - 1 then 0 else m x))"
proof -
  let ?n = "length ds" and ?m = "(put_list m buf (rev ds))(buf + of_nat (length ds) := 0)"
  have n: "1 \<le> ?n" "?n \<le> 64"
    unfolding ds_def using numeral_string_length [of "unat num" "unat base"] assms(1) by simp_all
  have "itoa_reverse ?m buf (of_nat (?n - 1)) (of_nat ?n) (of_nat ((?n + 1) div 2)) =
      Some (mirrored (buf - 1) ?n ?n ?m)" using n by (intro itoa_reverse_mirrored) simp_all
  moreover have "(of_nat ?n - 1 :: u8) = of_nat (?n - 1)" using n by simp
  ultimately have "itoa m buf num base = Inr (mirrored (buf - 1) ?n ?n ?m)"
    using ucast_of_nat_8_64 [of ?n] n
    unfolding itoa_def itoa_stage1 [OF assms(1,2)] ds_def [symmetric]
    by (simp add: Let_def itoa_pivot del: of_nat_diff)
  then show ?thesis using mirrored_digits [OF n(2)] by blast
qed

section \<open>What is printed\<close>

text \<open>The indeterminate byte below the buffer of the \<open>k\<close>-th number printed.\<close>

definition stray :: "'a console_scheme \<Rightarrow> nat \<Rightarrow> u8" where
  "stray s k = stack_at s k (str_addr s k - 1)"

definition number_out :: "u8 \<Rightarrow> nat \<Rightarrow> u64 \<Rightarrow> u8 list" where
  "number_out g b v = numeral_string b (unat v) @ (if g = 0 then [] else [g])"

lemma numeral_string_nonzero:
  assumes "b \<le> 16" shows "0 \<notin> set (numeral_string b n)"
  using rdigits_nonzero [OF assms] by (simp add: numeral_string_def)

lemma numeral_string_length_24:
  assumes "base = 10 \<or> base = (16::u8)"
  shows "length (numeral_string (unat base) (unat (v::u64))) \<le> 20"
proof -
  have "unat v < unat base ^ 20"
    using assms less_le_trans [OF unat_bound_64(1), of "10 ^ 20" v] less_le_trans [OF unat_bound_64(1), of "16 ^ 20" v]
    by auto
  from rdigits_length [OF this] show ?thesis by (simp add: numeral_string_def)
qed

lemma itoa_local_cstring:
  assumes "base = 10 \<or> base = (16::u8)"
  shows "\<exists>m'. itoa (fst (memset m str 0 24)) str v base = Inr m' \<and>
    cstring m' str (number_out (m (str - 1)) (unat base) v)"
proof -
  let ?ds = "numeral_string (unat base) (unat v)" and ?m0 = "fst (memset m str 0 24)"
  let ?n = "length ?ds"
  have base: "2 \<le> unat base" "unat base \<le> 16" using assms by auto
  have n: "?n \<le> 20" using assms by (rule numeral_string_length_24)
  obtain m' where m': "itoa ?m0 str v base = Inr m'"
    and m'_eq: "\<And>x. m' x = (if in_range str ?n x then ?ds ! unat (x - str)
               else if x = str + of_nat ?n then ?m0 (str - 1)
               else if x = str - 1 then 0 else ?m0 x)"
    using itoa_apply [OF base, of ?m0 str v] by blast
  have digits: "m' (str + of_nat i) = ?ds ! i" if "i < ?n" for i
    using that n unfolding m'_eq by simp
  have below: "?m0 (str - 1) = m (str - 1)"
    by (simp add: memset_apply in_range_def unsigned_minus_1_eq_mask mask_eq_exp_minus_1)
  have at_n: "m' (str + of_nat ?n) = m (str - 1)"
    using n unfolding m'_eq by (simp add: below)
  have after: "m' (str + of_nat (Suc ?n)) = 0"
  proof -
    have "?m0 (str + of_nat (Suc ?n)) = 0"
      using n by (simp add: memset_apply del: of_nat_Suc)
    moreover have "str + of_nat (Suc ?n) \<noteq> str + (of_nat ?n :: u64)"
      by simp
    ultimately show ?thesis
      using n unfolding m'_eq by (simp del: of_nat_Suc)
  qed
  have "?ds ! i \<noteq> 0" if "i < ?n" for i
    using that numeral_string_nonzero [OF base(2)] by (metis nth_mem)
  then have "cstring m' str (number_out (m (str - 1)) (unat base) v)"
    using digits at_n after [unfolded of_nat_Suc add.commute [of 1]]
    by (auto simp: cstring_nth number_out_def nth_append less_Suc_eq)
  then show ?thesis using m' by blast
qed

lemma print_number_out:
  assumes "base = 10 \<or> base = (16::u8)"
  shows "print_number v base s =
    Inr ((fold vga_putchar (number_out (stray s (conversions s)) (unat base) v) s)
         \<lparr>conversions := Suc (conversions s)\<rparr>)"
  using itoa_local_cstring [OF assms, of "stack_at s (conversions s)" "str_addr s (conversions s)" v]
  by (auto simp: print_number_def Let_def stray_def vga_print_cstring)

lemma lit_cstring: "0 \<notin> set bs \<Longrightarrow> length bs < 2 ^ 64 \<Longrightarrow> cstring (lit bs) 0 bs"
  by (auto simp: cstring_nth lit_def put_list_apply in_range_def) (metis nth_mem)

lemma vga_print_lit:
  "0 \<notin> set bs \<Longrightarrow> length bs < 2 ^ 64 \<Longrightarrow> vga_print (lit bs) 0 s = Inr (fold vga_putchar bs s)"
  by (rule vga_print_cstring) (rule lit_cstring)

section \<open>The console fields are untouched by the terminal\<close>

lemma more_console:
  assumes "vga.more t = vga.more (s :: 'a console_scheme)"
  shows "conversions t = conversions s" "stack_at t = stack_at s" "str_addr t = str_addr s"
  using assms by (cases s; cases t; simp)+

lemma fold_putchar_console [simp]:
  "conversions (fold vga_putchar cs s) = conversions s"
  "stack_at (fold vga_putchar cs s) = stack_at s"
  "str_addr (fold vga_putchar cs s) = str_addr s"
  by (rule more_console, simp)+

lemma putchar_console [simp]:
  "conversions (vga_putchar c s) = conversions s"
  "stack_at (vga_putchar c s) = stack_at s"
  "str_addr (vga_putchar c s) = str_addr s"
  by (rule more_console, simp)+

text \<open>Updates of the conversion counter move outwards past the terminal's own updates.\<close>

lemma conversions_outwards:
  "vga_row_update f (conversions_update g s) = conversions_update g (vga_row_update f s)"
  "vga_column_update f (conversions_update g s) = conversions_update g (vga_column_update f s)"
  "vga_buffer_update h (conversions_update g s) = conversions_update g (vga_buffer_update h s)"
  by (cases s; simp)+

lemma scroll_cell_conversions:
  "scroll_cell b y x (s\<lparr>conversions := k\<rparr>) = (scroll_cell b y x s)\<lparr>conversions := k\<rparr>"
  by (simp add: scroll_cell_def vga_putentryat_def Let_def conversions_outwards)

lemma fold_conversions:
  assumes "\<And>x s. f x (s\<lparr>conversions := k\<rparr>) = (f x s)\<lparr>conversions := k\<rparr>"
  shows "fold f xs (s\<lparr>conversions := k\<rparr>) = (fold f xs s)\<lparr>conversions := k\<rparr>"
  using assms by (induction xs arbitrary: s) simp_all

lemma scroll_rows_conversions:
  "scroll_rows b y (s\<lparr>conversions := k\<rparr>) = (scroll_rows b y s)\<lparr>conversions := k\<rparr>"
proof (induction b y s rule: scroll_rows.induct)
  case (1 b y s)
  then show ?case
    by (subst (1 2) scroll_rows.simps) (simp add: fold_conversions scroll_cell_conversions)
qed

lemma putchar_conversions [simp]:
  "vga_putchar c (s\<lparr>conversions := k\<rparr>) = (vga_putchar c s)\<lparr>conversions := k\<rparr>"
  by (simp add: vga_putchar_def Let_def vga_putentryat_def scroll_def
      scroll_rows_conversions conversions_outwards)

lemma fold_putchar_conversions [simp]:
  "fold vga_putchar cs (s\<lparr>conversions := k\<rparr>) = (fold vga_putchar cs s)\<lparr>conversions := k\<rparr>"
  by (rule fold_conversions) simp

section \<open>The specification of formatted printing\<close>

text \<open>
  \<open>format_out g k fmt args\<close> is the text a format stands for and the number of numeric
  conversions done when it is finished; \<open>g\<close> gives the stray byte of each conversion.
\<close>

fun format_out :: "(nat \<Rightarrow> u8) \<Rightarrow> nat \<Rightarrow> u8 list \<Rightarrow> vararg list \<Rightarrow> (u8 list \<times> nat) result" where
  "format_out g k [] args = Inr ([], k)"
| "format_out g k [c] args = (if c = 37 then Inl OutOfBounds else Inr ([c], k))"
| "format_out g k (c # d # cs) args =
     (if c \<noteq> 37 then rbind (format_out g k (d # cs) args) (\<lambda>(out, k). Inr (c # out, k))
      else if d = 99 then
        (case args of
           Slot v # rest \<Rightarrow> rbind (format_out g k cs rest) (\<lambda>(out, k). Inr (ucast v # out, k))
         | _ \<Rightarrow> Inl BadVarArg)
      else if d = 100 then
        (case args of
           Slot v # rest \<Rightarrow> rbind (format_out g (Suc k) cs rest)
             (\<lambda>(out, k'). Inr (number_out (g k) 10 v @ out, k'))
         | _ \<Rightarrow> Inl BadVarArg)
      else if d = 115 then
        (case args of
           Str bs # rest \<Rightarrow> rbind (format_out g k cs rest) (\<lambda>(out, k). Inr (bs @ out, k))
         | _ \<Rightarrow> Inl BadVarArg)
      else if d = 120 then
        (case args of
           Slot v # rest \<Rightarrow> rbind (format_out g (Suc k) cs rest)
             (\<lambda>(out, k'). Inr (number_out (g k) 16 v @ out, k'))
         | _ \<Rightarrow> Inl BadVarArg)
      else format_out g k cs args)"

definition args_ok :: "vararg list \<Rightarrow> bool" where
  "args_ok args \<longleftrightarrow> (\<forall>bs. Str bs \<in> set args \<longrightarrow> 0 \<notin> set bs \<and> length bs < 2 ^ 64)"

lemma args_ok_Cons [simp]:
  "args_ok (a # args) \<longleftrightarrow>
     args_ok args \<and> (\<forall>bs. a = Str bs \<longrightarrow> 0 \<notin> set bs \<and> length bs < 2 ^ 64)"
  by (auto simp: args_ok_def)

lemma args_ok_Nil [simp]: "args_ok []"
  by (simp add: args_ok_def)

definition after_output :: "'a console_scheme \<Rightarrow> u8 list \<times> nat \<Rightarrow> 'a console_scheme" where
  "after_output s = (\<lambda>(out, k). (fold vga_putchar out s)\<lparr>conversions := k\<rparr>)"

lemma stray_frame [simp]:
  "stray (vga_putchar c s) = stray s" "stray (fold vga_putchar cs s) = stray s"
  "stray (s\<lparr>conversions := k\<rparr>) = stray s"
  by (auto simp: stray_def)

lemma after_output_more:
  "rbind (rbind r (\<lambda>(out, k). Inr (cs @ out, k))) (\<lambda>x. Inr (after_output s x)) =
     rbind r (\<lambda>x. Inr (after_output (fold vga_putchar cs s) x))"
  by (cases r) (auto simp: after_output_def)

lemma after_output_conversions [simp]:
  "after_output (s\<lparr>conversions := k\<rparr>) x = after_output s x"
  by (cases x) (simp add: after_output_def)

lemma vprintk_format_out:
  assumes "args_ok args"
  shows "vprintk fmt args s =
    rbind (format_out (stray s) (conversions s) fmt args) (\<lambda>x. Inr (after_output s x))"
  using assms
proof (induction "stray s" "conversions s" fmt args arbitrary: s rule: format_out.induct)
  case (1 args)
  then show ?case by (simp add: after_output_def)
next
  case (2 c args)
  then show ?case by (simp add: after_output_def)
next
  case (3 c d cs args)
  note more = after_output_more [of _ "[_]", simplified] after_output_more
  show ?case
    using 3 by (auto simp: more print_number_out vga_print_lit
        split: list.splits vararg.splits)
qed

section \<open>Properties of printing\<close>

lemma numeral_value_string:
  assumes "2 \<le> b" "b \<le> 16" shows "numeral_value b (numeral_string b n) = n"
proof (cases "n = 0")
  case True
  then show ?thesis by (simp add: numeral_value_def numeral_string_def digit_value_def)
next
  case False
  then show ?thesis
    using rdigits_value [OF assms, of n]
    by (simp add: numeral_value_def numeral_string_def foldr_conv_foldl)
qed

text \<open>
  C18: \<open>itoa\<close> terminates for every base from 2 to 16 and writes, from the start of the buffer and
  in reading order, a numeral whose value is the number.  It also exchanges the byte below the
  buffer with the terminating NUL: \<open>buf[-1]\<close> becomes 0 and the byte after the last digit is
  what \<open>buf[-1]\<close> was.  No other byte changes.
\<close>

theorem itoa_roundtrip:
  assumes "2 \<le> unat base" and "unat base \<le> 16"
  shows "\<exists>m' n. itoa m buf num base = Inr m' \<and> 1 \<le> n \<and> n \<le> 64 \<and>
    numeral_value (unat base) (bytes_at m' buf n) = unat num \<and>
    m' (buf + of_nat n) = m (buf - 1) \<and> m' (buf - 1) = 0 \<and>
    (\<forall>x. \<not> in_range (buf - 1) (n + 2) x \<longrightarrow> m' x = m x)"
proof -
  let ?ds = "numeral_string (unat base) (unat num)"
  have n: "1 \<le> length ?ds" "length ?ds \<le> 64"
    using numeral_string_length [of "unat num" "unat base"] assms(1) by simp_all
  obtain m' where m': "itoa m buf num base = Inr m'"
    and m'_eq: "\<And>x. m' x = (if in_range buf (length ?ds) x then ?ds ! unat (x - buf)
               else if x = buf + of_nat (length ?ds) then m (buf - 1)
               else if x = buf - 1 then 0 else m x)"
    using itoa_apply [OF assms, of m buf num] by blast
  have "bytes_at m' buf (length ?ds) = ?ds"
    using n by (intro nth_equalityI) (simp_all add: m'_eq)
  then have "numeral_value (unat base) (bytes_at m' buf (length ?ds)) = unat num"
    using assms by (simp add: numeral_value_string)
  moreover have "unat (buf - 1 - buf) = 2 ^ 64 - 1"
    by (simp add: unsigned_minus_1_eq_mask mask_eq_exp_minus_1)
  then have "\<not> in_range buf (length ?ds) (buf - 1)" "buf - 1 \<noteq> buf + of_nat (length ?ds)"
    using n by (simp_all only: in_range_def) (auto simp: eq_add_of_nat_64)
  then have "m' (buf - 1) = 0" by (simp add: m'_eq)
  moreover have "m' (buf + of_nat (length ?ds)) = m (buf - 1)" using n by (simp add: m'_eq)
  moreover have "m' x = m x" if "\<not> in_range (buf - 1) (length ?ds + 2) x" for x
  proof -
    have "x \<noteq> buf - 1" using that by (auto simp: in_range_def)
    moreover from this have "unat (x - (buf - 1)) = Suc (unat (x - buf))"
      using unat_sub_succ [of x "buf - 1"] by simp
    ultimately show ?thesis
      using that n eq_add_of_nat_64 [of "length ?ds" x buf] by (auto simp: m'_eq in_range_def)
  qed
  ultimately show ?thesis using m' n by blast
qed

theorem itoa_roundtrip_witness:
  "\<exists>m' n. itoa (\<lambda>_. 7) 100 666 10 = Inr m' \<and>
     numeral_value 10 (bytes_at m' 100 n) = 666 \<and> m' (100 + of_nat n) = 7"
  using itoa_roundtrip [of 10 "\<lambda>_. 7" 100 666] by auto

text \<open>
  C6: \<open>vprintk\<close> implements the format specification: on every format and every list of
  arguments whose strings are C strings, it returns exactly when the specification gives a
  text, the effect on the terminal is that of putting that text character by character, and a
  format that ends in \<open>%\<close> or asks for an argument that was not passed is the specification's
  error.
\<close>

theorem vprintk_implements_format:
  assumes "args_ok args"
  shows "vprintk fmt args s =
    (case format_out (stray s) (conversions s) fmt args of
       Inl e \<Rightarrow> Inl e
     | Inr (out, k) \<Rightarrow> Inr ((fold vga_putchar out s)\<lparr>conversions := k\<rparr>))"
  using vprintk_format_out [OF assms, of fmt s]
  by (auto simp: rbind_def after_output_def split: sum.splits)

definition boot_console :: "u8 \<Rightarrow> console" where
  "boot_console g = \<lparr>vga_row = 0, vga_column = 0, vga_color = 7, vga_buffer = (\<lambda>_. 0),
     conversions = 0, stack_at = (\<lambda>_ _. g), str_addr = (\<lambda>_. 100)\<rparr>"

theorem vprintk_implements_format_witness:
  "vprintk [37, 100, 33] [Slot 66] (boot_console 0) =
     Inr ((fold vga_putchar [54, 54, 33] (boot_console 0))\<lparr>conversions := 1\<rparr>) \<and>
   vprintk [37, 100, 33] [Slot 66] (boot_console 64) =
     Inr ((fold vga_putchar [54, 54, 64, 33] (boot_console 64))\<lparr>conversions := 1\<rparr>)"
proof -
  have "numeral_string 10 66 = [54, 54]"
    by (simp add: numeral_string_def rdigits.simps digit_char_def)
  then show ?thesis
    using vprintk_implements_format [of "[Slot 66]" "[37, 100, 33]" "boot_console 0"]
      vprintk_implements_format [of "[Slot 66]" "[37, 100, 33]" "boot_console 64"]
    by (simp add: number_out_def boot_console_def stray_def)
qed

text \<open>A plain text is printed as it stands, whatever the state.\<close>

lemma format_out_plain: "37 \<notin> set fmt \<Longrightarrow> format_out g k fmt [] = Inr (fmt, k)"
  by (induction g k fmt "[] :: vararg list" rule: format_out.induct) auto

lemma inj_of_char_u8: "of_char c = (of_char d :: u8) \<Longrightarrow> c = d"
proof -
  have small: "of_char x < (256::nat)" for x
    using mod_less_divisor [of 256 "of_char x :: nat"] by simp
  assume "of_char c = (of_char d :: u8)"
  then have "unat (of_nat (of_char c) :: u8) = unat (of_nat (of_char d) :: u8)"
    by (simp only: of_nat_of_char)
  then have "of_char c = (of_char d :: nat)" by (simp only: unat_of_nat_8 [OF small])
  then show "c = d" by simp
qed

lemma printk_plain:
  "CHR ''%'' \<notin> set fmt \<Longrightarrow> printk fmt [] s = Inr (fold vga_putchar (map of_char fmt) s)"
proof -
  assume plain: "CHR ''%'' \<notin> set fmt"
  have "of_char c = (37::u8) \<longleftrightarrow> c = CHR ''%''" for c
    using inj_of_char_u8 [of c "CHR ''%''"] by auto
  then have "37 \<notin> set (map of_char fmt :: u8 list)"
    using plain by (metis (no_types, lifting) imageE list.set_map)
  then show ?thesis
    using vprintk_format_out [of "[]" "map of_char fmt" s]
    by (simp add: printk_def format_out_plain after_output_def)
qed

end
