(* ===== verification/Multiboot.thy ===== *)
theory Multiboot
  imports C_String
begin

text \<open>
  The Multiboot2 information parser, \<^verbatim>\<open>src/kernel/multiboot2_parser.c\<close>, with the layouts of
  \<^verbatim>\<open>src/include/multiboot2.h\<close> it uses: a tag is a 32-bit type and a 32-bit size, tags are
  padded to 8 bytes and end with a tag of type 0; the memory map tag has the size of one entry
  at offset 8 and its 24-byte entries (base, length, type) from offset 16.  The information
  lies in the byte memory, so every field is a little-endian load.
\<close>

section \<open>Layout and operations\<close>

abbreviation MULTIBOOT_TAG_TYPE_END :: u32 where "MULTIBOOT_TAG_TYPE_END \<equiv> 0"
abbreviation MULTIBOOT_TAG_TYPE_MMAP :: u32 where "MULTIBOOT_TAG_TYPE_MMAP \<equiv> 6"
abbreviation MULTIBOOT_MEMORY_AVAILABLE :: u32 where "MULTIBOOT_MEMORY_AVAILABLE \<equiv> 1"

definition tag_type :: "mem \<Rightarrow> u64 \<Rightarrow> u32" where "tag_type m t = load32 m t"
definition tag_size :: "mem \<Rightarrow> u64 \<Rightarrow> u32" where "tag_size m t = load32 m (t + 4)"
definition mmap_entry_size :: "mem \<Rightarrow> u64 \<Rightarrow> u32" where "mmap_entry_size m t = load32 m (t + 8)"
definition mmap_entries :: "u64 \<Rightarrow> u64" where "mmap_entries t = t + 16"
definition mmap_addr :: "mem \<Rightarrow> u64 \<Rightarrow> u64" where "mmap_addr m e = load64 m e"
definition mmap_len :: "mem \<Rightarrow> u64 \<Rightarrow> u64" where "mmap_len m e = load64 m (e + 8)"
definition mmap_type :: "mem \<Rightarrow> u64 \<Rightarrow> u32" where "mmap_type m e = load32 m (e + 16)"

text \<open>\<open>(size + 7) & ~7\<close>, in 32-bit arithmetic.\<close>

definition align8 :: "u32 \<Rightarrow> u64" where
  "align8 sz = ucast ((sz + 7) AND NOT 7)"

partial_function (option) multiboot_find_tag :: "mem \<Rightarrow> u64 \<Rightarrow> u32 \<Rightarrow> u64 option" where
  "multiboot_find_tag m tags ty =
     (if tag_type m tags \<noteq> MULTIBOOT_TAG_TYPE_END then
        (if tag_type m tags = ty then Some tags
         else multiboot_find_tag m (tags + align8 (tag_size m tags)) ty)
      else Some NULL)"

definition mmap_step :: "mem \<Rightarrow> u64 \<Rightarrow> u64 \<Rightarrow> u64" where
  "mmap_step m e highest =
     (let top = mmap_addr m e + mmap_len m e - 1
      in if mmap_type m e = MULTIBOOT_MEMORY_AVAILABLE \<and> highest < top then top else highest)"

text \<open>
  \<open>mmap_entry += mmap->entry_size / 8\<close> is pointer arithmetic on 24-byte entries.
\<close>

partial_function (option) mmap_loop :: "mem \<Rightarrow> u64 \<Rightarrow> u64 \<Rightarrow> u64 \<Rightarrow> u64 option" where
  "mmap_loop m mmap e highest =
     (if e < mmap + ucast (tag_size m mmap)
      then mmap_loop m mmap (e + 24 * ucast (mmap_entry_size m mmap div 8)) (mmap_step m e highest)
      else Some highest)"

definition multiboot_get_memory_end :: "mem \<Rightarrow> u64 \<Rightarrow> u64 result" where
  "multiboot_get_memory_end m tags =
     rbind (of_loop (multiboot_find_tag m tags MULTIBOOT_TAG_TYPE_MMAP))
       (\<lambda>mmap. if mmap = NULL then Inl NullDeref
               else of_loop (mmap_loop m mmap (mmap_entries mmap) 0))"

section \<open>Lists of tags in memory\<close>

text \<open>\<open>tags_at m a ts\<close>: a list of tags, given by type and size, starts at \<open>a\<close> and is ended by
  the end tag.\<close>

fun tags_at :: "mem \<Rightarrow> u64 \<Rightarrow> (u32 \<times> u32) list \<Rightarrow> bool" where
  "tags_at m a [] \<longleftrightarrow> tag_type m a = MULTIBOOT_TAG_TYPE_END"
| "tags_at m a ((ty, sz) # ts) \<longleftrightarrow>
     ty \<noteq> MULTIBOOT_TAG_TYPE_END \<and> tag_type m a = ty \<and> tag_size m a = sz \<and>
     tags_at m (a + align8 sz) ts"

fun nth_tag :: "u64 \<Rightarrow> (u32 \<times> u32) list \<Rightarrow> nat \<Rightarrow> u64" where
  "nth_tag a ((ty, sz) # ts) (Suc i) = nth_tag (a + align8 sz) ts i"
| "nth_tag a ts i = a"

lemma find_tag_tags_at:
  "tags_at m a ts \<Longrightarrow> multiboot_find_tag m a ty =
     Some (case find (\<lambda>i. fst (ts ! i) = ty) [0..<length ts] of
             None \<Rightarrow> NULL | Some i \<Rightarrow> nth_tag a ts i)"
proof (induction m a ts rule: tags_at.induct)
  case (1 m a)
  then show ?case by (subst multiboot_find_tag.simps) simp
next
  case (2 m a t sz ts)
  then show ?case
    unfolding list.size(4) add_Suc_right add_0_right find_upt_Suc
    by (subst multiboot_find_tag.simps) (auto split: option.splits)
qed

text \<open>The next tag is found at the size rounded up to a multiple of 8.\<close>

lemma align8_rounds_up:
  assumes "unat sz + 7 < 2 ^ 32"
  shows "unat (align8 sz) = (unat sz + 7) div 8 * 8"
proof -
  have "unat (sz + 7) = unat sz + 7"
    using assms by (subst unat_add_lem [THEN iffD1]) simp_all
  moreover have seven: "(7 :: u32) = mask 3" by (simp add: mask_eq_exp_minus_1)
  have "unat ((sz + 7) AND NOT 7) = unat (sz + 7) div 8 * 8"
    using unat_and_not_mask [of "sz + 7" 3] unfolding seven by simp
  ultimately show ?thesis by (simp add: align8_def)
qed

section \<open>The entries the memory map loop visits\<close>

definition stride :: "mem \<Rightarrow> u64 \<Rightarrow> nat" where
  "stride m mmap = 24 * (unat (mmap_entry_size m mmap) div 8)"

definition visits :: "mem \<Rightarrow> u64 \<Rightarrow> nat" where
  "visits m mmap = (unat (tag_size m mmap) - 16 + stride m mmap - 1) div stride m mmap"

definition visited :: "mem \<Rightarrow> u64 \<Rightarrow> u64 list" where
  "visited m mmap = map (\<lambda>j. mmap + of_nat (16 + stride m mmap * j)) [0..<visits m mmap]"

lemma visits_iff:
  assumes "0 < stride m mmap"
  shows "j < visits m mmap \<longleftrightarrow> 16 + stride m mmap * j < unat (tag_size m mmap)"
proof -
  let ?s = "stride m mmap" and ?r = "unat (tag_size m mmap) - 16"
  have "j < visits m mmap \<longleftrightarrow> Suc j * ?s \<le> ?r + ?s - 1"
    unfolding visits_def Suc_le_eq [symmetric] by (rule less_eq_div_iff_mult_less_eq [OF assms])
  also have "\<dots> \<longleftrightarrow> ?s * j < ?r" using assms by (auto simp: algebra_simps)
  finally show ?thesis by linarith
qed

lemma offset_below_end:
  fixes mmap :: u64 and sz :: u32
  assumes "unat mmap + unat sz + k < 2 ^ 64" "i \<le> unat sz + k"
  shows "mmap + of_nat i < mmap + ucast sz \<longleftrightarrow> i < unat sz"
proof -
  have "unat (mmap + of_nat i) = unat mmap + i"
    using assms by (intro unat_add_of_nat [of mmap "unat sz + k + 1"]) auto
  moreover have "unat (mmap + ucast sz) = unat mmap + unat sz"
    using assms(1) by (subst unat_add_lem [THEN iffD1]) simp_all
  ultimately show ?thesis by (simp add: word_less_nat_alt)
qed

lemma mmap_loop_visited:
  assumes "0 < stride m mmap"
    and fits: "unat mmap + unat (tag_size m mmap) + (16 + stride m mmap) < 2 ^ 64"
  shows "j \<le> visits m mmap \<Longrightarrow>
    mmap_loop m mmap (mmap + of_nat (16 + stride m mmap * j)) hi =
      Some (fold (mmap_step m)
        (map (\<lambda>j. mmap + of_nat (16 + stride m mmap * j)) [j..<visits m mmap]) hi)"
proof (induction "visits m mmap - j" arbitrary: j hi)
  case 0
  let ?s = "stride m mmap" and ?sz = "unat (tag_size m mmap)"
  have j: "j = visits m mmap" using 0 by simp
  have "16 + ?s * j \<le> ?sz + (16 + ?s)"
  proof (cases j)
    case (Suc i)
    then have "16 + ?s * i < ?sz" using visits_iff [OF assms(1), of i] j by simp
    then show ?thesis using Suc by simp
  qed simp
  then have "\<not> mmap + of_nat (16 + ?s * j) < mmap + ucast (tag_size m mmap)"
    using offset_below_end [OF fits] visits_iff [OF assms(1), of j] j by blast
  then have "mmap_loop m mmap (mmap + of_nat (16 + ?s * j)) hi = Some hi"
    by (subst mmap_loop.simps) (simp only: if_False)
  then show ?case using j by (simp del: of_nat_add of_nat_mult)
next
  case (Suc d)
  let ?s = "stride m mmap" and ?sz = "unat (tag_size m mmap)"
  let ?e = "mmap + of_nat (16 + ?s * j)"
  have j: "j < visits m mmap" using Suc.hyps(2) by simp
  then have lt: "16 + ?s * j < ?sz" using visits_iff [OF assms(1)] by simp
  then have inside: "?e < mmap + ucast (tag_size m mmap)"
    using offset_below_end [OF fits, of "16 + ?s * j"] by simp
  have "unat (mmap_entry_size m mmap div 8) = unat (mmap_entry_size m mmap) div 8"
    by (simp add: unat_div)
  then have "(ucast (mmap_entry_size m mmap div 8) :: u64) = of_nat (unat (mmap_entry_size m mmap) div 8)"
    by (metis of_nat_unat unat_ucast_32_64)
  then have "24 * (ucast (mmap_entry_size m mmap div 8) :: u64) = of_nat ?s"
    by (simp add: stride_def)
  then have nxt: "?e + 24 * ucast (mmap_entry_size m mmap div 8) = mmap + of_nat (16 + ?s * Suc j)"
    by (simp add: algebra_simps)
  have "mmap_loop m mmap ?e hi = mmap_loop m mmap (mmap + of_nat (16 + ?s * Suc j)) (mmap_step m ?e hi)"
    using inside by (subst mmap_loop.simps) (simp only: if_True nxt)
  also have "\<dots> = Some (fold (mmap_step m)
      (map (\<lambda>j. mmap + of_nat (16 + ?s * j)) [Suc j..<visits m mmap]) (mmap_step m ?e hi))"
    using Suc j by (intro Suc.hyps(1)) auto
  finally show ?case using j by (simp add: upt_conv_Cons del: of_nat_add of_nat_mult)
qed

lemma mmap_step_mono: "hi \<le> mmap_step m e hi"
  by (auto simp: mmap_step_def Let_def)

lemma fold_mmap_step_mono: "hi \<le> fold (mmap_step m) es hi"
  using mmap_step_mono order_trans by (induction es arbitrary: hi) (auto, blast)

lemma fold_mmap_step_upper:
  assumes "e \<in> set es" "mmap_type m e = MULTIBOOT_MEMORY_AVAILABLE"
  shows "mmap_addr m e + mmap_len m e - 1 \<le> fold (mmap_step m) es hi"
  using assms(1)
proof (induction es arbitrary: hi)
  case (Cons x xs)
  have "mmap_addr m e + mmap_len m e - 1 \<le> mmap_step m e hi"
    using assms(2) by (auto simp: mmap_step_def Let_def not_less)
  then show ?case using Cons fold_mmap_step_mono [of "mmap_step m e hi" m xs] by auto
qed simp

lemma fold_mmap_step_attained:
  "fold (mmap_step m) es hi = hi \<or>
   (\<exists>e \<in> set es. mmap_type m e = MULTIBOOT_MEMORY_AVAILABLE \<and>
     fold (mmap_step m) es hi = mmap_addr m e + mmap_len m e - 1)"
proof (induction es arbitrary: hi)
  case (Cons x xs)
  have "mmap_step m x hi = hi \<or> mmap_type m x = MULTIBOOT_MEMORY_AVAILABLE \<and>
      mmap_step m x hi = mmap_addr m x + mmap_len m x - 1"
    by (auto simp: mmap_step_def Let_def)
  then show ?case using Cons.IH [of "mmap_step m x hi"] by auto
qed simp

section \<open>Properties of the parser\<close>

text \<open>
  \<open>multiboot_find_tag\<close> terminates on every tag list that is closed by an end tag and
  returns the address of the first tag of the wanted type, NULL when there is none.
\<close>

lemma multiboot_find_tag_first:
  assumes "tags_at m a ts"
  shows "multiboot_find_tag m a ty =
    Some (case find (\<lambda>i. fst (ts ! i) = ty) [0..<length ts] of
            None \<Rightarrow> NULL | Some i \<Rightarrow> nth_tag a ts i)"
  using assms by (rule find_tag_tags_at)

definition sample_info :: mem where
  "sample_info =
     store32 (store64 (store64 (store32 (store64 (store64
       (store32 (store32 (store32 (store32 (store32 (\<lambda>_. 0)
         1000 1) 1004 9) 1016 6) 1020 64) 1024 24)
         1032 0) 1040 0x9FC00) 1048 1)
         1056 0x100000) 1064 0x7EE0000) 1072 1"

lemma sample_tags: "tags_at sample_info 1000 [(1, 9), (6, 64)]"
  by (simp add: tag_type_def tag_size_def align8_def sample_info_def mem_eval)

lemma multiboot_find_tag_first_witness:
  "multiboot_find_tag sample_info 1000 6 = Some 1016"
  using multiboot_find_tag_first [OF sample_tags, of 6] by (simp add: upt_rec align8_def)

lemma memory_end_fold:
  assumes "multiboot_find_tag m tags MULTIBOOT_TAG_TYPE_MMAP = Some mmap" and "mmap \<noteq> NULL"
    and "8 \<le> unat (mmap_entry_size m mmap)"
    and "unat mmap + unat (tag_size m mmap) + (16 + stride m mmap) < 2 ^ 64"
  shows "multiboot_get_memory_end m tags = Inr (fold (mmap_step m) (visited m mmap) 0)"
proof -
  have pos: "0 < stride m mmap" using assms(3) by (simp add: stride_def div_greater_zero_iff)
  have "mmap_loop m mmap (mmap_entries mmap) 0 = Some (fold (mmap_step m) (visited m mmap) 0)"
    using mmap_loop_visited [OF pos assms(4), of 0 0] by (simp add: mmap_entries_def visited_def)
  then show ?thesis using assms(1,2) by (simp add: multiboot_get_memory_end_def)
qed

text \<open>
  C20: what \<open>multiboot_get_memory_end\<close> computes: when the tag list has a memory map whose
  recorded entry size is at least 8 and which does not wrap around the address space, the call
  returns, and the result is the largest last address of the available entries it looks at, or 0
  when none of them is available.  The entries it looks at are those at distance
  \<open>24 * (entry_size div 8)\<close> bytes, that is every third entry for 24-byte entries.
\<close>

theorem multiboot_get_memory_end_visited:
  assumes "multiboot_find_tag m tags MULTIBOOT_TAG_TYPE_MMAP = Some mmap" and "mmap \<noteq> NULL"
    and "8 \<le> unat (mmap_entry_size m mmap)"
    and "unat mmap + unat (tag_size m mmap) + (16 + stride m mmap) < 2 ^ 64"
  shows "\<exists>r. multiboot_get_memory_end m tags = Inr r \<and>
    (\<forall>e \<in> set (visited m mmap). mmap_type m e = MULTIBOOT_MEMORY_AVAILABLE \<longrightarrow>
       mmap_addr m e + mmap_len m e - 1 \<le> r) \<and>
    (r = 0 \<or> (\<exists>e \<in> set (visited m mmap). mmap_type m e = MULTIBOOT_MEMORY_AVAILABLE \<and>
       r = mmap_addr m e + mmap_len m e - 1))"
  using memory_end_fold [OF assms] fold_mmap_step_upper [of _ "visited m mmap" m 0]
    fold_mmap_step_attained [of m "visited m mmap" 0] by auto

text \<open>
  The sample map has two available entries, 0 to 0x9FBFF and 0x100000 to 0x7FDFFFF.  Only the
  first is looked at, and the end of the low memory is returned.
\<close>

lemma sample_mmap:
  "multiboot_find_tag sample_info 1000 MULTIBOOT_TAG_TYPE_MMAP = Some 1016"
  "tag_size sample_info 1016 = 64" "mmap_entry_size sample_info 1016 = 24"
  "visited sample_info 1016 = [1032]" "mmap_type sample_info 1032 = 1"
  "mmap_addr sample_info 1032 + mmap_len sample_info 1032 - 1 = 0x9FBFF"
proof -
  note eval = sample_info_def mem_eval
  show "multiboot_find_tag sample_info 1000 MULTIBOOT_TAG_TYPE_MMAP = Some 1016"
    using find_tag_tags_at [OF sample_tags, of 6] by (simp add: upt_rec align8_def)
  show size: "tag_size sample_info 1016 = 64" "mmap_entry_size sample_info 1016 = 24"
    by (simp_all add: tag_size_def mmap_entry_size_def eval)
  show "visited sample_info 1016 = [1032]"
    by (simp add: visited_def visits_def stride_def size upt_rec)
  show "mmap_type sample_info 1032 = 1" "mmap_addr sample_info 1032 + mmap_len sample_info 1032 - 1 = 0x9FBFF"
    by (simp_all add: mmap_type_def mmap_addr_def mmap_len_def eval)
qed

theorem multiboot_get_memory_end_visited_witness:
  "multiboot_get_memory_end sample_info 1000 = Inr 0x9FBFF"
  using multiboot_get_memory_end_visited [OF sample_mmap(1)] by (auto simp: stride_def sample_mmap)

section \<open>What the parser reads\<close>

text \<open>
  The bytes from the first tag to the end tag; a tag is as long as its header at least and its padding does
  not wrap.
\<close>

fun tags_length :: "(u32 \<times> u32) list \<Rightarrow> nat" where
  "tags_length [] = 8"
| "tags_length ((ty, sz) # ts) = unat (align8 sz) + tags_length ts"

definition tags_fit :: "(u32 \<times> u32) list \<Rightarrow> bool" where
  "tags_fit ts \<longleftrightarrow> (\<forall>t \<in> set ts. 8 \<le> unat (snd t) \<and> unat (snd t) + 7 < 2 ^ 32)"

lemma tags_length_min: "8 \<le> tags_length ts"
  by (induction ts rule: tags_length.induct) simp_all

lemma align8_covers: "unat sz + 7 < 2 ^ 32 \<Longrightarrow> unat sz \<le> unat (align8 sz)"
  by (subst align8_rounds_up) simp_all

lemma tag_header_cong:
  assumes "\<And>x. in_range a n x \<Longrightarrow> m' x = m x" "8 \<le> n" "unat a + n \<le> 2 ^ 64"
  shows "tag_type m' a = tag_type m a" "tag_size m' a = tag_size m a"
proof -
  have "unat (a + 4) = unat a + 4" using unat_add_of_nat [of a n 4] assms(2,3) by simp
  then have "in_range a 4 x \<or> in_range (a + 4) 4 x \<Longrightarrow> in_range a n x" for x
    using inside_range [of a 4 x a n] inside_range [of "a + 4" 4 x a n] assms(2,3) by auto
  then show "tag_type m' a = tag_type m a" "tag_size m' a = tag_size m a"
    unfolding tag_type_def tag_size_def using assms(1) by (intro load32_cong; blast)+
qed

lemma tags_at_cong:
  assumes "tags_at m a ts" "tags_fit ts" "unat a + tags_length ts \<le> 2 ^ 64"
    and "\<And>x. in_range a (tags_length ts) x \<Longrightarrow> m' x = m x"
  shows "tags_at m' a ts"
  using assms
proof (induction m a ts rule: tags_at.induct)
  case (1 m a)
  then show ?case using tag_header_cong(1) [of a 8 m' m] by simp
next
  case (2 m a ty sz ts)
  let ?b = "a + align8 sz"
  have l: "8 \<le> tags_length ts" by (rule tags_length_min)
  have b: "unat ?b = unat a + unat (align8 sz)" using 2(4) l by (simp add: unat_word_ariths(1))
  have "tags_at m' ?b ts"
  proof (rule "2.IH")
    show "tags_at m ?b ts" "tags_fit ts" using 2(2,3) by (simp_all add: tags_fit_def)
    show "unat ?b + tags_length ts \<le> 2 ^ 64" using 2(4) b by simp
    show "m' x = m x" if "in_range ?b (tags_length ts) x" for x
      using inside_range [OF that, of a "tags_length ((ty, sz) # ts)"] 2(4,5) b by simp
  qed
  then show ?case using tag_header_cong [of a "tags_length ((ty, sz) # ts)" m' m] 2(2,4,5) l by simp
qed

text \<open>Where a tag lies.\<close>

lemma nth_tag_inside:
  assumes "tags_at m a ts" "tags_fit ts" "unat a + tags_length ts \<le> 2 ^ 64" "i < length ts"
  shows "tag_size m (nth_tag a ts i) = snd (ts ! i)" "unat a \<le> unat (nth_tag a ts i)"
    "unat (nth_tag a ts i) + unat (snd (ts ! i)) \<le> unat a + tags_length ts"
proof -
  have "tag_size m (nth_tag a ts i) = snd (ts ! i) \<and> unat a \<le> unat (nth_tag a ts i) \<and>
    unat (nth_tag a ts i) + unat (snd (ts ! i)) \<le> unat a + tags_length ts"
    using assms
  proof (induction ts arbitrary: a i rule: tags_length.induct)
    case (2 ty sz ts)
    then have "unat (a + align8 sz) = unat a + unat (align8 sz)"
      using tags_length_min [of ts] by (simp add: unat_word_ariths(1))
    moreover have "unat sz \<le> unat (align8 sz)" using 2(3) align8_covers [of sz] by (simp add: tags_fit_def)
    moreover note 2(1) [of "a + align8 sz" "i - 1"]
    ultimately show ?case using 2(2-) by (cases i) (simp_all add: tags_fit_def)
  qed simp
  then show "tag_size m (nth_tag a ts i) = snd (ts ! i)" "unat a \<le> unat (nth_tag a ts i)"
    "unat (nth_tag a ts i) + unat (snd (ts ! i)) \<le> unat a + tags_length ts" by simp_all
qed

text \<open>Information with a memory map of whole entries.\<close>

definition has_memory_map :: "mem \<Rightarrow> u64 \<Rightarrow> (u32 \<times> u32) list \<Rightarrow> bool" where
  "has_memory_map m a ts \<longleftrightarrow> tags_at m a ts \<and> tags_fit ts \<and>
     (\<exists>i < length ts. find (\<lambda>i. fst (ts ! i) = MULTIBOOT_TAG_TYPE_MMAP) [0..<length ts] = Some i \<and>
        8 \<le> unat (mmap_entry_size m (nth_tag a ts i)) \<and> 16 \<le> unat (snd (ts ! i)) \<and> 24 dvd unat (snd (ts ! i)) - 16)"

text \<open>A visited entry lies inside the map.\<close>

lemma visited_inside:
  assumes "0 < stride m mmap" "16 \<le> unat (tag_size m mmap)" "24 dvd unat (tag_size m mmap) - 16"
    and "unat mmap + unat (tag_size m mmap) \<le> 2 ^ 64" "e \<in> set (visited m mmap)"
  shows "unat mmap \<le> unat e" "unat e + 24 \<le> unat mmap + unat (tag_size m mmap)"
proof -
  let ?k = "unat (mmap_entry_size m mmap) div 8" and ?sz = "unat (tag_size m mmap)"
  obtain j where j: "j < visits m mmap" "e = mmap + of_nat (16 + 24 * (?k * j))"
    using assms(5) by (auto simp: visited_def stride_def mult.assoc)
  have lt: "16 + 24 * (?k * j) < ?sz" using j(1) visits_iff [OF assms(1)] by (simp add: stride_def mult.assoc)
  obtain q where q: "?sz - 16 = 24 * q" using assms(3) by (rule dvdE)
  then have "?k * j < q" using lt assms(2) by linarith
  then have "?k * j + 1 \<le> q" by simp
  then have "16 + 24 * (?k * j) + 24 \<le> ?sz" using q assms(2) by linarith
  moreover have "unat e = unat mmap + (16 + 24 * (?k * j))"
    unfolding j(2) using lt assms(4) by (intro unat_add_of_nat) auto
  ultimately show "unat mmap \<le> unat e" "unat e + 24 \<le> unat mmap + ?sz" by simp_all
qed

lemma mmap_step_cong:
  assumes "\<And>x. in_range e 24 x \<Longrightarrow> m' x = m x" "unat e + 24 \<le> 2 ^ 64"
  shows "mmap_step m' e hi = mmap_step m e hi"
proof -
  have "unat (e + 8) = unat e + 8" "unat (e + 16) = unat e + 16"
    using unat_add_of_nat [of e 24 8] unat_add_of_nat [of e 24 16] assms(2) by simp_all
  then have "in_range e 8 x \<or> in_range (e + 8) 8 x \<or> in_range (e + 16) 4 x \<Longrightarrow> in_range e 24 x" for x
    using inside_range [of e 8 x e 24] inside_range [of "e + 8" 8 x e 24] inside_range [of "e + 16" 4 x e 24] assms(2) by auto
  then have "mmap_addr m' e = mmap_addr m e" "mmap_len m' e = mmap_len m e" "mmap_type m' e = mmap_type m e"
    unfolding mmap_addr_def mmap_len_def mmap_type_def using assms(1) by (intro load64_cong load32_cong; blast)+
  then show ?thesis by (simp add: mmap_step_def)
qed

text \<open>The end of memory depends on the bytes of the information only.\<close>

lemma memory_end_cong:
  assumes "has_memory_map m a ts" "0 < unat a" "unat a + tags_length ts \<le> 2 ^ 32"
    and same: "\<And>x. in_range a (tags_length ts) x \<Longrightarrow> m' x = m x"
  shows "multiboot_get_memory_end m' a = multiboot_get_memory_end m a" "\<exists>r. multiboot_get_memory_end m a = Inr r"
proof -
  obtain i where i: "i < length ts" "find (\<lambda>i. fst (ts ! i) = MULTIBOOT_TAG_TYPE_MMAP) [0..<length ts] = Some i"
    and t: "tags_at m a ts" "tags_fit ts" and map: "8 \<le> unat (mmap_entry_size m (nth_tag a ts i))"
      "16 \<le> unat (snd (ts ! i))" "24 dvd unat (snd (ts ! i)) - 16"
    using assms(1) by (auto simp: has_memory_map_def)
  define mmap where "mmap = nth_tag a ts i"
  have fit: "unat a + tags_length ts \<le> 2 ^ 64" using assms(3) by simp
  have t': "tags_at m' a ts" by (rule tags_at_cong [OF t fit]) (rule same)
  note at = nth_tag_inside [OF t fit i(1), folded mmap_def]
  note sz = at(1) and sz' = nth_tag_inside(1) [OF t' t(2) fit i(1), folded mmap_def]
  have inside: "m' x = m x" if "in_range b k x" "unat mmap \<le> unat b" "unat b + k \<le> unat mmap + unat (snd (ts ! i))" for b k x
    using inside_range [OF that(1), of a "tags_length ts"] at(2,3) that(2,3) fit by (intro same) linarith
  have "unat (mmap + 8) = unat mmap + 8" using unat_add_of_nat [of mmap 16 8] at(3) fit map(2) by simp
  then have es: "mmap_entry_size m' mmap = mmap_entry_size m mmap"
    unfolding mmap_entry_size_def using map(2) by (intro load32_cong inside) auto
  have st: "stride m' mmap = stride m mmap" by (simp add: stride_def es)
  then have vs: "visited m' mmap = visited m mmap" by (simp add: visited_def visits_def sz sz')
  have pos: "0 < stride m mmap" using map(1) by (simp add: stride_def div_greater_zero_iff mmap_def)
  have "mmap_step m' e = mmap_step m e" if "e \<in> set (visited m mmap)" for e
  proof -
    have v: "unat mmap \<le> unat e" "unat e + 24 \<le> unat mmap + unat (snd (ts ! i))"
      using visited_inside [OF pos _ _ _ that] map(2,3) at(3) fit unfolding sz by auto
    then have "unat e + 24 \<le> 2 ^ 64" using at(3) fit by linarith
    then show ?thesis using mmap_step_cong [of e m' m] inside [of e 24] v by blast
  qed
  then have f: "fold (mmap_step m') (visited m mmap) 0 = fold (mmap_step m) (visited m mmap) 0"
    by (intro fold_cong) auto
  have nz: "mmap \<noteq> NULL" using at(2) assms(2) by auto
  have "unat (mmap_entry_size m mmap) < 2 ^ 32" using unsigned_less [of "mmap_entry_size m mmap"] by simp
  then have "stride m mmap \<le> 24 * 2 ^ 32" by (simp add: stride_def)
  then have bound: "unat mmap + unat (snd (ts ! i)) + (16 + stride m mmap) < 2 ^ 64" using at(3) assms(3) by simp
  have found: "multiboot_find_tag m a MULTIBOOT_TAG_TYPE_MMAP = Some mmap"
    "multiboot_find_tag m' a MULTIBOOT_TAG_TYPE_MMAP = Some mmap"
    using find_tag_tags_at [OF t(1), of MULTIBOOT_TAG_TYPE_MMAP] find_tag_tags_at [OF t', of MULTIBOOT_TAG_TYPE_MMAP] i(2)
    by (simp_all add: mmap_def)
  have m: "multiboot_get_memory_end m a = Inr (fold (mmap_step m) (visited m mmap) 0)"
    by (rule memory_end_fold [OF found(1) nz, unfolded sz, OF map(1) [folded mmap_def] bound])
  then show "\<exists>r. multiboot_get_memory_end m a = Inr r" by blast
  have "multiboot_get_memory_end m' a = Inr (fold (mmap_step m') (visited m' mmap) 0)"
    by (rule memory_end_fold [OF found(2) nz, unfolded st es sz', OF map(1) [folded mmap_def] bound])
  then show "multiboot_get_memory_end m' a = multiboot_get_memory_end m a" unfolding m vs f .
qed

end
