(* ===== verification/Hw_Ports.thy ===== *)
theory Hw_Ports
  imports Printk
begin

text \<open>
  The privileged instructions of \<^verbatim>\<open>src/include/arch/x86_64/asm.h\<close>.  The hardware is not part
  of the program: it is a parameter \<open>dev\<close> that gives the byte a port read returns from the
  whole history of interactions so far.  The state keeps that history, so the order of port
  accesses is part of every result, and a theorem that holds for all \<open>dev\<close> holds for every
  behaviour of the devices.
\<close>

section \<open>Interactions with the hardware\<close>

datatype hw_event =
    In u64 u8
  | Out u64 u8
  | InW u64 u16
  | InL u64 u32
  | OutW u64 u16
  | OutL u64 u32
  | Invlpg u64
  | SetCr3 u64
  | Lidt u16 u64
  | Sti

type_synonym device = "hw_event list \<Rightarrow> u64 \<Rightarrow> u8"

record machine = console +
  hw_trace :: "hw_event list"

definition log_event :: "hw_event \<Rightarrow> 'a machine_scheme \<Rightarrow> 'a machine_scheme" where
  "log_event e s = s\<lparr>hw_trace := hw_trace s @ [e]\<rparr>"

definition inb :: "device \<Rightarrow> u64 \<Rightarrow> 'a machine_scheme \<Rightarrow> u8 \<times> 'a machine_scheme" where
  "inb dev port s = (let v = dev (hw_trace s) port in (v, log_event (In port v) s))"

definition outb :: "u64 \<Rightarrow> u8 \<Rightarrow> 'a machine_scheme \<Rightarrow> 'a machine_scheme" where
  "outb port v s = log_event (Out port v) s"

text \<open>The word and long accesses, which no driver of the kernel uses yet.\<close>

definition inw :: "(hw_event list \<Rightarrow> u64 \<Rightarrow> u16) \<Rightarrow> u64 \<Rightarrow> 'a machine_scheme \<Rightarrow> u16 \<times> 'a machine_scheme" where
  "inw dev port s = (let v = dev (hw_trace s) port in (v, log_event (InW port v) s))"

definition inl :: "(hw_event list \<Rightarrow> u64 \<Rightarrow> u32) \<Rightarrow> u64 \<Rightarrow> 'a machine_scheme \<Rightarrow> u32 \<times> 'a machine_scheme" where
  "inl dev port s = (let v = dev (hw_trace s) port in (v, log_event (InL port v) s))"

definition outw :: "u64 \<Rightarrow> u16 \<Rightarrow> 'a machine_scheme \<Rightarrow> 'a machine_scheme" where
  "outw port v s = log_event (OutW port v) s"

definition outl :: "u64 \<Rightarrow> u32 \<Rightarrow> 'a machine_scheme \<Rightarrow> 'a machine_scheme" where
  "outl port v s = log_event (OutL port v) s"

text \<open>\<open>get_cr2\<close> reads a register of the processor; the value is a parameter.\<close>

definition get_cr2 :: "u64 \<Rightarrow> u64" where
  "get_cr2 cr2 = cr2"

definition invlpg :: "u64 \<Rightarrow> 'a machine_scheme \<Rightarrow> 'a machine_scheme" where
  "invlpg addr s = log_event (Invlpg addr) s"

definition set_cr3 :: "u64 \<Rightarrow> 'a machine_scheme \<Rightarrow> 'a machine_scheme" where
  "set_cr3 v s = log_event (SetCr3 v) s"

text \<open>The writes of a history, in order.\<close>

fun outs :: "hw_event list \<Rightarrow> (u64 \<times> u8) list" where
  "outs [] = []"
| "outs (Out p v # es) = (p, v) # outs es"
| "outs (_ # es) = outs es"

lemma outs_append [simp]: "outs (xs @ ys) = outs xs @ outs ys"
  by (induction xs rule: outs.induct) auto

lemma hw_trace_log [simp]:
  "hw_trace (log_event e s) = hw_trace s @ [e]"
  "hw_trace (outb p v s) = hw_trace s @ [Out p v]"
  "hw_trace (invlpg a s) = hw_trace s @ [Invlpg a]"
  "hw_trace (set_cr3 a s) = hw_trace s @ [SetCr3 a]"
  "hw_trace (snd (inb dev p s)) = hw_trace s @ [In p (fst (inb dev p s))]"
  by (simp_all add: log_event_def outb_def invlpg_def set_cr3_def inb_def Let_def)

lemma fst_inb [simp]: "fst (inb dev p s) = dev (hw_trace s) p"
  by (simp add: inb_def Let_def)

lemma more_machine:
  assumes "vga.more t = vga.more (s :: 'a machine_scheme)"
  shows "hw_trace t = hw_trace s" "machine.more t = machine.more s"
  using assms by (cases s; cases t; simp)+

lemma fold_putchar_machine [simp]:
  "hw_trace (fold vga_putchar cs s) = hw_trace s"
  "machine.more (fold vga_putchar cs s) = machine.more s"
  by (rule more_machine, simp)+

text \<open>Printing does not touch what lies beyond the console.\<close>

lemma printk_frame:
  assumes "printk fmt args s = Inr t" "args_ok args"
  shows "hw_trace t = hw_trace s" "machine.more t = machine.more s"
  using assms by (auto simp: printk_def vprintk_format_out after_output_def)

lemma printk_returns:
  assumes "args_ok args" "\<And>g k. \<exists>r. format_out g k (map of_char fmt) args = Inr r"
  obtains t where "printk fmt args s = Inr t" "hw_trace t = hw_trace s"
    "machine.more t = machine.more s"
proof -
  obtain r where "format_out (stray s) (conversions s) (map of_char fmt) args = Inr r"
    using assms(2) by blast
  then have "printk fmt args s = Inr (after_output s r)"
    by (simp add: printk_def vprintk_format_out [OF assms(1)])
  then show thesis using that printk_frame [OF _ assms(1)] by blast
qed

lemma printk_plain_frame:
  assumes "CHR ''%'' \<notin> set fmt"
  obtains t where "printk fmt [] s = Inr t" "hw_trace t = hw_trace s"
    "machine.more t = machine.more s"
  using that [OF printk_plain [OF assms]] by simp

text \<open>The terminal is untouched by an interaction with the hardware.\<close>

lemma vga_inv_log [simp]:
  "vga_inv (log_event e s) = vga_inv s"
  "vga_inv (outb p v s) = vga_inv s"
  "vga_inv (snd (inb dev p s)) = vga_inv s"
  by (simp_all add: vga_inv_def log_event_def outb_def inb_def Let_def)

section \<open>Population count\<close>

definition popcntl :: "u32 \<Rightarrow> u32" where
  "popcntl v0 =
     (let v1 = (v0 AND 0x55555555) + drop_bit 1 (v0 AND 0xAAAAAAAA);
          v2 = (v1 AND 0x33333333) + drop_bit 2 (v1 AND 0xCCCCCCCC);
          v3 = (v2 AND 0x0F0F0F0F) + drop_bit 4 (v2 AND 0xF0F0F0F0);
          v4 = (v3 AND 0x00FF00FF) + drop_bit 8 (v3 AND 0xFF00FF00)
      in (v4 AND 0x0000FFFF) + drop_bit 16 (v4 AND 0xFFFF0000))"

text \<open>
  One round of the count adds neighbouring fields.  On numbers: \<open>fields w n v\<close> keeps the lower
  \<open>w\<close> bits of each of \<open>n\<close> fields of \<open>2 * w\<close> bits, and \<open>field_mask w n\<close> is the mask that does so.
\<close>

fun fields :: "nat \<Rightarrow> nat \<Rightarrow> nat \<Rightarrow> nat" where
  "fields w 0 v = 0"
| "fields w (Suc n) v = v mod 2 ^ w + 2 ^ (2 * w) * fields w n (v div 2 ^ (2 * w))"

fun field_mask :: "nat \<Rightarrow> nat \<Rightarrow> nat" where
  "field_mask w 0 = 0"
| "field_mask w (Suc n) = mask w + 2 ^ (2 * w) * field_mask w n"

fun digit_sum :: "nat \<Rightarrow> nat \<Rightarrow> nat \<Rightarrow> nat" where
  "digit_sum w 0 v = 0"
| "digit_sum w (Suc n) v = v mod 2 ^ w + digit_sum w n (v div 2 ^ w)"

lemma field_mask_and: "v AND field_mask w n = fields w n v"
proof (induction n arbitrary: v)
  case (Suc n)
  let ?k = "2 * w"
  have m: "mask w < (2 :: nat) ^ ?k" by (rule less_le_trans [OF mask_nat_less_exp]) simp
  have parts: "take_bit ?k (mask w + 2 ^ ?k * x) = mask w" "drop_bit ?k (mask w + 2 ^ ?k * x) = x" for x :: nat
    using m by (simp_all add: take_bit_eq_mod drop_bit_eq_div)
  have lo: "take_bit ?k (v AND field_mask w (Suc n)) = v mod 2 ^ w"
    unfolding field_mask.simps take_bit_and parts take_bit_eq_mask [symmetric]
    by (simp flip: take_bit_eq_mod)
  have "drop_bit ?k (v AND field_mask w (Suc n)) = fields w n (v div 2 ^ ?k)"
    unfolding field_mask.simps drop_bit_and parts Suc by (simp add: drop_bit_eq_div)
  then show ?case
    using lo bits_ident [of ?k "v AND field_mask w (Suc n)"] by (simp add: push_bit_eq_mult ac_simps)
qed simp

definition add_fields :: "nat \<Rightarrow> nat \<Rightarrow> nat \<Rightarrow> nat" where
  "add_fields w n v = fields w n v + fields w n (v div 2 ^ w)"

lemma add_fields_Suc:
  "add_fields w (Suc n) v =
     (v mod 2 ^ w + v div 2 ^ w mod 2 ^ w) + 2 ^ (2 * w) * add_fields w n (v div 2 ^ (2 * w))"
  by (simp add: add_fields_def algebra_simps div_mult2_eq flip: div_mult2_eq power_add)

lemma field_pair_less:
  fixes v :: nat
  assumes "0 < w" shows "v mod 2 ^ w + v div 2 ^ w mod 2 ^ w < 2 ^ (2 * w)"
proof -
  have "v mod 2 ^ w < 2 ^ w" "v div 2 ^ w mod 2 ^ w < 2 ^ w" by simp_all
  moreover have "(2 :: nat) ^ w * 2 \<le> 2 ^ w * 2 ^ w" using assms by (intro mult_le_mono) (cases w; simp)+
  ultimately show ?thesis unfolding mult_2 power_add by linarith
qed

lemma add_fields_less: "0 < w \<Longrightarrow> add_fields w n v < 2 ^ (2 * w * n)"
proof (induction n arbitrary: v)
  case (Suc n)
  have "2 ^ (2 * w) * (add_fields w n (v div 2 ^ (2 * w)) + 1) \<le> (2 :: nat) ^ (2 * w) * 2 ^ (2 * w * n)"
    using Suc by (intro mult_le_mono) (simp_all add: Suc_leI)
  then show ?case
    using field_pair_less [OF Suc.prems, of v] by (simp add: add_fields_Suc power_add)
qed (simp add: add_fields_def)

lemma digit_sum_add_fields: "0 < w \<Longrightarrow> digit_sum (2 * w) n (add_fields w n v) = digit_sum w (2 * n) v"
proof (induction n arbitrary: v)
  case (Suc n)
  let ?x = "v mod 2 ^ w + v div 2 ^ w mod 2 ^ w" and ?y = "add_fields w n (v div 2 ^ (2 * w))"
  have "(?x + 2 ^ (2 * w) * ?y) mod 2 ^ (2 * w) = ?x" "(?x + 2 ^ (2 * w) * ?y) div 2 ^ (2 * w) = ?y"
    using field_pair_less [OF Suc.prems, of v] by simp_all
  then show ?case
    using Suc.IH [OF Suc.prems, of "v div 2 ^ (2 * w)"]
    by (simp add: add_fields_Suc mult_2 power_add div_mult2_eq)
qed simp

lemma popcnt_round:
  fixes v m :: u32
  assumes "unat m = field_mask w n" "0 < w" "2 * w * n = 32"
  shows "unat ((v AND m) + drop_bit w (v AND push_bit w m)) = add_fields w n (unat v)"
proof -
  have "drop_bit w (v AND push_bit w m) = drop_bit w v AND m"
    by (rule bit_word_eqI) (auto simp: bit_simps dest: bit_imp_le_length)
  moreover have "unat (v AND m) = fields w n (unat v)" "unat (drop_bit w v AND m) = fields w n (unat v div 2 ^ w)"
    by (simp_all add: unsigned_and_eq assms(1) field_mask_and unat_drop_bit_eq drop_bit_eq_div [of w "unat v"])
  ultimately show ?thesis
    using add_fields_less [OF assms(2), of n "unat v"] assms(3) by (simp add: unat_word_ariths add_fields_def)
qed

lemma field_mask_closed: "field_mask w n * (2 ^ w + 1) + 1 = 2 ^ (2 * w * n)"
proof (induction n)
  case (Suc n)
  have "(mask w :: nat) * (2 ^ w + 1) + 1 = 2 ^ (2 * w)"
    by (simp add: mask_eq_exp_minus_1 algebra_simps flip: power_add mult_2)
  then have "field_mask w (Suc n) * (2 ^ w + 1) + 1 = 2 ^ (2 * w) * (field_mask w n * (2 ^ w + 1) + 1)"
    by (simp add: algebra_simps)
  then show ?case unfolding Suc by (simp flip: power_add)
qed simp

lemma field_masks:
  "field_mask 1 16 = 0x55555555" "field_mask 2 8 = 0x33333333" "field_mask 4 4 = 0x0F0F0F0F"
  "field_mask 8 2 = 0x00FF00FF" "field_mask 16 1 = 0x0000FFFF"
  using field_mask_closed [of 1 16] field_mask_closed [of 2 8] field_mask_closed [of 4 4]
    field_mask_closed [of 8 2] field_mask_closed [of 16 1] by simp_all

lemma digit_sum_bits: "digit_sum 1 n v = (\<Sum>i<n. of_bool (bit v i))"
proof (induction n arbitrary: v)
  case (Suc n)
  then show ?case by (simp add: sum.lessThan_Suc_shift bit_Suc bit_0 mod2_eq_if del: sum.lessThan_Suc)
qed simp

text \<open>\<open>popcntl\<close> counts the set bits of its argument, for all 32-bit values.\<close>

theorem popcntl_counts_bits: "unat (popcntl v) = card {i. i < 32 \<and> bit v i}"
proof -
  define v1 where "v1 = (v AND 0x55555555) + drop_bit 1 (v AND 0xAAAAAAAA)"
  define v2 where "v2 = (v1 AND 0x33333333) + drop_bit 2 (v1 AND 0xCCCCCCCC)"
  define v3 where "v3 = (v2 AND 0x0F0F0F0F) + drop_bit 4 (v2 AND 0xF0F0F0F0)"
  define v4 where "v4 = (v3 AND 0x00FF00FF) + drop_bit 8 (v3 AND 0xFF00FF00)"
  have p: "popcntl v = (v4 AND 0x0000FFFF) + drop_bit 16 (v4 AND 0xFFFF0000)"
    unfolding popcntl_def Let_def v4_def v3_def v2_def v1_def ..
  have "unat v1 = add_fields 1 16 (unat v)"
    unfolding v1_def using popcnt_round [of "0x55555555" 1 16 v] field_masks by simp
  moreover have "unat v2 = add_fields 2 8 (unat v1)"
    unfolding v2_def using popcnt_round [of "0x33333333" 2 8 v1] field_masks by simp
  moreover have "unat v3 = add_fields 4 4 (unat v2)"
    unfolding v3_def using popcnt_round [of "0x0F0F0F0F" 4 4 v2] field_masks by simp
  moreover have "unat v4 = add_fields 8 2 (unat v3)"
    unfolding v4_def using popcnt_round [of "0x00FF00FF" 8 2 v3] field_masks by simp
  moreover have "unat (popcntl v) = add_fields 16 1 (unat v4)"
    unfolding p using popcnt_round [of "0x0000FFFF" 16 1 v4] field_masks by simp
  ultimately have "digit_sum 32 1 (unat (popcntl v)) = digit_sum 1 32 (unat v)"
    using digit_sum_add_fields [of 1 16 "unat v"] digit_sum_add_fields [of 2 8 "unat v1"]
      digit_sum_add_fields [of 4 4 "unat v2"] digit_sum_add_fields [of 8 2 "unat v3"]
      digit_sum_add_fields [of 16 1 "unat v4"] by simp
  moreover have "digit_sum 32 1 (unat (popcntl v)) = unat (popcntl v)" using unsigned_less [of "popcntl v", where 'a = nat] by simp
  moreover have "digit_sum 1 32 (unat v) = (\<Sum>i<32. of_bool (bit v i))" unfolding digit_sum_bits by (simp add: bit_unsigned_iff)
  moreover have "(\<Sum>i<32. of_bool (bit v i)) = card {i. i < 32 \<and> bit v i}"
    by (simp add: lessThan_def Int_def)
  ultimately show ?thesis by simp
qed

end
