(* ===== verification/Interrupts.thy ===== *)
theory Interrupts
  imports Hw_Ports
begin

text \<open>
  Descriptor tables and interrupt plumbing: \<^verbatim>\<open>src/arch/x86_64/gdt.c\<close>, \<^verbatim>\<open>idt.c\<close>,
  \<^verbatim>\<open>pic.c\<close> and \<^verbatim>\<open>pit.c\<close>.  The entry stubs of \<^verbatim>\<open>irq.asm\<close> are in \<open>Irq_Entry\<close>; their
  addresses are the parameters \<open>isr_stub\<close> and \<open>irq_stub\<close>.  A handler is named by the C function
  it is; the dispatchers that call it are in \<open>Kmain\<close>, behind all handlers.
\<close>

section \<open>Global descriptor table\<close>

record gdt_entry =
  limit_low :: u16
  gdt_base_low :: u16
  base_middle :: u8
  access :: u8
  gdt_flags :: u8
  gdt_base_high :: u8

definition GDT_ENTRY :: "u32 \<Rightarrow> u32 \<Rightarrow> u32 \<Rightarrow> u32 \<Rightarrow> gdt_entry" where
  "GDT_ENTRY base limit acc flags =
     \<lparr>limit_low = ucast (limit AND 0xFFFF),
      gdt_base_low = ucast (base AND 0xFFFF),
      base_middle = ucast (drop_bit 16 base AND 0xFF),
      access = ucast (acc AND 0xFF),
      gdt_flags = ucast ((drop_bit 16 limit AND 0x0F) OR (push_bit 4 flags AND 0xF0)),
      gdt_base_high = ucast (drop_bit 24 base AND 0xFF)\<rparr>"

definition GDT :: "gdt_entry list" where
  "GDT =
     [GDT_ENTRY 0 0 0 0,
      GDT_ENTRY 0 0xFFFFFFFF 0x9A 0x0A,
      GDT_ENTRY 0 0xFFFFFFFF 0x92 0x0C,
      GDT_ENTRY 0 0xFFFFFFFF 0xFA 0x0A,
      GDT_ENTRY 0 0xFFFFFFFF 0xF2 0x0C]"

text \<open>\<open>sizeof(GDT) - 1\<close>, with 8 bytes for an entry.\<close>

definition GDTR_size :: u16 where
  "GDTR_size = of_nat (8 * length GDT - 1)"

text \<open>How the processor reads a descriptor.\<close>

definition segment_base :: "gdt_entry \<Rightarrow> u32" where
  "segment_base e = ucast (gdt_base_low e) OR push_bit 16 (ucast (base_middle e)) OR
     push_bit 24 (ucast (gdt_base_high e))"

definition segment_limit :: "gdt_entry \<Rightarrow> u32" where
  "segment_limit e = ucast (limit_low e) OR push_bit 16 (ucast (gdt_flags e) AND 0x0F)"

definition segment_attributes :: "gdt_entry \<Rightarrow> u8" where
  "segment_attributes e = drop_bit 4 (gdt_flags e)"

section \<open>Programmable interrupt controller and timer\<close>

abbreviation PIC1_COMMAND :: u64 where "PIC1_COMMAND \<equiv> 0x20"
abbreviation PIC1_DATA :: u64 where "PIC1_DATA \<equiv> 0x21"
abbreviation PIC2_COMMAND :: u64 where "PIC2_COMMAND \<equiv> 0xA0"
abbreviation PIC2_DATA :: u64 where "PIC2_DATA \<equiv> 0xA1"
abbreviation PIC_EOI :: u8 where "PIC_EOI \<equiv> 0x20"
abbreviation ICW1_ICW4 :: u8 where "ICW1_ICW4 \<equiv> 0x01"
abbreviation ICW1_INIT :: u8 where "ICW1_INIT \<equiv> 0x10"
abbreviation ICW4_8086 :: u8 where "ICW4_8086 \<equiv> 0x01"

definition pic_remap :: "'a machine_scheme \<Rightarrow> 'a machine_scheme" where
  "pic_remap s =
     (let s = outb PIC1_COMMAND (ICW1_INIT OR ICW1_ICW4) s;
          s = outb PIC2_COMMAND (ICW1_INIT OR ICW1_ICW4) s;
          s = outb PIC1_DATA 0x20 s;
          s = outb PIC2_DATA 0x28 s;
          s = outb PIC1_DATA 0x04 s;
          s = outb PIC2_DATA 0x02 s;
          s = outb PIC1_DATA ICW4_8086 s;
          s = outb PIC2_DATA ICW4_8086 s;
          s = outb PIC1_DATA 0x00 s;
          s = outb PIC2_DATA 0x00 s
      in s)"

definition irq_ack :: "u8 \<Rightarrow> 'a machine_scheme \<Rightarrow> 'a machine_scheme" where
  "irq_ack irq_no s =
     (let s = (if 8 \<le> irq_no then outb PIC2_COMMAND PIC_EOI s else s)
      in outb PIC1_COMMAND PIC_EOI s)"

abbreviation PIT_A :: u64 where "PIT_A \<equiv> 0x40"
abbreviation PIT_CONTROL :: u64 where "PIT_CONTROL \<equiv> 0x43"
abbreviation PIT_SET :: u8 where "PIT_SET \<equiv> 0x36"
abbreviation PIT_SCALE :: u64 where "PIT_SCALE \<equiv> 1193180"
abbreviation PIT_MASK :: u64 where "PIT_MASK \<equiv> 0xFF"
abbreviation TIMER_IRQ :: u8 where "TIMER_IRQ \<equiv> 0x20"

definition pit_set_timer_freq :: "u64 \<Rightarrow> 'a machine_scheme \<Rightarrow> 'a machine_scheme result" where
  "pit_set_timer_freq hz s =
     (if hz = 0 then Inl DivideError
      else let divisor = PIT_SCALE div hz;
               s = outb PIT_CONTROL PIT_SET s;
               s = outb PIT_A (ucast (divisor AND PIT_MASK)) s;
               s = outb PIT_A (ucast (drop_bit 8 divisor AND PIT_MASK)) s
           in Inr s)"

section \<open>Interrupt descriptor table\<close>

record idt_entry =
  base_low :: u16
  selector :: u16
  ist :: u8
  attrs :: u8
  base_mid :: u16
  base_high :: u32
  idt_res :: u32

datatype handler = Pit_interrupt | Kbd_int_handler | Page_fault_handler

record interrupts = machine +
  IDTR_size :: u16
  IDTR_base :: u64
  IDT :: "u8 \<Rightarrow> idt_entry"
  irq_handlers :: "u8 \<Rightarrow> handler option"

definition idt_set_gate ::
  "u8 \<Rightarrow> u64 \<Rightarrow> u16 \<Rightarrow> u8 \<Rightarrow> u8 \<Rightarrow> 'a interrupts_scheme \<Rightarrow> 'a interrupts_scheme" where
  "idt_set_gate idx base sel ist_no attributes s =
     s\<lparr>IDT := (IDT s)(idx :=
        (IDT s idx)\<lparr>base_low := ucast (base AND 0xFFFF),
                   base_mid := ucast (drop_bit 16 base AND 0xFFFF),
                   base_high := ucast (drop_bit 32 base AND 0xFFFFFFFF),
                   selector := sel,
                   ist := ist_no AND 0b111,
                   attrs := attributes\<rparr>)\<rparr>"

definition irq_set_handler :: "u8 \<Rightarrow> handler \<Rightarrow> 'a interrupts_scheme \<Rightarrow> 'a interrupts_scheme" where
  "irq_set_handler irq h s = s\<lparr>irq_handlers := (irq_handlers s)(irq := Some h)\<rparr>"

text \<open>
  \<open>isr_stub n\<close> and \<open>irq_stub n\<close> are the addresses of the assembly symbols \<open>isr<n>\<close> and
  \<open>irq<n>\<close>, \<open>idt_addr\<close> the address of the table.
\<close>

definition idt_init ::
  "(nat \<Rightarrow> u64) \<Rightarrow> (nat \<Rightarrow> u64) \<Rightarrow> u64 \<Rightarrow> 'a interrupts_scheme \<Rightarrow> 'a interrupts_scheme" where
  "idt_init isr_stub irq_stub idt_addr s =
     (let s = pic_remap s;
          s = s\<lparr>IDTR_size := 16 * 256 - 1\<rparr>;
          s = s\<lparr>IDTR_base := idt_addr\<rparr>;
          s = fold (\<lambda>n. idt_set_gate (of_nat n) (isr_stub n) 0x08 0 0x8E) [0..<32] s;
          s = fold (\<lambda>n. idt_set_gate (of_nat (32 + n)) (irq_stub n) 0x08 0 0x8E) [0..<16] s
      in log_event (Lidt (IDTR_size s) (IDTR_base s)) s)"

definition pit_init :: "'a interrupts_scheme \<Rightarrow> 'a interrupts_scheme result" where
  "pit_init s =
     (let s = irq_set_handler TIMER_IRQ Pit_interrupt s
      in pit_set_timer_freq 100 s)"

text \<open>How the processor reads a gate.\<close>

definition gate_offset :: "idt_entry \<Rightarrow> u64" where
  "gate_offset e = ucast (base_low e) OR push_bit 16 (ucast (base_mid e)) OR
     push_bit 32 (ucast (base_high e))"

section \<open>Encoding and decoding\<close>

lemma and_mask_8: "x AND 0xFF = take_bit 8 (x :: 'a::len word)"
proof -
  have "(0xFF :: 'a word) = mask 8" by (simp add: mask_eq_exp_minus_1)
  then show ?thesis by (simp add: take_bit_eq_mask)
qed

lemma and_mask_16: "x AND 0xFFFF = take_bit 16 (x :: 'a::len word)"
proof -
  have "(0xFFFF :: 'a word) = mask 16" by (simp add: mask_eq_exp_minus_1)
  then show ?thesis by (simp add: take_bit_eq_mask)
qed

lemma and_mask_32: "x AND 0xFFFFFFFF = take_bit 32 (x :: 'a::len word)"
proof -
  have "(0xFFFFFFFF :: 'a word) = mask 32" by (simp add: mask_eq_exp_minus_1)
  then show ?thesis by (simp add: take_bit_eq_mask)
qed

lemma and_mask_4: "x AND 0xF = take_bit 4 (x :: 'a::len word)"
proof -
  have "(0xF :: 'a word) = mask 4" by (simp add: mask_eq_exp_minus_1)
  then show ?thesis by (simp add: take_bit_eq_mask)
qed

lemma and_high_nibble: "push_bit 4 x AND 0xF0 = push_bit 4 (take_bit 4 (x :: u32))"
proof -
  have "(0xF0 :: u32) = push_bit 4 (mask 4)" by (simp add: mask_eq_exp_minus_1 push_bit_eq_mult)
  then have "push_bit 4 x AND 0xF0 = push_bit 4 x AND push_bit 4 (mask 4)" by simp
  also have "\<dots> = push_bit 4 (x AND mask 4)" by (simp only: push_bit_and)
  finally show ?thesis by (simp only: take_bit_eq_mask)
qed

lemma unat_low_byte: "unat (ucast (x AND 0xFF) :: u8) = unat (x :: u64) mod 256"
proof -
  have "(ucast (x AND 0xFF) :: u8) = ucast x"
    unfolding and_mask_8 by (auto intro!: bit_word_eqI simp: bit_simps)
  then show ?thesis by (simp add: unsigned_ucast_eq) (simp add: take_bit_eq_mod)
qed

lemma gate_offset_set_gate:
  "gate_offset (IDT (idt_set_gate idx base sel i a s) idx) = base"
proof (rule bit_word_eqI)
  fix n assume "n < LENGTH(64)"
  then show "bit (gate_offset (IDT (idt_set_gate idx base sel i a s) idx)) n = bit base n"
    unfolding gate_offset_def idt_set_gate_def and_mask_16 and_mask_32
    by (cases "n < 16"; cases "n < 32") (auto simp: bit_simps)
qed

lemma idt_set_gate_other [simp]:
  "j \<noteq> idx \<Longrightarrow> IDT (idt_set_gate idx base sel i a s) j = IDT s j"
  by (simp add: idt_set_gate_def)

lemma idt_set_gate_fields [simp]:
  "selector (IDT (idt_set_gate idx base sel i a s) idx) = sel"
  "ist (IDT (idt_set_gate idx base sel i a s) idx) = i AND 7"
  "attrs (IDT (idt_set_gate idx base sel i a s) idx) = a"
  "hw_trace (idt_set_gate idx base sel i a s) = hw_trace s"
  "IDTR_size (idt_set_gate idx base sel i a s) = IDTR_size s"
  "IDTR_base (idt_set_gate idx base sel i a s) = IDTR_base s"
  "irq_handlers (idt_set_gate idx base sel i a s) = irq_handlers s"
  by (simp_all add: idt_set_gate_def)

text \<open>A gate that leads to \<open>addr\<close> in the kernel code segment, present, for interrupts.\<close>

definition kernel_gate :: "u64 \<Rightarrow> idt_entry \<Rightarrow> bool" where
  "kernel_gate addr e \<longleftrightarrow> gate_offset e = addr \<and> selector e = 0x08 \<and> ist e = 0 \<and> attrs e = 0x8E"

lemma of_nat_u8_inj: "a < 256 \<Longrightarrow> b < 256 \<Longrightarrow> (of_nat a :: u8) = of_nat b \<longleftrightarrow> a = b"
  by (metis unat_of_nat_8)

definition set_gates :: "nat \<Rightarrow> (nat \<Rightarrow> u64) \<Rightarrow> nat \<Rightarrow> 'a interrupts_scheme \<Rightarrow> 'a interrupts_scheme" where
  "set_gates b stub k = fold (\<lambda>n. idt_set_gate (of_nat (b + n)) (stub n) 0x08 0 0x8E) [0..<k]"

lemma set_gates_simps [simp]:
  "set_gates b stub 0 s = s"
  "set_gates b stub (Suc k) s =
     idt_set_gate (of_nat (b + k)) (stub k) 0x08 0 0x8E (set_gates b stub k s)"
  by (simp_all add: set_gates_def)

lemma set_gates_frame [simp]:
  "hw_trace (set_gates b stub k s) = hw_trace s"
  "IDTR_size (set_gates b stub k s) = IDTR_size s"
  "IDTR_base (set_gates b stub k s) = IDTR_base s"
  "irq_handlers (set_gates b stub k s) = irq_handlers s"
  by (induction k) simp_all

lemma set_gates_outside:
  "\<lbrakk> b + k \<le> 256; j < b \<or> b + k \<le> j; j < 256 \<rbrakk> \<Longrightarrow>
     IDT (set_gates b stub k s) (of_nat j) = IDT s (of_nat j)"
proof (induction k)
  case (Suc k)
  then have "(of_nat j :: u8) \<noteq> of_nat (b + k)" by (subst of_nat_u8_inj) auto
  then show ?case using Suc by auto
qed simp

lemma set_gates_inside:
  "\<lbrakk> b + k \<le> 256; b \<le> j; j < b + k \<rbrakk> \<Longrightarrow>
     kernel_gate (stub (j - b)) (IDT (set_gates b stub k s) (of_nat j))"
proof (induction k)
  case (Suc k)
  show ?case
  proof (cases "j = b + k")
    case True
    then show ?thesis by (simp add: kernel_gate_def gate_offset_set_gate del: of_nat_add)
  next
    case False
    then have "(of_nat j :: u8) \<noteq> of_nat (b + k)" using Suc.prems by (subst of_nat_u8_inj) auto
    then show ?thesis using Suc False by simp
  qed
qed simp

lemma pic_remap_frame [simp]:
  "IDT (pic_remap s) = IDT s" "irq_handlers (pic_remap s) = irq_handlers s"
  by (simp_all add: pic_remap_def outb_def log_event_def Let_def)

lemma idt_init_set_gates:
  "idt_init isr_stub irq_stub a s =
     log_event (Lidt 4095 a)
       (set_gates 32 irq_stub 16 (set_gates 0 isr_stub 32 ((pic_remap s)\<lparr>IDTR_size := 4095, IDTR_base := a\<rparr>)))"
proof -
  let ?t = "set_gates 32 irq_stub 16
      (set_gates 0 isr_stub 32 ((pic_remap s)\<lparr>IDTR_size := 4095, IDTR_base := a\<rparr>))"
  have "IDTR_size ?t = 4095" "IDTR_base ?t = a" by simp_all
  then show ?thesis by (simp add: idt_init_def set_gates_def Let_def)
qed

lemma IDT_log [simp]: "IDT (log_event e s) = IDT s"
  by (simp_all add: log_event_def)

lemma idt_gates:
  assumes "n < 256"
  shows "n < 32 \<Longrightarrow> kernel_gate (isr_stub n) (IDT (idt_init isr_stub irq_stub a s) (of_nat n))"
    and "32 \<le> n \<Longrightarrow> n < 48 \<Longrightarrow> kernel_gate (irq_stub (n - 32)) (IDT (idt_init isr_stub irq_stub a s) (of_nat n))"
    and "48 \<le> n \<Longrightarrow> IDT (idt_init isr_stub irq_stub a s) (of_nat n) = IDT s (of_nat n)"
proof -
  assume "n < 32"
  then have "kernel_gate (isr_stub (n - 0))
      (IDT (set_gates 0 isr_stub 32 ((pic_remap s)\<lparr>IDTR_size := 4095, IDTR_base := a\<rparr>)) (of_nat n))"
    by (intro set_gates_inside) auto
  then show "kernel_gate (isr_stub n) (IDT (idt_init isr_stub irq_stub a s) (of_nat n))"
    using \<open>n < 32\<close> by (simp add: idt_init_set_gates set_gates_outside)
next
  assume "32 \<le> n" "n < 48"
  then show "kernel_gate (irq_stub (n - 32)) (IDT (idt_init isr_stub irq_stub a s) (of_nat n))"
    by (simp add: idt_init_set_gates set_gates_inside)
next
  assume "48 \<le> n"
  then show "IDT (idt_init isr_stub irq_stub a s) (of_nat n) = IDT s (of_nat n)"
    using assms by (simp add: idt_init_set_gates set_gates_outside)
qed

section \<open>Properties\<close>

text \<open>
  the descriptor macro loses nothing but the top bits it has no room for: the processor
  reads back the base as given, the limit's low 20 bits, the access byte's low 8 bits and the
  low 4 flag bits.
\<close>

theorem gdt_entry_roundtrip:
  "segment_base (GDT_ENTRY base limit acc flags) = base \<and>
   segment_limit (GDT_ENTRY base limit acc flags) = take_bit 20 limit \<and>
   access (GDT_ENTRY base limit acc flags) = ucast acc \<and>
   segment_attributes (GDT_ENTRY base limit acc flags) = take_bit 4 (ucast flags)"
proof (intro conjI)
  show "segment_base (GDT_ENTRY base limit acc flags) = base"
  proof (rule bit_word_eqI)
    fix n assume "n < LENGTH(32)"
    then show "bit (segment_base (GDT_ENTRY base limit acc flags)) n = bit base n"
      unfolding segment_base_def GDT_ENTRY_def and_mask_16 and_mask_8
      by (cases "n < 16"; cases "n < 24") (auto simp: bit_simps)
  qed
  show "segment_limit (GDT_ENTRY base limit acc flags) = take_bit 20 limit"
  proof (rule bit_word_eqI)
    fix n assume "n < LENGTH(32)"
    then show "bit (segment_limit (GDT_ENTRY base limit acc flags)) n = bit (take_bit 20 limit) n"
      unfolding segment_limit_def GDT_ENTRY_def and_mask_16 and_mask_4 and_high_nibble
      by (cases "n < 16"; cases "n < 20") (auto simp: bit_simps)
  qed
  show "access (GDT_ENTRY base limit acc flags) = ucast acc"
    unfolding GDT_ENTRY_def and_mask_8 by (auto intro!: bit_word_eqI simp: bit_simps)
  show "segment_attributes (GDT_ENTRY base limit acc flags) = take_bit 4 (ucast flags)"
  proof (rule bit_word_eqI)
    fix n assume "n < LENGTH(8)"
    then show "bit (segment_attributes (GDT_ENTRY base limit acc flags)) n =
        bit (take_bit 4 (ucast flags :: u8)) n"
      unfolding segment_attributes_def GDT_ENTRY_def and_mask_4 and_high_nibble
      by (cases "n < 4") (auto simp: bit_simps)
  qed
qed

text \<open>
  After \<open>idt_init\<close> every exception vector leads to its own exception stub and every
  hardware interrupt line to its own interrupt stub, as present interrupt gates of the kernel
  code segment; the other vectors and the handler table are left as they were; the interrupt
  controllers have been told to use vectors 32 to 47 before the table is loaded, and the
  loaded limit covers all 256 entries.
\<close>

lemma idt_init_gates:
  assumes "n < 256"
  shows "(n < 32 \<longrightarrow> kernel_gate (isr_stub n) (IDT (idt_init isr_stub irq_stub a s) (of_nat n)))
    \<and> (32 \<le> n \<and> n < 48 \<longrightarrow>
        kernel_gate (irq_stub (n - 32)) (IDT (idt_init isr_stub irq_stub a s) (of_nat n)))
    \<and> (48 \<le> n \<longrightarrow> IDT (idt_init isr_stub irq_stub a s) (of_nat n) = IDT s (of_nat n))
    \<and> irq_handlers (idt_init isr_stub irq_stub a s) = irq_handlers s
    \<and> hw_trace (idt_init isr_stub irq_stub a s) =
        hw_trace s @ map (\<lambda>(p, v). Out p v)
          [(0x20, 0x11), (0xA0, 0x11), (0x21, 0x20), (0xA1, 0x28), (0x21, 0x04), (0xA1, 0x02),
           (0x21, 0x01), (0xA1, 0x01), (0x21, 0), (0xA1, 0)] @ [Lidt (16 * 256 - 1) a]"
  using idt_gates [OF assms]
  by (auto simp: idt_init_set_gates pic_remap_def Let_def log_event_def outb_def)

definition blank_idt :: "u8 \<Rightarrow> idt_entry" where
  "blank_idt n = \<lparr>base_low = 0, selector = 0, ist = 0, attrs = 0, base_mid = 0, base_high = 0, idt_res = 0\<rparr>"

definition boot_interrupts :: interrupts where
  "boot_interrupts =
     \<lparr>vga_row = 0, vga_column = 0, vga_color = 7, vga_buffer = (\<lambda>_. 0), conversions = 0,
      stack_at = (\<lambda>_ _. 0), str_addr = (\<lambda>_. 100), hw_trace = [], IDTR_size = 0, IDTR_base = 0,
      IDT = blank_idt, irq_handlers = (\<lambda>_. None)\<rparr>"

lemma idt_init_gates_witness:
  "kernel_gate 0x100050 (IDT (idt_init (\<lambda>n. 0x100000 + 16 * of_nat n) (\<lambda>n. 0x200000 + 16 * of_nat n)
     0x5000 boot_interrupts) 5)"
  using idt_init_gates [where n = 5 and isr_stub = "\<lambda>n. 0x100000 + 16 * of_nat n"
      and irq_stub = "\<lambda>n. 0x200000 + 16 * of_nat n" and a = "0x5000" and s = boot_interrupts] by simp

text \<open>
  An acknowledgement reaches every controller that has to see it: the master always, the
  slave before it exactly for lines 8 and up, and nothing else is written.
\<close>

theorem irq_ack_eois:
  "outs (hw_trace (irq_ack irq_no s)) =
     outs (hw_trace s) @ (if 8 \<le> irq_no then [(0xA0, 0x20)] else []) @ [(0x20, 0x20)]"
  by (simp add: irq_ack_def Let_def)

text \<open>
  for every frequency from 19 Hz up the two bytes sent to the timer recombine to the
  divisor \<open>1193180 div hz\<close>, after the mode byte; below that the divisor does not fit 16 bits
  and only its low half arrives; a frequency of zero is a division fault.
\<close>

theorem pit_set_timer_freq_divisor:
  assumes "0 < hz"
  shows "\<exists>s' lo hi. pit_set_timer_freq hz s = Inr s' \<and>
     hw_trace s' = hw_trace s @ [Out 0x43 0x36, Out 0x40 lo, Out 0x40 hi] \<and>
     unat lo + 256 * unat hi = (1193180 div unat hz) mod 65536 \<and>
     (19 \<le> hz \<longrightarrow> unat lo + 256 * unat hi = 1193180 div unat hz)"
proof -
  let ?d = "(1193180 :: u64) div hz"
  have d: "unat ?d = 1193180 div unat hz" by (simp add: unat_div)
  have lo: "unat (ucast (?d AND 0xFF) :: u8) = unat ?d mod 256" by (rule unat_low_byte)
  have hi: "unat (ucast (drop_bit 8 ?d AND 0xFF) :: u8) = unat ?d div 256 mod 256"
    unfolding unat_low_byte unat_drop_bit_eq by (simp add: drop_bit_eq_div)
  have sum: "unat ?d mod 256 + 256 * (unat ?d div 256 mod 256) = unat ?d mod 65536"
    using mod_mult2_eq [of "unat ?d" 256 256] by simp
  have small: "1193180 div unat hz < 65536" if "19 \<le> hz"
  proof -
    have "19 \<le> unat hz" using that by (simp add: word_le_nat_alt)
    then have "1193180 div unat hz \<le> 1193180 div 19" by (rule div_le_mono2 [rotated]) simp
    then show ?thesis by simp
  qed
  show ?thesis using assms small d lo hi sum
    by (auto simp: pit_set_timer_freq_def Let_def)
qed

theorem pit_set_timer_freq_divisor_witness:
  "\<exists>s' lo hi. pit_set_timer_freq 100 boot_interrupts = Inr s' \<and>
     hw_trace s' = [Out 0x43 0x36, Out 0x40 lo, Out 0x40 hi] \<and> unat lo + 256 * unat hi = 11931"
proof -
  have "hw_trace boot_interrupts = []" by (simp add: boot_interrupts_def)
  then show ?thesis using pit_set_timer_freq_divisor [of 100 boot_interrupts] by auto
qed

end
