(* ===== verification/Descriptors.thy ===== *)
theory Descriptors
  imports Interrupts
begin

text \<open>
  What the bits of segment and gate descriptors mean: the bit-fields of \<^verbatim>\<open>src/arch/x86_64/gdt.c\<close>,
  \<^verbatim>\<open>src/include/arch/x86_64/idt.h\<close> and \<^verbatim>\<open>segment_selector.h\<close>, and the segment registers with the
  routine of \<^verbatim>\<open>gdt_load.asm\<close> that reloads them; no code calls it, the registers of the running kernel are
  those the boot code sets (theory \<open>Boot\<close>).  Bit-fields are allocated from the lowest bit.
\<close>

section \<open>Bit-fields\<close>

text \<open>\<open>union gdt_access\<close>.\<close>

definition access_accessed :: "u8 \<Rightarrow> bool" where "access_accessed a = bit a 0"
definition access_rw :: "u8 \<Rightarrow> bool" where "access_rw a = bit a 1"
definition access_dc :: "u8 \<Rightarrow> bool" where "access_dc a = bit a 2"
definition access_exec :: "u8 \<Rightarrow> bool" where "access_exec a = bit a 3"
definition access_type :: "u8 \<Rightarrow> bool" where "access_type a = bit a 4"
definition access_dpl :: "u8 \<Rightarrow> u8" where "access_dpl a = take_bit 2 (drop_bit 5 a)"
definition access_present :: "u8 \<Rightarrow> bool" where "access_present a = bit a 7"

text \<open>\<open>union gdt_flags\<close>.\<close>

definition flags_limit_high :: "u8 \<Rightarrow> u8" where "flags_limit_high f = take_bit 4 f"
definition flags_available :: "u8 \<Rightarrow> bool" where "flags_available f = bit f 4"
definition flags_long_mode :: "u8 \<Rightarrow> bool" where "flags_long_mode f = bit f 5"
definition flags_db :: "u8 \<Rightarrow> bool" where "flags_db f = bit f 6"
definition flags_granularity :: "u8 \<Rightarrow> bool" where "flags_granularity f = bit f 7"

text \<open>\<open>union idt_attributes\<close>.\<close>

definition gate_type :: "u8 \<Rightarrow> u8" where "gate_type a = take_bit 4 a"
definition gate_zero :: "u8 \<Rightarrow> bool" where "gate_zero a = bit a 4"
definition gate_dpa :: "u8 \<Rightarrow> u8" where "gate_dpa a = take_bit 2 (drop_bit 5 a)"
definition gate_present :: "u8 \<Rightarrow> bool" where "gate_present a = bit a 7"

text \<open>\<open>union segment_selector\<close>.\<close>

definition selector_rpl :: "u16 \<Rightarrow> u16" where "selector_rpl s = take_bit 2 s"
definition selector_ti :: "u16 \<Rightarrow> bool" where "selector_ti s = bit s 2"
definition selector_idx :: "u16 \<Rightarrow> u16" where "selector_idx s = drop_bit 3 s"

section \<open>Loading the segment registers\<close>

record segments =
  seg_cs :: u16
  seg_ds :: u16
  seg_es :: u16
  seg_fs :: u16
  seg_gs :: u16
  seg_ss :: u16

text \<open>\<open>retfq\<close> in \<open>reload_segments\<close> takes the code segment from the stack.\<close>

definition reload_segments :: "segments \<Rightarrow> segments" where
  "reload_segments s =
     (let s = s\<lparr>seg_cs := 0x08\<rparr>;
          ax = 0x10;
          s = s\<lparr>seg_ds := ax\<rparr>;
          s = s\<lparr>seg_es := ax\<rparr>;
          s = s\<lparr>seg_fs := ax\<rparr>;
          s = s\<lparr>seg_gs := ax\<rparr>
      in s\<lparr>seg_ss := ax\<rparr>)"

section \<open>Kinds of descriptors\<close>

text \<open>The entry of the global table that a selector names, if it names one that is present.\<close>

definition selected :: "u16 \<Rightarrow> gdt_entry option" where
  "selected s =
     (if \<not> selector_ti s \<and> unat (selector_idx s) < length GDT \<and> 8 * unat (selector_idx s) + 7 \<le> unat GDTR_size \<and>
         access_present (access (GDT ! unat (selector_idx s)))
      then Some (GDT ! unat (selector_idx s)) else None)"

text \<open>The whole of the 32-bit address space, at privilege level \<open>dpl\<close>.\<close>

definition flat_segment :: "u8 \<Rightarrow> gdt_entry \<Rightarrow> bool" where
  "flat_segment dpl e \<longleftrightarrow> access_present (access e) \<and> access_type (access e) \<and> access_dpl (access e) = dpl \<and>
     access_rw (access e) \<and> \<not> access_dc (access e) \<and> \<not> access_accessed (access e) \<and>
     segment_base e = 0 \<and> segment_limit e = 0xFFFFF \<and> flags_granularity (gdt_flags e) \<and>
     \<not> flags_available (gdt_flags e) \<and> flags_limit_high (gdt_flags e) = 0xF"

text \<open>A long-mode code segment has the size flag clear.\<close>

definition code_segment :: "u8 \<Rightarrow> gdt_entry \<Rightarrow> bool" where
  "code_segment dpl e \<longleftrightarrow> flat_segment dpl e \<and> access_exec (access e) \<and> flags_long_mode (gdt_flags e) \<and>
     \<not> flags_db (gdt_flags e)"

definition data_segment :: "u8 \<Rightarrow> gdt_entry \<Rightarrow> bool" where
  "data_segment dpl e \<longleftrightarrow> flat_segment dpl e \<and> \<not> access_exec (access e) \<and> \<not> flags_long_mode (gdt_flags e) \<and>
     flags_db (gdt_flags e)"

text \<open>A present 64-bit interrupt gate that only the kernel may call.\<close>

definition interrupt_gate :: "idt_entry \<Rightarrow> bool" where
  "interrupt_gate e \<longleftrightarrow> gate_present (attrs e) \<and> gate_type (attrs e) = 0xE \<and> \<not> gate_zero (attrs e) \<and>
     gate_dpa (attrs e) = 0 \<and> ist e = 0"

lemma kernel_gate_interrupt: "kernel_gate addr e \<Longrightarrow> interrupt_gate e \<and> selector e = 0x08 \<and> gate_offset e = addr"
  by (simp add: kernel_gate_def interrupt_gate_def gate_present_def gate_type_def gate_zero_def gate_dpa_def)

lemmas descriptor_bits = access_accessed_def access_rw_def access_dc_def access_exec_def access_type_def
  access_dpl_def access_present_def flags_limit_high_def flags_available_def flags_long_mode_def flags_db_def
  flags_granularity_def segment_base_def segment_limit_def

lemma segment_kinds:
  "code_segment 0 (GDT_ENTRY 0 0xFFFFFFFF 0x9A 0x0A)" "data_segment 0 (GDT_ENTRY 0 0xFFFFFFFF 0x92 0x0C)"
  "code_segment 3 (GDT_ENTRY 0 0xFFFFFFFF 0xFA 0x0A)" "data_segment 3 (GDT_ENTRY 0 0xFFFFFFFF 0xF2 0x0C)"
  "\<not> access_present (access (GDT_ENTRY 0 0 0 0))"
  by (simp_all add: code_segment_def data_segment_def flat_segment_def descriptor_bits GDT_ENTRY_def)

text \<open>The entries of the table the selectors name.\<close>

lemma selected_entries:
  "selected 0 = None" "selected 0x08 = Some (GDT ! 1)" "selected 0x10 = Some (GDT ! 2)"
  "selected 0x18 = Some (GDT ! 3)" "selected 0x20 = Some (GDT ! 4)"
  by (simp_all add: selected_def selector_ti_def selector_idx_def GDT_def GDTR_size_def access_present_def GDT_ENTRY_def)

lemma GDT_kinds:
  "code_segment 0 (GDT ! 1)" "data_segment 0 (GDT ! 2)" "code_segment 3 (GDT ! 3)" "data_segment 3 (GDT ! 4)"
  using segment_kinds by (simp_all add: GDT_def)

lemma reload_segments_kernel:
  "selected (seg_cs (reload_segments sr)) = Some (GDT ! 1)"
  "g \<in> {seg_ds, seg_es, seg_fs, seg_gs, seg_ss} \<Longrightarrow> selected (g (reload_segments sr)) = Some (GDT ! 2)"
  using selected_entries by (auto simp: reload_segments_def Let_def)

text \<open>
  C16: The descriptor tables are well typed.  The null selector names nothing; 0x08 and 0x18 name flat
  64-bit code segments and 0x10 and 0x20 flat writable data segments, the first pair for the
  kernel, the second for privilege level 3; no selector with an index above 4 names a segment.  After
  \<open>idt_init\<close> each of the 48 vectors of the exceptions and of the hardware interrupt lines has a present
  interrupt gate for the kernel only, which leads into the kernel's code segment; the other 208
  entries are as they were before.
\<close>

theorem descriptor_tables_typed:
  "selected 0 = None \<and>
   (\<exists>kc kd uc ud. map selected [0x08, 0x10, 0x18, 0x20] = map Some [kc, kd, uc, ud] \<and>
     code_segment 0 kc \<and> data_segment 0 kd \<and> code_segment 3 uc \<and> data_segment 3 ud \<and>
     (n < 48 \<longrightarrow> (let e = IDT (idt_init isr_stub irq_stub a s) (of_nat n) in
       interrupt_gate e \<and> selected (selector e) = Some kc))) \<and>
   (\<forall>sel. 5 \<le> selector_idx sel \<longrightarrow> selected sel = None) \<and>
   (48 \<le> k \<and> k < 256 \<longrightarrow> IDT (idt_init isr_stub irq_stub a s) (of_nat k) = IDT s (of_nat k))"
proof -
  have "interrupt_gate (IDT (idt_init isr_stub irq_stub a s) (of_nat n)) \<and>
      selector (IDT (idt_init isr_stub irq_stub a s) (of_nat n)) = 0x08" if "n < 48"
  proof -
    have "\<exists>addr. kernel_gate addr (IDT (idt_init isr_stub irq_stub a s) (of_nat n))"
      using that idt_gates [where n = n and isr_stub = isr_stub and irq_stub = irq_stub and a = a and s = s] by (cases "n < 32") auto
    then show ?thesis using kernel_gate_interrupt by blast
  qed
  moreover have "selected sel = None" if "5 \<le> selector_idx sel" for sel
    using that by (simp add: selected_def GDT_def word_le_nat_alt)
  moreover have "IDT (idt_init isr_stub irq_stub a s) (of_nat k) = IDT s (of_nat k)" if "48 \<le> k \<and> k < 256"
    using that by (intro idt_gates(3)) auto
  ultimately show ?thesis using selected_entries GDT_kinds by (simp add: Let_def)
qed

text \<open>The keyboard's vector, and one that \<open>idt_init\<close> leaves alone, in a table built from an empty one.\<close>

theorem descriptor_tables_typed_witness:
  "interrupt_gate (IDT (idt_init (\<lambda>n. 0x100000 + of_nat n) (\<lambda>n. 0x200000 + of_nat n) 0x5000 boot_interrupts) 33) \<and>
   IDT (idt_init (\<lambda>n. 0x100000 + of_nat n) (\<lambda>n. 0x200000 + of_nat n) 0x5000 boot_interrupts) 128 = blank_idt 128 \<and>
   (\<exists>kc. selected 0x08 = Some kc \<and> code_segment 0 kc) \<and> selected 0x28 = None"
  using descriptor_tables_typed [where n = 33 and k = 128 and isr_stub = "\<lambda>n. 0x100000 + of_nat n" and a = "0x5000"
      and irq_stub = "\<lambda>n. 0x200000 + of_nat n" and s = boot_interrupts]
  by (auto simp: Let_def selector_idx_def boot_interrupts_def)

end
