(* ===== verification/Ps2_Controller.thy ===== *)
theory Ps2_Controller
  imports Interrupts
begin

text \<open>
  The 8042 PS/2 controller driver, \<^verbatim>\<open>src/kernel/ps2_8042.c\<close>: the bounded waits on the
  status register, the command and data primitives built on them and the initialisation
  sequence.  Bit-fields of the status and configuration unions are bits of the byte, least
  significant first.  The interrupt handler is in the theory of the keyboard driver it calls.
\<close>

section \<open>Registers and commands\<close>

abbreviation DATA_PORT :: u64 where "DATA_PORT \<equiv> 0x60"
abbreviation COMMAND_REG :: u64 where "COMMAND_REG \<equiv> 0x64"
abbreviation STATUS_REG :: u64 where "STATUS_REG \<equiv> 0x64"
abbreviation KBD_IRQ :: u8 where "KBD_IRQ \<equiv> 0x21"

abbreviation COMMAND_GET_CONFIG :: u8 where "COMMAND_GET_CONFIG \<equiv> 0x20"
abbreviation COMMAND_SET_CONFIG :: u8 where "COMMAND_SET_CONFIG \<equiv> 0x60"
abbreviation COMMAND_TEST :: u8 where "COMMAND_TEST \<equiv> 0xAA"
abbreviation COMMAND_PORT1_ENABLE :: u8 where "COMMAND_PORT1_ENABLE \<equiv> 0xAE"
abbreviation COMMAND_PORT1_DISABLE :: u8 where "COMMAND_PORT1_DISABLE \<equiv> 0xAD"
abbreviation COMMAND_PORT2_ENABLE :: u8 where "COMMAND_PORT2_ENABLE \<equiv> 0xA8"
abbreviation COMMAND_PORT2_DISABLE :: u8 where "COMMAND_PORT2_DISABLE \<equiv> 0xA7"
abbreviation COMMAND_SEND_NEXT_PORT2 :: u8 where "COMMAND_SEND_NEXT_PORT2 \<equiv> 0xD4"
abbreviation CONTROLLER_TEST_OK :: u8 where "CONTROLLER_TEST_OK \<equiv> 0x55"

definition output_full :: "u8 \<Rightarrow> bool" where "output_full st = bit st 0"
definition input_full :: "u8 \<Rightarrow> bool" where "input_full st = bit st 1"

section \<open>Bounded waits\<close>

text \<open>
  The loop of both waits.  The decrement is part of the condition: it happens, and wraps,
  also on the test that ends the loop.
\<close>

function wait_loop ::
  "device \<Rightarrow> (u8 \<Rightarrow> bool) \<Rightarrow> u8 \<Rightarrow> u64 \<Rightarrow> 'a machine_scheme \<Rightarrow> u64 \<times> 'a machine_scheme" where
  "wait_loop dev busy st timeout s =
     (if busy st then
        (if 0 < timeout then
           (let (st, s) = inb dev STATUS_REG s in wait_loop dev busy st (timeout - 1) s)
         else (timeout - 1, s))
      else (timeout, s))"
  by pat_completeness auto
termination
  by (relation "measure (\<lambda>(dev, busy, st, timeout, s). unat timeout)")
    (auto simp: unat_minus_one word_gt_0 unat_gt_0)

declare wait_loop.simps [simp del]

definition wait_input_buf :: "device \<Rightarrow> 'a machine_scheme \<Rightarrow> u8 \<times> 'a machine_scheme" where
  "wait_input_buf dev s =
     (let (st, s) = inb dev STATUS_REG s;
          (timeout, s) = wait_loop dev input_full st 64 s
      in (if timeout = 0 then 1 else 0, s))"

definition wait_output_buf :: "device \<Rightarrow> 'a machine_scheme \<Rightarrow> u8 \<times> 'a machine_scheme" where
  "wait_output_buf dev s =
     (let (st, s) = inb dev STATUS_REG s;
          (timeout, s) = wait_loop dev (\<lambda>st. \<not> output_full st) st 64 s
      in (if timeout = 0 then 1 else 0, s))"

section \<open>Primitives\<close>

definition ps2_data_read :: "device \<Rightarrow> 'a machine_scheme \<Rightarrow> u8 \<times> 'a machine_scheme" where
  "ps2_data_read dev s = inb dev DATA_PORT (snd (wait_output_buf dev s))"

definition ps2_write :: "device \<Rightarrow> u8 \<Rightarrow> 'a machine_scheme \<Rightarrow> 'a machine_scheme" where
  "ps2_write dev data s = outb DATA_PORT data (snd (wait_input_buf dev s))"

definition ps2_command :: "device \<Rightarrow> u8 \<Rightarrow> 'a machine_scheme \<Rightarrow> 'a machine_scheme" where
  "ps2_command dev command s = outb COMMAND_REG command (snd (wait_input_buf dev s))"

definition ps2_command_arg :: "device \<Rightarrow> u8 \<Rightarrow> u8 \<Rightarrow> 'a machine_scheme \<Rightarrow> 'a machine_scheme" where
  "ps2_command_arg dev command arg s =
     ps2_write dev arg (outb COMMAND_REG command (snd (wait_input_buf dev s)))"

definition ps2_command_resp :: "device \<Rightarrow> u8 \<Rightarrow> 'a machine_scheme \<Rightarrow> u8 \<times> 'a machine_scheme" where
  "ps2_command_resp dev command s =
     ps2_data_read dev (outb COMMAND_REG command (snd (wait_input_buf dev s)))"

definition ps2_port1_write :: "device \<Rightarrow> u8 \<Rightarrow> 'a machine_scheme \<Rightarrow> 'a machine_scheme" where
  "ps2_port1_write dev data s = ps2_write dev data s"

definition ps2_port1_disable :: "device \<Rightarrow> 'a machine_scheme \<Rightarrow> 'a machine_scheme" where
  "ps2_port1_disable dev s = ps2_command dev COMMAND_PORT1_DISABLE s"

definition ps2_port1_enable :: "device \<Rightarrow> 'a machine_scheme \<Rightarrow> 'a machine_scheme" where
  "ps2_port1_enable dev s = ps2_command dev COMMAND_PORT1_ENABLE s"

definition ps2_port2_write :: "device \<Rightarrow> u8 \<Rightarrow> 'a machine_scheme \<Rightarrow> 'a machine_scheme" where
  "ps2_port2_write dev data s = ps2_write dev data (ps2_command dev COMMAND_SEND_NEXT_PORT2 s)"

definition ps2_port2_disable :: "device \<Rightarrow> 'a machine_scheme \<Rightarrow> 'a machine_scheme" where
  "ps2_port2_disable dev s = ps2_command dev COMMAND_PORT2_DISABLE s"

definition ps2_port2_enable :: "device \<Rightarrow> 'a machine_scheme \<Rightarrow> 'a machine_scheme" where
  "ps2_port2_enable dev s = ps2_command dev COMMAND_PORT2_ENABLE s"

section \<open>Initialisation\<close>

text \<open>The device reset is repeated as long as the device asks for it.\<close>

definition reset_attempt :: "device \<Rightarrow> 'a machine_scheme \<Rightarrow> u8 \<times> 'a machine_scheme" where
  "reset_attempt dev s = ps2_data_read dev (ps2_port1_write dev 0xFF s)"

partial_function (option) reset_loop ::
  "device \<Rightarrow> 'a machine_scheme \<Rightarrow> (u8 \<times> 'a machine_scheme) option" where
  "reset_loop dev s =
     (let (resp, s) = reset_attempt dev s
      in if resp = 0xFE then reset_loop dev s else Some (resp, s))"

text \<open>The fields of \<open>controller_config\<close>.\<close>

definition port1_interrupt :: "u8 \<Rightarrow> bool" where "port1_interrupt c = bit c 0"
definition port2_interrupt :: "u8 \<Rightarrow> bool" where "port2_interrupt c = bit c 1"
definition system_flag :: "u8 \<Rightarrow> bool" where "system_flag c = bit c 2"
definition must_be_zero0 :: "u8 \<Rightarrow> bool" where "must_be_zero0 c = bit c 3"
definition port1_clock_off :: "u8 \<Rightarrow> bool" where "port1_clock_off c = bit c 4"
definition port2_clock_off :: "u8 \<Rightarrow> bool" where "port2_clock_off c = bit c 5"
definition port1_translation :: "u8 \<Rightarrow> bool" where "port1_translation c = bit c 6"
definition must_be_zero1 :: "u8 \<Rightarrow> bool" where "must_be_zero1 c = bit c 7"

text \<open>\<open>port1_interrupt = 1\<close>, \<open>port2_interrupt = 0\<close>, \<open>port1_translation = 0\<close>.\<close>

definition new_config :: "u8 \<Rightarrow> u8" where
  "new_config config = unset_bit 6 (unset_bit 1 (set_bit 0 config))"

definition nuid64_str :: "u8 list" where
  "nuid64_str = map of_char ''nuid64''"

definition ps2_init :: "device \<Rightarrow> 'a interrupts_scheme \<Rightarrow> 'a interrupts_scheme result" where
  "ps2_init dev s =
     (let s = ps2_command dev COMMAND_PORT1_DISABLE s;
          s = ps2_command dev COMMAND_PORT2_DISABLE s;
          (_, s) = inb dev DATA_PORT s;
          (config, s) = ps2_command_resp dev COMMAND_GET_CONFIG s;
          s = ps2_command_arg dev COMMAND_SET_CONFIG (new_config config) s;
          (response, s) = ps2_command_resp dev COMMAND_TEST s
      in if response \<noteq> CONTROLLER_TEST_OK then
           printk (''ps2: controller self-test failed'' @ [CHR 0x0A]) [] s
         else
           let s = fold (\<lambda>i. ps2_command_arg dev (0x61 + of_nat i) (nuid64_str ! i)) [0..<6] s;
               s = ps2_command dev COMMAND_PORT1_ENABLE s
           in rbind (of_loop (reset_loop dev s)) (\<lambda>(resp, s).
                let (failed, s) =
                      (if resp \<noteq> 0xFA then (True, s)
                       else let (second, s) = ps2_data_read dev s in (second \<noteq> 0xAA, s))
                in rbind (if failed then printk ''ps2: failed to reset device at port 1'' [] s
                          else Inr s)
                     (\<lambda>s. Inr (irq_set_handler KBD_IRQ Kbd_int_handler s))))"

section \<open>What a wait sees\<close>

text \<open>The history after \<open>k\<close> polls of the status register, and the status the next poll sees.\<close>

primrec poll_trace :: "device \<Rightarrow> hw_event list \<Rightarrow> nat \<Rightarrow> hw_event list" where
  "poll_trace dev tr 0 = tr"
| "poll_trace dev tr (Suc k) =
     poll_trace dev tr k @ [In STATUS_REG (dev (poll_trace dev tr k) STATUS_REG)]"

definition status_at :: "device \<Rightarrow> hw_event list \<Rightarrow> nat \<Rightarrow> u8" where
  "status_at dev tr k = dev (poll_trace dev tr k) STATUS_REG"

lemma poll_trace_shift:
  "poll_trace dev (tr @ [In STATUS_REG (dev tr STATUS_REG)]) k = poll_trace dev tr (Suc k)"
  by (induction k) simp_all

lemma status_at_shift:
  "status_at dev (tr @ [In STATUS_REG (dev tr STATUS_REG)]) k = status_at dev tr (Suc k)"
  unfolding status_at_def poll_trace_shift ..

lemma outs_poll_trace [simp]: "outs (poll_trace dev tr k) = outs tr"
  by (induction k) simp_all

lemma inb_status:
  "inb dev STATUS_REG s =
     (status_at dev (hw_trace s) 0, s\<lparr>hw_trace := poll_trace dev (hw_trace s) 1\<rparr>)"
  by (simp add: inb_def log_event_def status_at_def Let_def)

text \<open>
  \<open>n\<close> polls are made by the loop; \<open>seen k\<close> is the status before poll \<open>k\<close>.
\<close>

lemma wait_loop_polls:
  defines "seen dev tr st k \<equiv> (case k of 0 \<Rightarrow> st | Suc j \<Rightarrow> status_at dev tr j)"
  shows "\<exists>n \<le> unat timeout.
      wait_loop dev busy st timeout s =
        (if busy (seen dev (hw_trace s) st n) then - 1 else timeout - of_nat n,
         s\<lparr>hw_trace := poll_trace dev (hw_trace s) n\<rparr>) \<and>
      (\<forall>k < n. busy (seen dev (hw_trace s) st k)) \<and>
      (busy (seen dev (hw_trace s) st n) \<longrightarrow> n = unat timeout)"
proof (induction dev busy st timeout s rule: wait_loop.induct)
  case (1 dev busy st timeout s)
  let ?tr = "hw_trace s"
  let ?s = "s\<lparr>hw_trace := poll_trace dev ?tr 1\<rparr>"
  show ?case
  proof (cases "busy st \<and> 0 < timeout")
    case False
    then show ?thesis
      by (intro exI [of _ 0]) (auto simp: wait_loop.simps seen_def word_gt_0)
  next
    case True
    then have t: "unat timeout = Suc (unat (timeout - 1))"
      by (metis Suc_pred' unat_gt_0 unat_minus_one word_gt_0)
    have step: "wait_loop dev busy st timeout s =
        wait_loop dev busy (status_at dev ?tr 0) (timeout - 1) ?s"
      using True by (subst wait_loop.simps) (simp add: inb_status)
    have seen: "seen dev (hw_trace ?s) (status_at dev ?tr 0) k = seen dev ?tr st (Suc k)" for k
      by (simp add: seen_def status_at_shift status_at_def [of _ _ 0] split: nat.split)
    obtain n where n: "n \<le> unat (timeout - 1)"
      "wait_loop dev busy (status_at dev ?tr 0) (timeout - 1) ?s =
        (if busy (seen dev ?tr st (Suc n)) then - 1 else timeout - 1 - of_nat n,
         ?s\<lparr>hw_trace := poll_trace dev (hw_trace ?s) n\<rparr>)"
      "\<forall>k < n. busy (seen dev ?tr st (Suc k))"
      "busy (seen dev ?tr st (Suc n)) \<longrightarrow> n = unat (timeout - 1)"
      using "1.IH" [OF _ _ refl inb_status [symmetric]] True unfolding seen by auto
    have "\<forall>k < Suc n. busy (seen dev ?tr st k)"
      using n(3) True by (auto simp: less_Suc_eq_0_disj seen_def)
    then show ?thesis
      using n t by (intro exI [of _ "Suc n"]) (auto simp: step poll_trace_shift status_at_def)
  qed
qed

lemma wait_polls:
  assumes "w = (\<lambda>s. let (st, s) = inb dev STATUS_REG s; (timeout, s) = wait_loop dev busy st 64 s
      in (if timeout = 0 then 1 else (0 :: u8), s))"
  shows "\<exists>n \<le> 64. w s =
      (if \<not> busy (status_at dev (hw_trace s) n) \<and> n = 64 then 1 else 0,
       s\<lparr>hw_trace := poll_trace dev (hw_trace s) (Suc n)\<rparr>) \<and>
      (\<forall>k < n. busy (status_at dev (hw_trace s) k)) \<and>
      (busy (status_at dev (hw_trace s) n) \<longrightarrow> n = 64)"
proof -
  let ?tr = "hw_trace s"
  let ?s = "s\<lparr>hw_trace := poll_trace dev ?tr 1\<rparr>"
  have seen: "(case k of 0 \<Rightarrow> status_at dev ?tr 0 | Suc j \<Rightarrow> status_at dev (hw_trace ?s) j) =
      status_at dev ?tr k" for k
    by (simp add: status_at_shift split: nat.split)
  obtain n where n: "n \<le> 64"
    "wait_loop dev busy (status_at dev ?tr 0) 64 ?s =
       (if busy (status_at dev ?tr n) then - 1 else 64 - of_nat n,
        ?s\<lparr>hw_trace := poll_trace dev (hw_trace ?s) n\<rparr>)"
    "\<forall>k < n. busy (status_at dev ?tr k)"
    "busy (status_at dev ?tr n) \<longrightarrow> n = 64"
    using wait_loop_polls [of 64 dev busy "status_at dev ?tr 0" ?s] unfolding seen by auto
  have "64 - of_nat n = (0 :: u64) \<longleftrightarrow> n = 64"
    using n(1) eq_of_nat_64 [of n 64] by auto
  moreover have "?s\<lparr>hw_trace := poll_trace dev (hw_trace ?s) n\<rparr> =
      s\<lparr>hw_trace := poll_trace dev ?tr (Suc n)\<rparr>"
    using poll_trace_shift [of dev ?tr n] by simp
  ultimately have "w s = (if \<not> busy (status_at dev ?tr n) \<and> n = 64 then 1 else 0,
      s\<lparr>hw_trace := poll_trace dev ?tr (Suc n)\<rparr>)"
    using n(2) by (simp only: assms inb_status Let_def prod.case) simp
  then show ?thesis using n(1,3,4) by blast
qed

lemmas wait_input_polls = wait_polls [OF ext, OF wait_input_buf_def]
lemmas wait_output_polls = wait_polls [OF ext, OF wait_output_buf_def]

section \<open>What the primitives write\<close>

text \<open>An operation that only adds to the history.\<close>

definition only_trace :: "'a machine_scheme \<Rightarrow> 'a machine_scheme \<Rightarrow> bool" where
  "only_trace s t \<longleftrightarrow> (\<exists>tr. t = s\<lparr>hw_trace := hw_trace s @ tr\<rparr>)"

lemma only_trace_refl [intro, simp]: "only_trace s s"
  unfolding only_trace_def by (rule exI [of _ "[]"]) simp

lemma only_trace_trans [trans]: "only_trace s t \<Longrightarrow> only_trace t u \<Longrightarrow> only_trace s u"
  by (auto simp: only_trace_def)

lemma only_trace_log [intro, simp]:
  "only_trace s (log_event e s)" "only_trace s (outb p v s)" "only_trace s (snd (inb dev p s))"
  by (auto simp: only_trace_def log_event_def outb_def inb_def Let_def)

lemma only_trace_more: "only_trace s t \<Longrightarrow> machine.more t = machine.more s"
  by (auto simp: only_trace_def)

lemma only_trace_interrupts:
  "only_trace s t \<Longrightarrow> irq_handlers t = irq_handlers s"
  "only_trace s t \<Longrightarrow> IDT t = IDT s"
  "only_trace s t \<Longrightarrow> interrupts.more t = interrupts.more s"
  by (auto simp: only_trace_def)

lemma poll_trace_extends: "\<exists>ts. poll_trace dev tr k = tr @ ts"
  by (induction k) auto

lemma wait_traces:
  "\<exists>k. snd (wait_input_buf dev s) = s\<lparr>hw_trace := poll_trace dev (hw_trace s) k\<rparr>"
  "\<exists>k. snd (wait_output_buf dev s) = s\<lparr>hw_trace := poll_trace dev (hw_trace s) k\<rparr>"
  using wait_input_polls [of dev s] wait_output_polls [of dev s] by (metis snd_conv)+

lemma wait_only_trace [intro, simp]:
  "only_trace s (snd (wait_input_buf dev s))" "only_trace s (snd (wait_output_buf dev s))"
  unfolding only_trace_def by (metis wait_traces(1) poll_trace_extends)
    (metis wait_traces(2) poll_trace_extends)

lemma outs_wait [simp]:
  "outs (hw_trace (snd (wait_input_buf dev s))) = outs (hw_trace s)"
  "outs (hw_trace (snd (wait_output_buf dev s))) = outs (hw_trace s)"
proof -
  obtain j k where "snd (wait_input_buf dev s) = s\<lparr>hw_trace := poll_trace dev (hw_trace s) j\<rparr>"
    "snd (wait_output_buf dev s) = s\<lparr>hw_trace := poll_trace dev (hw_trace s) k\<rparr>"
    using wait_traces by blast
  then show "outs (hw_trace (snd (wait_input_buf dev s))) = outs (hw_trace s)"
    "outs (hw_trace (snd (wait_output_buf dev s))) = outs (hw_trace s)" by simp_all
qed

lemma outs_ps2 [simp]:
  "outs (hw_trace (ps2_write dev v s)) = outs (hw_trace s) @ [(0x60, v)]"
  "outs (hw_trace (ps2_command dev c s)) = outs (hw_trace s) @ [(0x64, c)]"
  "outs (hw_trace (ps2_command_arg dev c v s)) = outs (hw_trace s) @ [(0x64, c), (0x60, v)]"
  "outs (hw_trace (snd (ps2_command_resp dev c s))) = outs (hw_trace s) @ [(0x64, c)]"
  "outs (hw_trace (snd (ps2_data_read dev s))) = outs (hw_trace s)"
  "outs (hw_trace (ps2_port1_write dev v s)) = outs (hw_trace s) @ [(0x60, v)]"
  "outs (hw_trace (snd (reset_attempt dev s))) = outs (hw_trace s) @ [(0x60, 0xFF)]"
  by (simp_all add: ps2_write_def ps2_command_def ps2_command_arg_def ps2_command_resp_def
      ps2_data_read_def ps2_port1_write_def reset_attempt_def)

lemma ps2_only_trace [intro, simp]:
  "only_trace s (ps2_write dev v s)" "only_trace s (ps2_command dev c s)"
  "only_trace s (ps2_command_arg dev c v s)" "only_trace s (snd (ps2_command_resp dev c s))"
  "only_trace s (snd (ps2_data_read dev s))" "only_trace s (ps2_port1_write dev v s)"
  "only_trace s (snd (reset_attempt dev s))"
  unfolding ps2_write_def ps2_command_def ps2_command_arg_def ps2_command_resp_def
    ps2_data_read_def ps2_port1_write_def reset_attempt_def
  by (meson only_trace_trans only_trace_log wait_only_trace)+

text \<open>The byte a data read returns is what the device offers after the writes made so far.\<close>

lemma ps2_data_read_reply:
  "\<exists>h. fst (ps2_data_read dev s) = dev h DATA_PORT \<and> outs h = outs (hw_trace s) \<and>
     hw_trace (snd (ps2_data_read dev s)) = h @ [In DATA_PORT (fst (ps2_data_read dev s))]"
  by (rule exI [of _ "hw_trace (snd (wait_output_buf dev s))"])
    (simp add: ps2_data_read_def inb_def log_event_def Let_def)

lemma ps2_command_resp_reply:
  "\<exists>h. fst (ps2_command_resp dev c s) = dev h DATA_PORT \<and> outs h = outs (hw_trace s) @ [(0x64, c)] \<and>
     hw_trace (snd (ps2_command_resp dev c s)) = h @ [In DATA_PORT (fst (ps2_command_resp dev c s))]"
  using ps2_data_read_reply [of dev "outb COMMAND_REG c (snd (wait_input_buf dev s))"]
  by (simp add: ps2_command_resp_def)

lemma new_config_bits:
  "bit (new_config c) i \<longleftrightarrow> i < 8 \<and> (i = 0 \<or> i \<noteq> 1 \<and> i \<noteq> 6 \<and> bit c i)"
  by (auto simp: new_config_def bit_simps dest: bit_imp_le_length)

text \<open>Three fields are set, the other five stay as the controller reported them.\<close>

lemma new_config_fields:
  "port1_interrupt (new_config c)" "\<not> port2_interrupt (new_config c)" "\<not> port1_translation (new_config c)"
  "system_flag (new_config c) = system_flag c" "must_be_zero0 (new_config c) = must_be_zero0 c"
  "port1_clock_off (new_config c) = port1_clock_off c" "port2_clock_off (new_config c) = port2_clock_off c"
  "must_be_zero1 (new_config c) = must_be_zero1 c"
  by (simp_all add: new_config_bits port1_interrupt_def port2_interrupt_def port1_translation_def system_flag_def
      must_be_zero0_def port1_clock_off_def port2_clock_off_def must_be_zero1_def)

section \<open>The reset loop\<close>

abbreviation resets :: "(u64 \<times> u8) list \<Rightarrow> nat" where
  "resets ws \<equiv> length (filter (\<lambda>w. w = (DATA_PORT, 0xFF)) ws)"

lemma reset_loop_returns:
  assumes "\<And>h. bound \<le> resets (outs h) \<Longrightarrow> dev h DATA_PORT \<noteq> 0xFE"
  shows "\<exists>resp t n. reset_loop dev s = Some (resp, t) \<and> resp \<noteq> 0xFE \<and> only_trace s t \<and>
    outs (hw_trace t) = outs (hw_trace s) @ replicate (Suc n) (DATA_PORT, 0xFF)"
proof (induction "bound - resets (outs (hw_trace s))" arbitrary: s rule: less_induct)
  case less
  obtain resp t where a: "reset_attempt dev s = (resp, t)" by fastforce
  have ot: "only_trace s t" "outs (hw_trace t) = outs (hw_trace s) @ [(DATA_PORT, 0xFF)]"
    using ps2_only_trace(7) [of s dev] outs_ps2(7) [of dev s] by (simp_all add: a)
  obtain h where h: "resp = dev h DATA_PORT" "outs h = outs (hw_trace t)"
    using ps2_data_read_reply [of dev "ps2_port1_write dev 0xFF s"] ot(2) a
    by (auto simp: reset_attempt_def)
  show ?case
  proof (cases "resp = 0xFE")
    case False
    then show ?thesis using ot a
      by (subst reset_loop.simps) (auto intro!: exI [of _ 0])
  next
    case True
    then have "resets (outs (hw_trace t)) < bound" using assms [of h] h by force
    then have "bound - resets (outs (hw_trace t)) < bound - resets (outs (hw_trace s))"
      using ot(2) by simp
    from less [OF this] obtain resp' u n where u: "reset_loop dev t = Some (resp', u)"
      "resp' \<noteq> 0xFE" "only_trace t u"
      "outs (hw_trace u) = outs (hw_trace t) @ replicate (Suc n) (DATA_PORT, 0xFF)"
      by blast
    have "reset_loop dev s = Some (resp', u)" using True u(1) a by (subst reset_loop.simps) simp
    moreover have "outs (hw_trace u) =
        outs (hw_trace s) @ replicate (Suc (Suc n)) (DATA_PORT, 0xFF)"
      using u(4) ot(2) by simp
    ultimately show ?thesis using u(2,3) ot(1) only_trace_trans by blast
  qed
qed

section \<open>Properties\<close>

text \<open>
  C25: a wait for the output buffer polls the status register until it is ready, at most 65
  times, and then tells the caller nothing useful: the result is 1 exactly when the buffer
  became ready at the very last poll, and 0 both when it was ready earlier and when the wait
  timed out.
\<close>

theorem wait_output_buf_result:
  "\<exists>n \<le> 64.
     hw_trace (snd (wait_output_buf dev s)) = poll_trace dev (hw_trace s) (Suc n) \<and>
     (\<forall>k < n. \<not> output_full (status_at dev (hw_trace s) k)) \<and>
     (n < 64 \<longrightarrow> output_full (status_at dev (hw_trace s) n)) \<and>
     fst (wait_output_buf dev s) =
       (if n = 64 \<and> output_full (status_at dev (hw_trace s) 64) then 1 else 0)"
proof -
  obtain n where n: "n \<le> 64" "wait_output_buf dev s =
      (if \<not> \<not> output_full (status_at dev (hw_trace s) n) \<and> n = 64 then 1 else 0,
       s\<lparr>hw_trace := poll_trace dev (hw_trace s) (Suc n)\<rparr>)"
    "\<forall>k < n. \<not> output_full (status_at dev (hw_trace s) k)"
    "\<not> output_full (status_at dev (hw_trace s) n) \<longrightarrow> n = 64"
    using wait_output_polls [of dev s] by blast
  have "hw_trace (snd (wait_output_buf dev s)) = poll_trace dev (hw_trace s) (Suc n)"
    unfolding n(2) by (simp del: poll_trace.simps)
  moreover have "fst (wait_output_buf dev s) =
      (if n = 64 \<and> output_full (status_at dev (hw_trace s) 64) then 1 else 0)"
    unfolding n(2) by (auto simp del: poll_trace.simps)
  ultimately show ?thesis using n(1,3,4) nat_less_le by blast
qed

theorem wait_output_buf_result_witness:
  "fst (wait_output_buf (\<lambda>_ _. 0) boot_interrupts) = 0 \<and>
   fst (wait_output_buf (\<lambda>_ _. 1) boot_interrupts) = 0 \<and>
   fst (wait_output_buf (\<lambda>h _. if length h = 64 then 1 else 0) boot_interrupts) = 1"
proof -
  have len: "length (poll_trace dev [] k) = k" for dev k by (induction k) simp_all
  have tr: "hw_trace boot_interrupts = []" by (simp add: boot_interrupts_def)
  have never: "\<not> output_full (status_at (\<lambda>_ _. 0) h k)"
    and always: "output_full (status_at (\<lambda>_ _. 1) h k)"
    and late: "output_full (status_at (\<lambda>h _. if length h = 64 then 1 else 0) [] k) \<longleftrightarrow> k = 64"
    for h k by (simp_all add: output_full_def status_at_def len)
  have "fst (wait_output_buf (\<lambda>_ _. 0) boot_interrupts) = 0"
    using wait_output_buf_result [of "\<lambda>_ _. 0" boot_interrupts] never by auto
  moreover have "fst (wait_output_buf (\<lambda>_ _. 1) boot_interrupts) = 0"
  proof -
    obtain n where n: "\<forall>k < n. \<not> output_full (status_at (\<lambda>_ _. 1) (hw_trace boot_interrupts) k)"
      "fst (wait_output_buf (\<lambda>_ _. 1) boot_interrupts) = (if n = 64 \<and>
         output_full (status_at (\<lambda>_ _. 1) (hw_trace boot_interrupts) 64) then 1 else 0)"
      using wait_output_buf_result [of "\<lambda>_ _. 1" boot_interrupts] by blast
    have "n = 0" using n(1) always by (metis gr0I)
    then show ?thesis using n(2) by simp
  qed
  moreover have "fst (wait_output_buf (\<lambda>h _. if length h = 64 then 1 else 0) boot_interrupts) = 1"
  proof -
    let ?dev = "\<lambda>h _. if length h = 64 then 1 else 0 :: u8"
    obtain n where n: "n \<le> 64" "n < 64 \<longrightarrow> output_full (status_at ?dev [] n)"
      "fst (wait_output_buf ?dev boot_interrupts) =
         (if n = 64 \<and> output_full (status_at ?dev [] 64) then 1 else 0)"
      using wait_output_buf_result [of ?dev boot_interrupts] unfolding tr by blast
    have "n = 64" using n(1,2) late [of n] by linarith
    then show ?thesis using n(3) late [of 64] by simp
  qed
  ultimately show ?thesis by simp
qed

definition setup_writes :: "u8 \<Rightarrow> (u64 \<times> u8) list" where
  "setup_writes cfg =
     [(0x64, 0xAD), (0x64, 0xA7), (0x64, 0x20), (0x64, 0x60), (0x60, cfg), (0x64, 0xAA)]"

definition name_writes :: "(u64 \<times> u8) list" where
  "name_writes = concat (map (\<lambda>i. [(0x64, 0x61 + of_nat i), (0x60, nuid64_str ! i)]) [0..<6])"

lemma fold_command_args:
  "only_trace s (fold (\<lambda>i. ps2_command_arg dev (c i) (a i)) is s)"
  "outs (hw_trace (fold (\<lambda>i. ps2_command_arg dev (c i) (a i)) is s)) =
     outs (hw_trace s) @ concat (map (\<lambda>i. [(0x64, c i), (0x60, a i)]) is)"
  by (induction "is" arbitrary: s) (auto intro: only_trace_trans [OF ps2_only_trace(3)])

lemma printk_error_line:
  assumes "fmt = ''ps2: controller self-test failed'' @ [CHR 0x0A] \<or>
     fmt = ''ps2: failed to reset device at port 1''"
  obtains t where "printk fmt [] s = Inr t" "hw_trace t = hw_trace s"
    "machine.more t = machine.more s"
proof -
  have "CHR ''%'' \<notin> set fmt" using assms by auto
  then show thesis by (rule printk_plain_frame [of fmt s]) (rule that)
qed

text \<open>The part of the initialisation that follows a successful self-test.\<close>

definition ps2_start :: "device \<Rightarrow> 'a interrupts_scheme \<Rightarrow> 'a interrupts_scheme result" where
  "ps2_start dev s =
     rbind (of_loop (reset_loop dev s)) (\<lambda>(resp, s).
       let (failed, s) =
             (if resp \<noteq> 0xFA then (True, s)
              else let (second, s) = ps2_data_read dev s in (second \<noteq> 0xAA, s))
       in rbind (if failed then printk ''ps2: failed to reset device at port 1'' [] s else Inr s)
            (\<lambda>s. Inr (irq_set_handler KBD_IRQ Kbd_int_handler s)))"

lemma only_trace_extends: "only_trace s t \<Longrightarrow> \<exists>post. hw_trace t = hw_trace s @ post"
  by (auto simp: only_trace_def)

lemma more_interrupts:
  fixes s t :: "'a interrupts_scheme"
  assumes "machine.more t = machine.more s"
  shows "irq_handlers t = irq_handlers s" "IDT t = IDT s" "interrupts.more t = interrupts.more s"
  using assms by (cases s; cases t; simp)+

lemma ps2_start_returns:
  fixes s :: "'a interrupts_scheme"
  assumes "\<And>h. bound \<le> resets (outs h) \<Longrightarrow> dev h DATA_PORT \<noteq> 0xFE"
  shows "\<exists>t n. ps2_start dev s = Inr t \<and>
    outs (hw_trace t) = outs (hw_trace s) @ replicate (Suc n) (0x60, 0xFF) \<and>
    irq_handlers t = (irq_handlers s)(KBD_IRQ \<mapsto> Kbd_int_handler)"
proof -
  obtain resp u n where u: "reset_loop dev s = Some (resp, u)" "only_trace s u"
    "outs (hw_trace u) = outs (hw_trace s) @ replicate (Suc n) (DATA_PORT, 0xFF)"
    using reset_loop_returns [of bound dev s] assms by blast
  obtain failed v where v: "(if resp \<noteq> 0xFA then (True, u)
      else let (second, s) = ps2_data_read dev u in (second \<noteq> 0xAA, s)) = (failed, v)"
    by fastforce
  have "v = (if resp \<noteq> 0xFA then u else snd (ps2_data_read dev u))"
    using v by (auto split: if_splits prod.splits)
  then have "only_trace u v \<and> outs (hw_trace v) = outs (hw_trace u)" by simp
  then have v': "only_trace s v" "outs (hw_trace v) = outs (hw_trace u)"
    using u(2) only_trace_trans by auto
  obtain w where w: "printk ''ps2: failed to reset device at port 1'' [] v = Inr w"
    "hw_trace w = hw_trace v" "machine.more w = machine.more v"
    by (rule printk_error_line [of "''ps2: failed to reset device at port 1''" v]) simp_all
  have "ps2_start dev s = Inr (irq_set_handler KBD_IRQ Kbd_int_handler (if failed then w else v))"
    using u(1) v w(1) by (simp add: ps2_start_def)
  moreover have "irq_handlers (if failed then w else v) = irq_handlers s"
    using more_interrupts(1) [OF w(3)] only_trace_interrupts(1) [OF v'(1)] by simp
  ultimately show ?thesis using u(3) v'(2) w(2)
    by (intro exI [of _ "irq_set_handler KBD_IRQ Kbd_int_handler (if failed then w else v)"]
        exI [of _ n]) (auto simp: irq_set_handler_def)
qed

text \<open>The initialisation up to the self-test, with what was sent when each answer came.\<close>

lemma ps2_init_setup:
  obtains config response s4 h1 h2 where
    "ps2_init dev s = (if response \<noteq> 0x55
       then printk (''ps2: controller self-test failed'' @ [CHR 0x0A]) [] s4
       else ps2_start dev (ps2_command dev COMMAND_PORT1_ENABLE
         (fold (\<lambda>i. ps2_command_arg dev (0x61 + of_nat i) (nuid64_str ! i)) [0..<6] s4)))"
    "only_trace s s4"
    "outs (hw_trace s4) = outs (hw_trace s) @ setup_writes (new_config config)"
    "config = dev h1 DATA_PORT"
    "outs h1 = outs (hw_trace s) @ [(0x64, 0xAD), (0x64, 0xA7), (0x64, 0x20)]"
    "response = dev h2 DATA_PORT"
    "outs h2 = outs (hw_trace s) @ setup_writes (new_config config)"
    "hw_trace s4 = h2 @ [In DATA_PORT response]"
proof -
  define s1 where "s1 = snd (inb dev DATA_PORT
    (ps2_command dev COMMAND_PORT2_DISABLE (ps2_command dev COMMAND_PORT1_DISABLE s)))"
  obtain config s2 where s2: "ps2_command_resp dev COMMAND_GET_CONFIG s1 = (config, s2)"
    by fastforce
  define s3 where "s3 = ps2_command_arg dev COMMAND_SET_CONFIG (new_config config) s2"
  obtain response s4 where s4: "ps2_command_resp dev COMMAND_TEST s3 = (response, s4)"
    by fastforce
  have o1: "only_trace s s1" "outs (hw_trace s1) = outs (hw_trace s) @ [(0x64, 0xAD), (0x64, 0xA7)]"
    unfolding s1_def by (meson only_trace_trans only_trace_log ps2_only_trace) simp
  have o2: "only_trace s1 s2" "outs (hw_trace s2) = outs (hw_trace s1) @ [(0x64, 0x20)]"
    using ps2_only_trace(4) [of s1 dev COMMAND_GET_CONFIG] outs_ps2(4) [of dev COMMAND_GET_CONFIG s1]
    unfolding s2 snd_conv by this
  have o3: "only_trace s2 s3"
    "outs (hw_trace s3) = outs (hw_trace s2) @ [(0x64, 0x60), (0x60, new_config config)]"
    by (simp_all add: s3_def)
  have o4: "only_trace s3 s4" "outs (hw_trace s4) = outs (hw_trace s3) @ [(0x64, 0xAA)]"
    using ps2_only_trace(4) [of s3 dev COMMAND_TEST] outs_ps2(4) [of dev COMMAND_TEST s3]
    unfolding s4 snd_conv by this
  obtain h1 where h1: "config = dev h1 DATA_PORT" "outs h1 = outs (hw_trace s1) @ [(0x64, 0x20)]"
    using ps2_command_resp_reply [of dev COMMAND_GET_CONFIG s1] unfolding s2 by auto
  obtain h2 where h2: "response = dev h2 DATA_PORT" "outs h2 = outs (hw_trace s3) @ [(0x64, 0xAA)]"
    "hw_trace s4 = h2 @ [In DATA_PORT response]"
    using ps2_command_resp_reply [of dev COMMAND_TEST s3] unfolding s4 by auto
  show thesis
  proof (rule that)
    show "ps2_init dev s = (if response \<noteq> 0x55
       then printk (''ps2: controller self-test failed'' @ [CHR 0x0A]) [] s4
       else ps2_start dev (ps2_command dev COMMAND_PORT1_ENABLE
         (fold (\<lambda>i. ps2_command_arg dev (0x61 + of_nat i) (nuid64_str ! i)) [0..<6] s4)))"
      by (simp only: ps2_init_def Let_def s1_def [symmetric] case_prod_unfold s2 fst_conv snd_conv
          s3_def [symmetric] s4 ps2_start_def)
    show "only_trace s s4" using o1(1) o2(1) o3(1) o4(1) only_trace_trans by blast
    show "config = dev h1 DATA_PORT" "response = dev h2 DATA_PORT" "hw_trace s4 = h2 @ [In DATA_PORT response]"
      by (fact h1 h2)+
  qed (simp_all add: o1 o2 o3 o4 h1(2) h2(2) setup_writes_def)
qed

text \<open>The second half of \<open>ps2_init\<close>, behind the self-test: it returns for both outcomes.\<close>

lemma ps2_after_test:
  fixes s s4 :: "'a interrupts_scheme"
  assumes "\<And>h. bound \<le> resets (outs h) \<Longrightarrow> dev h DATA_PORT \<noteq> 0xFE" and s4: "only_trace s s4"
  shows "\<exists>t n. (if response \<noteq> (0x55 :: u8)
       then printk (''ps2: controller self-test failed'' @ [CHR 0x0A]) [] s4
       else ps2_start dev (ps2_command dev COMMAND_PORT1_ENABLE
         (fold (\<lambda>i. ps2_command_arg dev (0x61 + of_nat i) (nuid64_str ! i)) [0..<6] s4))) = Inr t \<and>
    outs (hw_trace t) = outs (hw_trace s4) @
      (if response = 0x55 then name_writes @ [(0x64, 0xAE)] @ replicate (Suc n) (0x60, 0xFF) else []) \<and>
    irq_handlers t =
      (if response = 0x55 then (irq_handlers s)(0x21 \<mapsto> Kbd_int_handler) else irq_handlers s)"
proof (cases "response = 0x55")
  case True
  define s5 where "s5 = ps2_command dev COMMAND_PORT1_ENABLE
    (fold (\<lambda>i. ps2_command_arg dev (0x61 + of_nat i) (nuid64_str ! i)) [0..<6] s4)"
  have o5: "only_trace s s5" "outs (hw_trace s5) = outs (hw_trace s4) @ name_writes @ [(0x64, 0xAE)]"
    unfolding s5_def name_writes_def
    by (rule only_trace_trans [OF s4 only_trace_trans [OF fold_command_args(1) ps2_only_trace(2)]])
      (simp only: outs_ps2 fold_command_args append_assoc)
  obtain t n where "ps2_start dev s5 = Inr t"
    "outs (hw_trace t) = outs (hw_trace s5) @ replicate (Suc n) (0x60, 0xFF)"
    "irq_handlers t = (irq_handlers s5)(KBD_IRQ \<mapsto> Kbd_int_handler)"
    using ps2_start_returns [of bound dev s5] assms(1) by blast
  then show ?thesis
    by (simp only: s5_def [symmetric] True o5 only_trace_interrupts(1) [OF o5(1)]
        append_assoc if_True not_True_eq_False if_False refl) blast
next
  case False
  obtain t where t: "printk (''ps2: controller self-test failed'' @ [CHR 0x0A]) [] s4 = Inr t"
    "hw_trace t = hw_trace s4" "machine.more t = machine.more s4"
    by (rule printk_error_line [of "''ps2: controller self-test failed'' @ [CHR 0x0A]" s4]) simp_all
  have "irq_handlers t = irq_handlers s"
    using more_interrupts(1) [OF t(3)] only_trace_interrupts(1) [OF s4] by simp
  then show ?thesis using False t(1,2) by (intro exI [of _ t]) simp
qed

text \<open>
  C19: \<open>ps2_init\<close> always returns if the device stops asking for a resend after some number of
  reset commands, and the bytes it sends are fixed up to the device's answers: both ports off,
  the configuration the controller reported with interrupts of port 1 on and those of port 2
  and the translation off, the self-test; after a good answer the name in the controller's
  RAM, port 1 on, at least one device reset, and only then the keyboard interrupt handler is
  installed.  After a bad answer nothing more is sent and no handler is installed.
\<close>

theorem ps2_init_protocol:
  assumes "\<And>h. bound \<le> resets (outs h) \<Longrightarrow> dev h DATA_PORT \<noteq> 0xFE"
  shows "\<exists>t config response n h1 h2.
    ps2_init dev s = Inr t \<and>
    config = dev h1 DATA_PORT \<and>
      outs h1 = outs (hw_trace s) @ [(0x64, 0xAD), (0x64, 0xA7), (0x64, 0x20)] \<and>
    response = dev h2 DATA_PORT \<and>
      outs h2 = outs (hw_trace s) @ setup_writes (new_config config) \<and>
    outs (hw_trace t) = outs (hw_trace s) @ setup_writes (new_config config) @
      (if response = 0x55 then name_writes @ [(0x64, 0xAE)] @ replicate (Suc n) (0x60, 0xFF)
       else []) \<and>
    irq_handlers t =
      (if response = 0x55 then (irq_handlers s)(0x21 \<mapsto> Kbd_int_handler) else irq_handlers s)"
proof -
  let ?name = "fold (\<lambda>i. ps2_command_arg dev (0x61 + of_nat i) (nuid64_str ! i)) [0..<6]"
  obtain config response s4 h1 h2 where init:
    "ps2_init dev s = (if response \<noteq> 0x55
       then printk (''ps2: controller self-test failed'' @ [CHR 0x0A]) [] s4
       else ps2_start dev (ps2_command dev COMMAND_PORT1_ENABLE (?name s4)))"
    and s4: "only_trace s s4" "outs (hw_trace s4) = outs (hw_trace s) @ setup_writes (new_config config)"
    and h: "config = dev h1 DATA_PORT"
      "outs h1 = outs (hw_trace s) @ [(0x64, 0xAD), (0x64, 0xA7), (0x64, 0x20)]"
      "response = dev h2 DATA_PORT"
      "outs h2 = outs (hw_trace s) @ setup_writes (new_config config)"
      "hw_trace s4 = h2 @ [In DATA_PORT response]"
    by (rule ps2_init_setup)
  show ?thesis
    using ps2_after_test [where bound = bound and dev = dev and response = response, OF _ s4(1)] assms h
    unfolding init s4(2) append_assoc by blast
qed

theorem ps2_init_protocol_witness:
  "\<exists>t n. ps2_init (\<lambda>_ port. if port = 0x64 then 1 else 0x55) boot_interrupts = Inr t \<and>
     outs (hw_trace t) =
       setup_writes 0x15 @ name_writes @ [(0x64, 0xAE)] @ replicate (Suc n) (0x60, 0xFF) \<and>
     irq_handlers t 0x21 = Some Kbd_int_handler"
proof -
  have tr: "outs (hw_trace boot_interrupts) = []" by (simp add: boot_interrupts_def)
  have cfg: "new_config 0x55 = 0x15"
    by (simp add: new_config_def set_bit_eq_or unset_bit_eq_and_not)
  show ?thesis
    using ps2_init_protocol [of 0 "\<lambda>_ port. if port = 0x64 then 1 else 0x55" boot_interrupts]
    unfolding tr by (auto simp: cfg)
qed

end
