(* ===== verification/Input_Codes.thy ===== *)
theory Input_Codes
  imports Kernull_Prelude
begin

text \<open>
  Key codes of \<^verbatim>\<open>src/include/kernel/input_codes.h\<close> and the
  translation tables of \<^verbatim>\<open>src/kernel/ps2_keyboard.c\<close>: scan codes of set 2 to key codes, key
  codes to characters.
\<close>

section \<open>Key codes\<close>

abbreviation KEY_RESERVED :: u8 where "KEY_RESERVED \<equiv> 0x00"
abbreviation KEY_ESC :: u8 where "KEY_ESC \<equiv> 0x01"
abbreviation KEY_1 :: u8 where "KEY_1 \<equiv> 0x02"
abbreviation KEY_2 :: u8 where "KEY_2 \<equiv> 0x03"
abbreviation KEY_3 :: u8 where "KEY_3 \<equiv> 0x04"
abbreviation KEY_4 :: u8 where "KEY_4 \<equiv> 0x05"
abbreviation KEY_5 :: u8 where "KEY_5 \<equiv> 0x06"
abbreviation KEY_6 :: u8 where "KEY_6 \<equiv> 0x07"
abbreviation KEY_7 :: u8 where "KEY_7 \<equiv> 0x08"
abbreviation KEY_8 :: u8 where "KEY_8 \<equiv> 0x09"
abbreviation KEY_9 :: u8 where "KEY_9 \<equiv> 0x0A"
abbreviation KEY_0 :: u8 where "KEY_0 \<equiv> 0x0B"
abbreviation KEY_MINUS :: u8 where "KEY_MINUS \<equiv> 0x0C"
abbreviation KEY_EQUAL :: u8 where "KEY_EQUAL \<equiv> 0x0D"
abbreviation KEY_BACKSPACE :: u8 where "KEY_BACKSPACE \<equiv> 0x0E"
abbreviation KEY_TAB :: u8 where "KEY_TAB \<equiv> 0x0F"
abbreviation KEY_Q :: u8 where "KEY_Q \<equiv> 0x10"
abbreviation KEY_W :: u8 where "KEY_W \<equiv> 0x11"
abbreviation KEY_E :: u8 where "KEY_E \<equiv> 0x12"
abbreviation KEY_R :: u8 where "KEY_R \<equiv> 0x13"
abbreviation KEY_T :: u8 where "KEY_T \<equiv> 0x14"
abbreviation KEY_Y :: u8 where "KEY_Y \<equiv> 0x15"
abbreviation KEY_U :: u8 where "KEY_U \<equiv> 0x16"
abbreviation KEY_I :: u8 where "KEY_I \<equiv> 0x17"
abbreviation KEY_O :: u8 where "KEY_O \<equiv> 0x18"
abbreviation KEY_P :: u8 where "KEY_P \<equiv> 0x19"
abbreviation KEY_LEFTBRACE :: u8 where "KEY_LEFTBRACE \<equiv> 0x1A"
abbreviation KEY_RIGHTBRACE :: u8 where "KEY_RIGHTBRACE \<equiv> 0x1B"
abbreviation KEY_ENTER :: u8 where "KEY_ENTER \<equiv> 0x1C"
abbreviation KEY_LEFTCTRL :: u8 where "KEY_LEFTCTRL \<equiv> 0x1D"
abbreviation KEY_A :: u8 where "KEY_A \<equiv> 0x1E"
abbreviation KEY_S :: u8 where "KEY_S \<equiv> 0x1F"
abbreviation KEY_D :: u8 where "KEY_D \<equiv> 0x20"
abbreviation KEY_F :: u8 where "KEY_F \<equiv> 0x21"
abbreviation KEY_G :: u8 where "KEY_G \<equiv> 0x22"
abbreviation KEY_H :: u8 where "KEY_H \<equiv> 0x23"
abbreviation KEY_J :: u8 where "KEY_J \<equiv> 0x24"
abbreviation KEY_K :: u8 where "KEY_K \<equiv> 0x25"
abbreviation KEY_L :: u8 where "KEY_L \<equiv> 0x26"
abbreviation KEY_SEMICOLON :: u8 where "KEY_SEMICOLON \<equiv> 0x27"
abbreviation KEY_APOSTROPHE :: u8 where "KEY_APOSTROPHE \<equiv> 0x28"
abbreviation KEY_GRAVE :: u8 where "KEY_GRAVE \<equiv> 0x29"
abbreviation KEY_LEFTSHIFT :: u8 where "KEY_LEFTSHIFT \<equiv> 0x2A"
abbreviation KEY_BACKSLASH :: u8 where "KEY_BACKSLASH \<equiv> 0x2B"
abbreviation KEY_Z :: u8 where "KEY_Z \<equiv> 0x2C"
abbreviation KEY_X :: u8 where "KEY_X \<equiv> 0x2D"
abbreviation KEY_C :: u8 where "KEY_C \<equiv> 0x2E"
abbreviation KEY_V :: u8 where "KEY_V \<equiv> 0x2F"
abbreviation KEY_B :: u8 where "KEY_B \<equiv> 0x30"
abbreviation KEY_N :: u8 where "KEY_N \<equiv> 0x31"
abbreviation KEY_M :: u8 where "KEY_M \<equiv> 0x32"
abbreviation KEY_COMMA :: u8 where "KEY_COMMA \<equiv> 0x33"
abbreviation KEY_DOT :: u8 where "KEY_DOT \<equiv> 0x34"
abbreviation KEY_SLASH :: u8 where "KEY_SLASH \<equiv> 0x35"
abbreviation KEY_RIGHTSHIFT :: u8 where "KEY_RIGHTSHIFT \<equiv> 0x36"
abbreviation KEY_KPASTERISK :: u8 where "KEY_KPASTERISK \<equiv> 0x37"
abbreviation KEY_LEFTALT :: u8 where "KEY_LEFTALT \<equiv> 0x38"
abbreviation KEY_SPACE :: u8 where "KEY_SPACE \<equiv> 0x39"
abbreviation KEY_CAPSLOCK :: u8 where "KEY_CAPSLOCK \<equiv> 0x3A"
abbreviation KEY_F1 :: u8 where "KEY_F1 \<equiv> 0x3B"
abbreviation KEY_F2 :: u8 where "KEY_F2 \<equiv> 0x3C"
abbreviation KEY_F3 :: u8 where "KEY_F3 \<equiv> 0x3D"
abbreviation KEY_F4 :: u8 where "KEY_F4 \<equiv> 0x3E"
abbreviation KEY_F5 :: u8 where "KEY_F5 \<equiv> 0x3F"
abbreviation KEY_F6 :: u8 where "KEY_F6 \<equiv> 0x40"
abbreviation KEY_F7 :: u8 where "KEY_F7 \<equiv> 0x41"
abbreviation KEY_F8 :: u8 where "KEY_F8 \<equiv> 0x42"
abbreviation KEY_F9 :: u8 where "KEY_F9 \<equiv> 0x43"
abbreviation KEY_F10 :: u8 where "KEY_F10 \<equiv> 0x44"
abbreviation KEY_NUMLOCK :: u8 where "KEY_NUMLOCK \<equiv> 0x45"
abbreviation KEY_SCROLLLOCK :: u8 where "KEY_SCROLLLOCK \<equiv> 0x46"
abbreviation KEY_KP7 :: u8 where "KEY_KP7 \<equiv> 0x47"
abbreviation KEY_KP8 :: u8 where "KEY_KP8 \<equiv> 0x48"
abbreviation KEY_KP9 :: u8 where "KEY_KP9 \<equiv> 0x49"
abbreviation KEY_KPMINUS :: u8 where "KEY_KPMINUS \<equiv> 0x4A"
abbreviation KEY_KP4 :: u8 where "KEY_KP4 \<equiv> 0x4B"
abbreviation KEY_KP5 :: u8 where "KEY_KP5 \<equiv> 0x4C"
abbreviation KEY_KP6 :: u8 where "KEY_KP6 \<equiv> 0x4D"
abbreviation KEY_KPPLUS :: u8 where "KEY_KPPLUS \<equiv> 0x4E"
abbreviation KEY_KP1 :: u8 where "KEY_KP1 \<equiv> 0x4F"
abbreviation KEY_KP2 :: u8 where "KEY_KP2 \<equiv> 0x50"
abbreviation KEY_KP3 :: u8 where "KEY_KP3 \<equiv> 0x51"
abbreviation KEY_KP0 :: u8 where "KEY_KP0 \<equiv> 0x52"
abbreviation KEY_KPDOT :: u8 where "KEY_KPDOT \<equiv> 0x53"
abbreviation KEY_102ND :: u8 where "KEY_102ND \<equiv> 0x56"
abbreviation KEY_F11 :: u8 where "KEY_F11 \<equiv> 0x57"
abbreviation KEY_F12 :: u8 where "KEY_F12 \<equiv> 0x58"
abbreviation KEY_RO :: u8 where "KEY_RO \<equiv> 0x59"
abbreviation KEY_KPENTER :: u8 where "KEY_KPENTER \<equiv> 0x60"
abbreviation KEY_RIGHTCTRL :: u8 where "KEY_RIGHTCTRL \<equiv> 0x61"
abbreviation KEY_KPSLASH :: u8 where "KEY_KPSLASH \<equiv> 0x62"
abbreviation KEY_SYSRQ :: u8 where "KEY_SYSRQ \<equiv> 0x63"
abbreviation KEY_RIGHTALT :: u8 where "KEY_RIGHTALT \<equiv> 0x64"
abbreviation KEY_LINEFEED :: u8 where "KEY_LINEFEED \<equiv> 0x65"
abbreviation KEY_HOME :: u8 where "KEY_HOME \<equiv> 0x66"
abbreviation KEY_UP :: u8 where "KEY_UP \<equiv> 0x67"
abbreviation KEY_PAGEUP :: u8 where "KEY_PAGEUP \<equiv> 0x68"
abbreviation KEY_LEFT :: u8 where "KEY_LEFT \<equiv> 0x69"
abbreviation KEY_RIGHT :: u8 where "KEY_RIGHT \<equiv> 0x6A"
abbreviation KEY_END :: u8 where "KEY_END \<equiv> 0x6B"
abbreviation KEY_DOWN :: u8 where "KEY_DOWN \<equiv> 0x6C"
abbreviation KEY_PAGEDOWN :: u8 where "KEY_PAGEDOWN \<equiv> 0x6D"
abbreviation KEY_INSERT :: u8 where "KEY_INSERT \<equiv> 0x6E"
abbreviation KEY_DELETE :: u8 where "KEY_DELETE \<equiv> 0x6F"
abbreviation KEY_MACRO :: u8 where "KEY_MACRO \<equiv> 0x70"
abbreviation KEY_MUTE :: u8 where "KEY_MUTE \<equiv> 0x71"
abbreviation KEY_VOLUMEDOWN :: u8 where "KEY_VOLUMEDOWN \<equiv> 0x72"
abbreviation KEY_VOLUMEUP :: u8 where "KEY_VOLUMEUP \<equiv> 0x73"
abbreviation KEY_POWER :: u8 where "KEY_POWER \<equiv> 0x74"
abbreviation KEY_KPEQUAL :: u8 where "KEY_KPEQUAL \<equiv> 0x75"
abbreviation KEY_KPPLUSMINUS :: u8 where "KEY_KPPLUSMINUS \<equiv> 0x76"
abbreviation KEY_PAUSE :: u8 where "KEY_PAUSE \<equiv> 0x77"
abbreviation KEY_SCALE :: u8 where "KEY_SCALE \<equiv> 0x78"
abbreviation KEY_KPCOMMA :: u8 where "KEY_KPCOMMA \<equiv> 0x79"
abbreviation KEY_LEFTMETA :: u8 where "KEY_LEFTMETA \<equiv> 0x7D"
abbreviation KEY_RIGHTMETA :: u8 where "KEY_RIGHTMETA \<equiv> 0x7E"
abbreviation KEY_COMPOSE :: u8 where "KEY_COMPOSE \<equiv> 0x7F"
abbreviation KEY_STOP :: u8 where "KEY_STOP \<equiv> 0x80"
abbreviation KEY_AGAIN :: u8 where "KEY_AGAIN \<equiv> 0x81"
abbreviation KEY_PROPS :: u8 where "KEY_PROPS \<equiv> 0x82"
abbreviation KEY_UNDO :: u8 where "KEY_UNDO \<equiv> 0x83"
abbreviation KEY_FRONT :: u8 where "KEY_FRONT \<equiv> 0x84"
abbreviation KEY_COPY :: u8 where "KEY_COPY \<equiv> 0x85"
abbreviation KEY_OPEN :: u8 where "KEY_OPEN \<equiv> 0x86"
abbreviation KEY_PASTE :: u8 where "KEY_PASTE \<equiv> 0x87"
abbreviation KEY_FIND :: u8 where "KEY_FIND \<equiv> 0x88"
abbreviation KEY_CUT :: u8 where "KEY_CUT \<equiv> 0x89"
abbreviation KEY_HELP :: u8 where "KEY_HELP \<equiv> 0x8A"
abbreviation KEY_MENU :: u8 where "KEY_MENU \<equiv> 0x8B"
abbreviation KEY_CALC :: u8 where "KEY_CALC \<equiv> 0x8C"
abbreviation KEY_SETUP :: u8 where "KEY_SETUP \<equiv> 0x8D"
abbreviation KEY_SLEEP :: u8 where "KEY_SLEEP \<equiv> 0x8E"
abbreviation KEY_WAKEUP :: u8 where "KEY_WAKEUP \<equiv> 0x8F"
abbreviation KEY_FILE :: u8 where "KEY_FILE \<equiv> 0x90"
abbreviation KEY_SENDFILE :: u8 where "KEY_SENDFILE \<equiv> 0x91"
abbreviation KEY_DELETEFILE :: u8 where "KEY_DELETEFILE \<equiv> 0x92"
abbreviation KEY_XFER :: u8 where "KEY_XFER \<equiv> 0x93"
abbreviation KEY_PROG1 :: u8 where "KEY_PROG1 \<equiv> 0x94"
abbreviation KEY_PROG2 :: u8 where "KEY_PROG2 \<equiv> 0x95"
abbreviation KEY_WWW :: u8 where "KEY_WWW \<equiv> 0x96"
abbreviation KEY_MSDOS :: u8 where "KEY_MSDOS \<equiv> 0x97"
abbreviation KEY_COFFEE :: u8 where "KEY_COFFEE \<equiv> 0x98"
abbreviation KEY_SCREENLOCK :: u8 where "KEY_SCREENLOCK \<equiv> KEY_COFFEE"
abbreviation KEY_ROTATE_DISPLAY :: u8 where "KEY_ROTATE_DISPLAY \<equiv> 0x99"
abbreviation KEY_DIRECTION :: u8 where "KEY_DIRECTION \<equiv> KEY_ROTATE_DISPLAY"
abbreviation KEY_CYCLEWINDOWS :: u8 where "KEY_CYCLEWINDOWS \<equiv> 0x9A"
abbreviation KEY_MAIL :: u8 where "KEY_MAIL \<equiv> 0x9B"
abbreviation KEY_BOOKMARKS :: u8 where "KEY_BOOKMARKS \<equiv> 0x9C"
abbreviation KEY_COMPUTER :: u8 where "KEY_COMPUTER \<equiv> 0x9D"
abbreviation KEY_BACK :: u8 where "KEY_BACK \<equiv> 0x9E"
abbreviation KEY_FORWARD :: u8 where "KEY_FORWARD \<equiv> 0x9F"
abbreviation KEY_CLOSECD :: u8 where "KEY_CLOSECD \<equiv> 0xA0"
abbreviation KEY_EJECTCD :: u8 where "KEY_EJECTCD \<equiv> 0xA1"
abbreviation KEY_EJECTCLOSECD :: u8 where "KEY_EJECTCLOSECD \<equiv> 0xA2"
abbreviation KEY_NEXTSONG :: u8 where "KEY_NEXTSONG \<equiv> 0xA3"
abbreviation KEY_PLAYPAUSE :: u8 where "KEY_PLAYPAUSE \<equiv> 0xA4"
abbreviation KEY_PREVIOUSSONG :: u8 where "KEY_PREVIOUSSONG \<equiv> 0xA5"
abbreviation KEY_STOPCD :: u8 where "KEY_STOPCD \<equiv> 0xA6"
abbreviation KEY_RECORD :: u8 where "KEY_RECORD \<equiv> 0xA7"
abbreviation KEY_REWIND :: u8 where "KEY_REWIND \<equiv> 0xA8"
abbreviation KEY_PHONE :: u8 where "KEY_PHONE \<equiv> 0xA9"
abbreviation KEY_ISO :: u8 where "KEY_ISO \<equiv> 0xAA"
abbreviation KEY_CONFIG :: u8 where "KEY_CONFIG \<equiv> 0xAB"
abbreviation KEY_HOMEPAGE :: u8 where "KEY_HOMEPAGE \<equiv> 0xAC"
abbreviation KEY_REFRESH :: u8 where "KEY_REFRESH \<equiv> 0xAD"
abbreviation KEY_EXIT :: u8 where "KEY_EXIT \<equiv> 0xAE"
abbreviation KEY_MOVE :: u8 where "KEY_MOVE \<equiv> 0xAF"
abbreviation KEY_EDIT :: u8 where "KEY_EDIT \<equiv> 0xB0"
abbreviation KEY_SCROLLUP :: u8 where "KEY_SCROLLUP \<equiv> 0xB1"
abbreviation KEY_SCROLLDOWN :: u8 where "KEY_SCROLLDOWN \<equiv> 0xB2"
abbreviation KEY_KPLEFTPAREN :: u8 where "KEY_KPLEFTPAREN \<equiv> 0xB3"
abbreviation KEY_KPRIGHTPAREN :: u8 where "KEY_KPRIGHTPAREN \<equiv> 0xB4"
abbreviation KEY_NEW :: u8 where "KEY_NEW \<equiv> 0xB5"
abbreviation KEY_REDO :: u8 where "KEY_REDO \<equiv> 0xB6"
abbreviation KEY_F13 :: u8 where "KEY_F13 \<equiv> 0xB7"
abbreviation KEY_F14 :: u8 where "KEY_F14 \<equiv> 0xB8"
abbreviation KEY_F15 :: u8 where "KEY_F15 \<equiv> 0xB9"
abbreviation KEY_F16 :: u8 where "KEY_F16 \<equiv> 0xBA"
abbreviation KEY_F17 :: u8 where "KEY_F17 \<equiv> 0xBB"
abbreviation KEY_F18 :: u8 where "KEY_F18 \<equiv> 0xBC"
abbreviation KEY_F19 :: u8 where "KEY_F19 \<equiv> 0xBD"
abbreviation KEY_F20 :: u8 where "KEY_F20 \<equiv> 0xBE"
abbreviation KEY_F21 :: u8 where "KEY_F21 \<equiv> 0xBF"
abbreviation KEY_F22 :: u8 where "KEY_F22 \<equiv> 0xC0"
abbreviation KEY_F23 :: u8 where "KEY_F23 \<equiv> 0xC1"
abbreviation KEY_F24 :: u8 where "KEY_F24 \<equiv> 0xC2"
abbreviation KEY_PLAYCD :: u8 where "KEY_PLAYCD \<equiv> 0xC8"
abbreviation KEY_PAUSECD :: u8 where "KEY_PAUSECD \<equiv> 0xC9"
abbreviation KEY_PROG3 :: u8 where "KEY_PROG3 \<equiv> 0xCA"
abbreviation KEY_PROG4 :: u8 where "KEY_PROG4 \<equiv> 0xCB"
abbreviation KEY_ALL_APPLICATIONS :: u8 where "KEY_ALL_APPLICATIONS \<equiv> 0xCC"
abbreviation KEY_DASHBOARD :: u8 where "KEY_DASHBOARD \<equiv> KEY_ALL_APPLICATIONS"
abbreviation KEY_SUSPEND :: u8 where "KEY_SUSPEND \<equiv> 0xCD"
abbreviation KEY_CLOSE :: u8 where "KEY_CLOSE \<equiv> 0xCE"
abbreviation KEY_PLAY :: u8 where "KEY_PLAY \<equiv> 0xCF"
abbreviation KEY_FASTFORWARD :: u8 where "KEY_FASTFORWARD \<equiv> 0xD0"
abbreviation KEY_BASSBOOST :: u8 where "KEY_BASSBOOST \<equiv> 0xD1"
abbreviation KEY_PRINT :: u8 where "KEY_PRINT \<equiv> 0xD2"
abbreviation KEY_HP :: u8 where "KEY_HP \<equiv> 0xD3"
abbreviation KEY_CAMERA :: u8 where "KEY_CAMERA \<equiv> 0xD4"
abbreviation KEY_SOUND :: u8 where "KEY_SOUND \<equiv> 0xD5"
abbreviation KEY_QUESTION :: u8 where "KEY_QUESTION \<equiv> 0xD6"
abbreviation KEY_EMAIL :: u8 where "KEY_EMAIL \<equiv> 0xD7"
abbreviation KEY_CHAT :: u8 where "KEY_CHAT \<equiv> 0xD8"
abbreviation KEY_SEARCH :: u8 where "KEY_SEARCH \<equiv> 0xD9"
abbreviation KEY_CONNECT :: u8 where "KEY_CONNECT \<equiv> 0xDA"
abbreviation KEY_FINANCE :: u8 where "KEY_FINANCE \<equiv> 0xDB"
abbreviation KEY_SPORT :: u8 where "KEY_SPORT \<equiv> 0xDC"
abbreviation KEY_SHOP :: u8 where "KEY_SHOP \<equiv> 0xDD"
abbreviation KEY_ALTERASE :: u8 where "KEY_ALTERASE \<equiv> 0xDE"
abbreviation KEY_CANCEL :: u8 where "KEY_CANCEL \<equiv> 0xDF"
abbreviation KEY_BRIGHTNESSDOWN :: u8 where "KEY_BRIGHTNESSDOWN \<equiv> 0xE0"
abbreviation KEY_BRIGHTNESSUP :: u8 where "KEY_BRIGHTNESSUP \<equiv> 0xE1"
abbreviation KEY_MEDIA :: u8 where "KEY_MEDIA \<equiv> 0xE2"
abbreviation KEY_SWITCHVIDEOMODE :: u8 where "KEY_SWITCHVIDEOMODE \<equiv> 0xE3"
abbreviation KEY_KBDILLUMTOGGLE :: u8 where "KEY_KBDILLUMTOGGLE \<equiv> 0xE4"
abbreviation KEY_KBDILLUMDOWN :: u8 where "KEY_KBDILLUMDOWN \<equiv> 0xE5"
abbreviation KEY_KBDILLUMUP :: u8 where "KEY_KBDILLUMUP \<equiv> 0xE6"
abbreviation KEY_SEND :: u8 where "KEY_SEND \<equiv> 0xE7"
abbreviation KEY_REPLY :: u8 where "KEY_REPLY \<equiv> 0xE8"
abbreviation KEY_FORWARDMAIL :: u8 where "KEY_FORWARDMAIL \<equiv> 0xE9"
abbreviation KEY_SAVE :: u8 where "KEY_SAVE \<equiv> 0xEA"
abbreviation KEY_DOCUMENTS :: u8 where "KEY_DOCUMENTS \<equiv> 0xEB"
abbreviation KEY_BATTERY :: u8 where "KEY_BATTERY \<equiv> 0xEC"
abbreviation KEY_BLUETOOTH :: u8 where "KEY_BLUETOOTH \<equiv> 0xED"
abbreviation KEY_WLAN :: u8 where "KEY_WLAN \<equiv> 0xEE"
abbreviation KEY_UWB :: u8 where "KEY_UWB \<equiv> 0xEF"
abbreviation KEY_UNKNOWN :: u8 where "KEY_UNKNOWN \<equiv> 0xF0"
abbreviation KEY_VIDEO_NEXT :: u8 where "KEY_VIDEO_NEXT \<equiv> 0xF1"
abbreviation KEY_VIDEO_PREV :: u8 where "KEY_VIDEO_PREV \<equiv> 0xF2"
abbreviation KEY_BRIGHTNESS_CYCLE :: u8 where "KEY_BRIGHTNESS_CYCLE \<equiv> 0xF3"
abbreviation KEY_BRIGHTNESS_AUTO :: u8 where "KEY_BRIGHTNESS_AUTO \<equiv> 0xF4"
abbreviation KEY_BRIGHTNESS_ZERO :: u8 where "KEY_BRIGHTNESS_ZERO \<equiv> KEY_BRIGHTNESS_AUTO"
abbreviation KEY_DISPLAY_OFF :: u8 where "KEY_DISPLAY_OFF \<equiv> 0xF5"
abbreviation KEY_WWAN :: u8 where "KEY_WWAN \<equiv> 0xF6"
abbreviation KEY_WIMAX :: u8 where "KEY_WIMAX \<equiv> KEY_WWAN"
abbreviation KEY_RFKILL :: u8 where "KEY_RFKILL \<equiv> 0xF7"
abbreviation KEY_MICMUTE :: u8 where "KEY_MICMUTE \<equiv> 0xF8"

text \<open>
  Every code of the header once, in its order; five further names are aliases.  The codes ascend, so that
  an event names one key.
\<close>

definition key_codes :: "u8 list" where
  "key_codes =
     [
      KEY_RESERVED, KEY_ESC, KEY_1, KEY_2, KEY_3, KEY_4, KEY_5, KEY_6, KEY_7, KEY_8, KEY_9, KEY_0, KEY_MINUS,
      KEY_EQUAL, KEY_BACKSPACE, KEY_TAB, KEY_Q, KEY_W, KEY_E, KEY_R, KEY_T, KEY_Y, KEY_U, KEY_I, KEY_O, KEY_P,
      KEY_LEFTBRACE, KEY_RIGHTBRACE, KEY_ENTER, KEY_LEFTCTRL, KEY_A, KEY_S, KEY_D, KEY_F, KEY_G, KEY_H, KEY_J,
      KEY_K, KEY_L, KEY_SEMICOLON, KEY_APOSTROPHE, KEY_GRAVE, KEY_LEFTSHIFT, KEY_BACKSLASH, KEY_Z, KEY_X, KEY_C,
      KEY_V, KEY_B, KEY_N, KEY_M, KEY_COMMA, KEY_DOT, KEY_SLASH, KEY_RIGHTSHIFT, KEY_KPASTERISK, KEY_LEFTALT,
      KEY_SPACE, KEY_CAPSLOCK, KEY_F1, KEY_F2, KEY_F3, KEY_F4, KEY_F5, KEY_F6, KEY_F7, KEY_F8, KEY_F9, KEY_F10,
      KEY_NUMLOCK, KEY_SCROLLLOCK, KEY_KP7, KEY_KP8, KEY_KP9, KEY_KPMINUS, KEY_KP4, KEY_KP5, KEY_KP6,
      KEY_KPPLUS, KEY_KP1, KEY_KP2, KEY_KP3, KEY_KP0, KEY_KPDOT, KEY_102ND, KEY_F11, KEY_F12, KEY_RO,
      KEY_KPENTER, KEY_RIGHTCTRL, KEY_KPSLASH, KEY_SYSRQ, KEY_RIGHTALT, KEY_LINEFEED, KEY_HOME, KEY_UP,
      KEY_PAGEUP, KEY_LEFT, KEY_RIGHT, KEY_END, KEY_DOWN, KEY_PAGEDOWN, KEY_INSERT, KEY_DELETE, KEY_MACRO,
      KEY_MUTE, KEY_VOLUMEDOWN, KEY_VOLUMEUP, KEY_POWER, KEY_KPEQUAL, KEY_KPPLUSMINUS, KEY_PAUSE, KEY_SCALE,
      KEY_KPCOMMA, KEY_LEFTMETA, KEY_RIGHTMETA, KEY_COMPOSE, KEY_STOP, KEY_AGAIN, KEY_PROPS, KEY_UNDO,
      KEY_FRONT, KEY_COPY, KEY_OPEN, KEY_PASTE, KEY_FIND, KEY_CUT, KEY_HELP, KEY_MENU, KEY_CALC, KEY_SETUP,
      KEY_SLEEP, KEY_WAKEUP, KEY_FILE, KEY_SENDFILE, KEY_DELETEFILE, KEY_XFER, KEY_PROG1, KEY_PROG2, KEY_WWW,
      KEY_MSDOS, KEY_COFFEE, KEY_ROTATE_DISPLAY, KEY_CYCLEWINDOWS, KEY_MAIL, KEY_BOOKMARKS, KEY_COMPUTER,
      KEY_BACK, KEY_FORWARD, KEY_CLOSECD, KEY_EJECTCD, KEY_EJECTCLOSECD, KEY_NEXTSONG, KEY_PLAYPAUSE,
      KEY_PREVIOUSSONG, KEY_STOPCD, KEY_RECORD, KEY_REWIND, KEY_PHONE, KEY_ISO, KEY_CONFIG, KEY_HOMEPAGE,
      KEY_REFRESH, KEY_EXIT, KEY_MOVE, KEY_EDIT, KEY_SCROLLUP, KEY_SCROLLDOWN, KEY_KPLEFTPAREN,
      KEY_KPRIGHTPAREN, KEY_NEW, KEY_REDO, KEY_F13, KEY_F14, KEY_F15, KEY_F16, KEY_F17, KEY_F18, KEY_F19,
      KEY_F20, KEY_F21, KEY_F22, KEY_F23, KEY_F24, KEY_PLAYCD, KEY_PAUSECD, KEY_PROG3, KEY_PROG4,
      KEY_ALL_APPLICATIONS, KEY_SUSPEND, KEY_CLOSE, KEY_PLAY, KEY_FASTFORWARD, KEY_BASSBOOST, KEY_PRINT, KEY_HP,
      KEY_CAMERA, KEY_SOUND, KEY_QUESTION, KEY_EMAIL, KEY_CHAT, KEY_SEARCH, KEY_CONNECT, KEY_FINANCE, KEY_SPORT,
      KEY_SHOP, KEY_ALTERASE, KEY_CANCEL, KEY_BRIGHTNESSDOWN, KEY_BRIGHTNESSUP, KEY_MEDIA, KEY_SWITCHVIDEOMODE,
      KEY_KBDILLUMTOGGLE, KEY_KBDILLUMDOWN, KEY_KBDILLUMUP, KEY_SEND, KEY_REPLY, KEY_FORWARDMAIL, KEY_SAVE,
      KEY_DOCUMENTS, KEY_BATTERY, KEY_BLUETOOTH, KEY_WLAN, KEY_UWB, KEY_UNKNOWN, KEY_VIDEO_NEXT, KEY_VIDEO_PREV,
      KEY_BRIGHTNESS_CYCLE, KEY_BRIGHTNESS_AUTO, KEY_DISPLAY_OFF, KEY_WWAN, KEY_RFKILL, KEY_MICMUTE]"

lemma key_codes_ascend: "sorted_wrt (<) key_codes"
  unfolding key_codes_def by (simp add: sorted_wrt2_simps del: sorted_wrt.simps(2))

lemma key_codes_distinct: "distinct key_codes"
  using key_codes_ascend by (simp add: strict_sorted_iff)

section \<open>Tables\<close>

definition scan2_norm_to_keycode :: "u8 list" where
  "scan2_norm_to_keycode =
     [
      0, KEY_F9, 0, KEY_F5, KEY_F3, KEY_F1, KEY_F2, KEY_F12,
      0, KEY_F10, KEY_F8, KEY_F6, KEY_F4, KEY_TAB, KEY_GRAVE, 0,
      0, KEY_LEFTALT, KEY_LEFTSHIFT, 0, KEY_LEFTCTRL, KEY_Q, KEY_1, 0,
      0, 0, KEY_Z, KEY_S, KEY_A, KEY_W, KEY_2, 0,
      0, KEY_C, KEY_X, KEY_D, KEY_E, KEY_4, KEY_3, 0,
      0, KEY_SPACE, KEY_V, KEY_F, KEY_T, KEY_R, KEY_5, 0,
      0, KEY_N, KEY_B, KEY_H, KEY_G, KEY_Y, KEY_6, 0,
      0, 0, KEY_M, KEY_J, KEY_U, KEY_7, KEY_8, 0,
      0, KEY_COMMA, KEY_K, KEY_I, KEY_O, KEY_0, KEY_9, 0,
      0, KEY_DOT, KEY_SLASH, KEY_L, KEY_SEMICOLON, KEY_P, KEY_MINUS, 0,
      0, 0, KEY_APOSTROPHE, 0, KEY_LEFTBRACE, KEY_EQUAL, 0, 0,
      KEY_CAPSLOCK, KEY_RIGHTSHIFT, KEY_ENTER, KEY_RIGHTBRACE, 0, KEY_BACKSLASH, 0, 0,
      0, 0, 0, 0, 0, 0, KEY_BACKSPACE, 0,
      0, KEY_KP1, 0, 0, 0, KEY_KP7, 0, 0,
      KEY_KP0, KEY_KPDOT, KEY_KP2, KEY_KP5, KEY_KP6, KEY_KP8, KEY_ESC, KEY_NUMLOCK,
      KEY_F11, KEY_KPPLUS, KEY_KP3, KEY_KPMINUS, KEY_KPASTERISK, KEY_KP9, KEY_SCROLLLOCK, 0,
      0, 0, 0, KEY_F7]"

definition scan2_ext_to_keycode :: "u8 list" where
  "scan2_ext_to_keycode =
     [
      0, 0, 0, 0, 0, 0, 0, 0,
      0, 0, 0, 0, 0, 0, 0, 0,
      KEY_WWW, KEY_RIGHTALT, 0, 0, KEY_RIGHTCTRL, KEY_PREVIOUSSONG, 0, 0,
      KEY_BOOKMARKS, 0, 0, 0, 0, 0, 0, KEY_LEFTMETA,
      KEY_REFRESH, KEY_VOLUMEDOWN, 0, KEY_MUTE, 0, 0, 0, KEY_RIGHTMETA,
      KEY_STOP, 0, KEY_CALC, 0, 0, 0, 0, KEY_ALL_APPLICATIONS,
      KEY_FORWARD, 0, KEY_VOLUMEUP, 0, KEY_PLAY, 0, 0, KEY_POWER,
      KEY_BACK, 0, KEY_HOMEPAGE, KEY_STOPCD, 0, 0, 0, KEY_SLEEP,
      KEY_COMPUTER, 0, 0, 0, 0, 0, 0, 0,
      KEY_EMAIL, 0, KEY_KPSLASH, 0, 0, KEY_NEXTSONG, 0, 0,
      KEY_MEDIA, 0, 0, 0, 0, 0, 0, 0,
      0, 0, KEY_KPENTER, 0, 0, 0, KEY_WAKEUP, 0,
      0, 0, 0, 0, 0, 0, 0, 0,
      0, KEY_END, 0, KEY_LEFT, KEY_HOME, 0, 0, 0,
      KEY_INSERT, KEY_DELETE, KEY_DOWN, 0, KEY_RIGHT, KEY_UP, 0, 0,
      0, 0, KEY_PAGEDOWN, 0, 0, KEY_PAGEDOWN, 0, 0]"

text \<open>
  The initialiser of \<open>keycode_to_char[256]\<close>; the rest of the array is zero.
\<close>

definition keycode_chars :: "u8 list" where
  "keycode_chars =
     map of_char ''001234567890-='' @ [0, 9] @ map of_char ''qwertyuiop[]'' @ [0, 0] @
     map of_char ''asdfghjkl;'' @ [39] @ map of_char ''`'' @ [0, 92] @ map of_char ''zxcvbnm,./'' @
     [0] @ map of_char ''*'' @ [0] @ map of_char '' ''"

definition keycode_to_char :: "u8 list" where
  "keycode_to_char = keycode_chars @ replicate (256 - length keycode_chars) 0"

lemma length_tables [simp]:
  "length scan2_norm_to_keycode = 132" "length scan2_ext_to_keycode = 128"
  "length keycode_to_char = 256"
  by (simp_all add: scan2_norm_to_keycode_def scan2_ext_to_keycode_def keycode_to_char_def
      keycode_chars_def)

text \<open>The characters are ASCII, so the conversion of a \<open>char\<close> to \<open>int\<close> keeps them.\<close>

lemma keycode_to_char_ascii: "c \<in> set keycode_to_char \<Longrightarrow> c < 128"
  by (auto simp: keycode_to_char_def keycode_chars_def)

section \<open>Scan codes and keys\<close>

text \<open>The table a scan code is looked up in, with or without the prefix 0xE0.\<close>

definition scan_table :: "bool \<Rightarrow> u8 list" where
  "scan_table ext = (if ext then scan2_ext_to_keycode else scan2_norm_to_keycode)"

lemma distinct_filter_nth:
  "distinct (filter P xs) \<Longrightarrow> i < length xs \<Longrightarrow> j < length xs \<Longrightarrow> P (xs ! i) \<Longrightarrow> xs ! i = xs ! j \<Longrightarrow> i = j"
proof (induction xs arbitrary: i j)
  case (Cons x xs)
  have "P x \<Longrightarrow> k < length xs \<Longrightarrow> xs ! k \<noteq> x" for k using Cons.prems(1) by auto
  moreover have "distinct (filter P xs)" using Cons.prems(1) by (cases "P x") simp_all
  ultimately show ?case using Cons.prems(2-5) Cons.IH by (cases i; cases j) auto
qed simp

text \<open>Both tables in a row, without the second entry for Page Down.\<close>

lemma keys_distinct:
  "distinct (filter (\<lambda>k. k \<noteq> 0) ((scan2_norm_to_keycode @ scan2_ext_to_keycode)[257 := 0]))"
  by (simp add: scan2_norm_to_keycode_def scan2_ext_to_keycode_def)

lemma key_index: "c < length (scan_table ext) \<Longrightarrow>
  scan_table ext ! c = (scan2_norm_to_keycode @ scan2_ext_to_keycode) ! (if ext then 132 + c else c)"
  by (auto simp: scan_table_def nth_append split: if_splits)

lemma page_down_codes: "scan2_ext_to_keycode ! 0x7A = KEY_PAGEDOWN" "scan2_ext_to_keycode ! 0x7D = KEY_PAGEDOWN"
  by (simp_all add: scan2_ext_to_keycode_def)

text \<open>
  A key has one scan code: in the two tables of scan code set 2 no two positions hold the same key
  code, except for the extended codes 0x7A and 0x7D, of which the second is Page Up on the keyboard.
\<close>

lemma key_has_one_scan_code:
  assumes "c < length (scan_table ext)" "c' < length (scan_table ext')"
    and "scan_table ext ! c = scan_table ext' ! c'" "scan_table ext ! c \<noteq> 0"
  shows "ext = ext' \<and> c = c' \<or> ext \<and> ext' \<and> {c, c'} = {0x7A, 0x7D}"
proof -
  let ?all = "scan2_norm_to_keycode @ scan2_ext_to_keycode"
  let ?pos = "\<lambda>e c. if e then 132 + c else (c :: nat)"
  have lt: "?pos ext c < 260" "?pos ext' c' < 260" and pos: "?pos ext c = ?pos ext' c' \<Longrightarrow> ext = ext' \<and> c = c'"
    using assms(1,2) by (auto simp: scan_table_def split: if_splits)
  have same: "i = j" if "i < 260" "j < 260" "i \<noteq> 257" "j \<noteq> 257" "?all ! i = ?all ! j" "?all ! i \<noteq> 0" for i j
    using distinct_filter_nth [OF keys_distinct, of i j] that by simp
  have pd: "?all ! 257 = KEY_PAGEDOWN" "?all ! 254 = KEY_PAGEDOWN" using page_down_codes by (simp_all add: nth_append)
  have only: "i = 254" if "i < 260" "i \<noteq> 257" "?all ! i = ?all ! 257" for i
    using same [of i 254] that pd by simp
  note k = assms(3,4) [unfolded key_index [OF assms(1)] key_index [OF assms(2)]]
  define i j where "i = ?pos ext c" and "j = ?pos ext' c'"
  have "i = j \<or> i = 257 \<and> j = 254 \<or> i = 254 \<and> j = 257"
    using lt k unfolding i_def [symmetric] j_def [symmetric]
    by (cases "i = 257"; cases "j = 257") (auto dest: same only)
  then consider "?pos ext c = ?pos ext' c'" | "?pos ext c = 257" "?pos ext' c' = 254" | "?pos ext c = 254" "?pos ext' c' = 257"
    unfolding i_def j_def by blast
  then show ?thesis
    using pos assms(1,2) by cases (auto simp: scan_table_def split: if_splits)
qed

text \<open>The key code of A stands at one place only.\<close>

lemma key_has_one_scan_code_witness:
  "scan_table False ! 0x1C = KEY_A \<and> (\<forall>c < 128. scan_table True ! c \<noteq> KEY_A)"
proof -
  have a: "scan_table False ! 0x1C = KEY_A" by (simp add: scan_table_def scan2_norm_to_keycode_def)
  have "scan_table True ! c \<noteq> KEY_A" if "c < 128" for c
    using key_has_one_scan_code [of "0x1C" False c True] that a by (auto simp: scan_table_def)
  then show ?thesis using a by blast
qed

end
