(* ===== verification/Ps2_Keyboard.thy ===== *)
theory Ps2_Keyboard
  imports Ps2_Controller Input_Codes
begin

text \<open>
  The PS/2 keyboard driver, \<^verbatim>\<open>src/kernel/ps2_keyboard.c\<close>: the ring buffer of pending
  commands, the command protocol with its driver state, the scan code decoder with its static
  variables, and the interrupt handler of \<^verbatim>\<open>ps2_8042.c\<close> that feeds it.
\<close>

section \<open>State\<close>

record ps2_kbd_command =
  com :: u8
  arg :: u8

abbreviation COMMAND_NO_ARG :: u8 where "COMMAND_NO_ARG \<equiv> 0xFF"
abbreviation COMMAND_QUEUE_SIZE :: u64 where "COMMAND_QUEUE_SIZE \<equiv> 8"

abbreviation STATE_READY :: u8 where "STATE_READY \<equiv> 0"
abbreviation STATE_WAITING_COM_ACK :: u8 where "STATE_WAITING_COM_ACK \<equiv> 1"
abbreviation STATE_WAITING_ARG_ACK :: u8 where "STATE_WAITING_ARG_ACK \<equiv> 2"

abbreviation ACK :: u8 where "ACK \<equiv> 0xFA"
abbreviation RESEND :: u8 where "RESEND \<equiv> 0xFE"
abbreviation SCAN_CODE_SET_1 :: u8 where "SCAN_CODE_SET_1 \<equiv> 0x43"
abbreviation SCAN_CODE_SET_2 :: u8 where "SCAN_CODE_SET_2 \<equiv> 0x41"
abbreviation SCAN_CODE_SET_3 :: u8 where "SCAN_CODE_SET_3 \<equiv> 0x3F"
abbreviation EMUL0 :: u8 where "EMUL0 \<equiv> 0xE0"
abbreviation EMUL1 :: u8 where "EMUL1 \<equiv> 0xE1"
abbreviation RELEASE :: u8 where "RELEASE \<equiv> 0xF0"
abbreviation PS2_KBD_COM_ECHO :: u8 where "PS2_KBD_COM_ECHO \<equiv> 0xEE"
abbreviation PS2_KBD_COM_SET_SCAN_SET :: u8 where "PS2_KBD_COM_SET_SCAN_SET \<equiv> 0xF0"
abbreviation INPUT_FLAG_KEY_RELEASED :: u16 where "INPUT_FLAG_KEY_RELEASED \<equiv> 0x1"

text \<open>
  The decoder's statics are fields too; \<open>scan_code_ptr\<close> is kept as an index into
  \<open>scan_code_buf\<close>.
\<close>

record kbd = interrupts +
  command_queue :: "u64 \<Rightarrow> ps2_kbd_command"
  next_command_idx :: u64
  pending_commands :: u64
  driver_state :: u8
  kbd_scan_code_set :: u8
  ext0 :: u8
  released :: u8
  ext1 :: u8
  scan_code_buf :: "u64 \<Rightarrow> u8"
  scan_code_ptr :: u64
  expect :: u8
  is_pause :: u8
  is_sysrq :: u8

record input_event =
  ev_flags :: u16
  ev_code :: u16

section \<open>Command queue\<close>

definition queue_add :: "u8 \<Rightarrow> u8 \<Rightarrow> 'a kbd_scheme \<Rightarrow> 'a kbd_scheme" where
  "queue_add c a s =
     (if pending_commands s < COMMAND_QUEUE_SIZE then
        s\<lparr>command_queue := (command_queue s)(next_command_idx s := \<lparr>com = c, arg = a\<rparr>),
          next_command_idx := (next_command_idx s + 1) mod COMMAND_QUEUE_SIZE,
          pending_commands := pending_commands s + 1\<rparr>
      else s)"

definition queue_discard :: "'a kbd_scheme \<Rightarrow> 'a kbd_scheme" where
  "queue_discard s =
     (if 0 < pending_commands s then s\<lparr>pending_commands := pending_commands s - 1\<rparr> else s)"

definition current_command :: "'a kbd_scheme \<Rightarrow> ps2_kbd_command" where
  "current_command s =
     (if 0 < pending_commands s then
        let idx = ((next_command_idx s + COMMAND_QUEUE_SIZE) - pending_commands s)
                    mod COMMAND_QUEUE_SIZE
        in command_queue s idx
      else \<lparr>com = 0, arg = 0\<rparr>)"

section \<open>Commands\<close>

definition ps2_kbd_command_arg ::
  "device \<Rightarrow> u8 \<Rightarrow> u8 \<Rightarrow> 'a kbd_scheme \<Rightarrow> 'a kbd_scheme" where
  "ps2_kbd_command_arg dev c a s =
     (let s = ps2_port1_disable dev s;
          s = (if pending_commands s < COMMAND_QUEUE_SIZE then
                 let s = queue_add c a s;
                     s = (if pending_commands s = 1 then
                            ps2_port1_write dev c (s\<lparr>driver_state := STATE_WAITING_COM_ACK\<rparr>)
                          else s)
                 in if c = PS2_KBD_COM_SET_SCAN_SET \<and> a \<noteq> 0
                    then queue_add PS2_KBD_COM_SET_SCAN_SET 0x00 s else s
               else s)
      in ps2_port1_enable dev s)"

definition ps2_kbd_command :: "device \<Rightarrow> u8 \<Rightarrow> 'a kbd_scheme \<Rightarrow> 'a kbd_scheme" where
  "ps2_kbd_command dev c s = ps2_kbd_command_arg dev c COMMAND_NO_ARG s"

definition handle_next_command :: "device \<Rightarrow> 'a kbd_scheme \<Rightarrow> 'a kbd_scheme" where
  "handle_next_command dev s =
     (let s = queue_discard s
      in if 0 < pending_commands s then
           let s = s\<lparr>driver_state := STATE_WAITING_COM_ACK\<rparr>
           in ps2_port1_write dev (com (current_command s)) s
         else s\<lparr>driver_state := STATE_READY\<rparr>)"

section \<open>Scan code decoder\<close>

definition table_lookup :: "u8 list \<Rightarrow> u8 \<Rightarrow> u8 result" where
  "table_lookup t i = (if unat i < length t then Inr (t ! unat i) else Inl OutOfBounds)"

text \<open>The event of a complete scan code.\<close>

definition scan_event :: "u8 \<Rightarrow> 'a kbd_scheme \<Rightarrow> (input_event \<times> 'a kbd_scheme) result" where
  "scan_event data s =
     (if is_sysrq s \<noteq> 0 then
        Inr (\<lparr>ev_flags = 0, ev_code = ucast KEY_SYSRQ\<rparr>, s\<lparr>is_sysrq := 0\<rparr>)
      else if is_pause s \<noteq> 0 then
        Inr (\<lparr>ev_flags = 0, ev_code = ucast KEY_PAUSE\<rparr>, s\<lparr>is_pause := 0\<rparr>)
      else
        rbind (table_lookup (if ext0 s \<noteq> 0 then scan2_ext_to_keycode else scan2_norm_to_keycode) data)
          (\<lambda>k. Inr (\<lparr>ev_flags = (if released s \<noteq> 0 then INPUT_FLAG_KEY_RELEASED else 0),
                     ev_code = ucast k\<rparr>, s)))"

definition print_event :: "input_event \<Rightarrow> 'a kbd_scheme \<Rightarrow> 'a kbd_scheme result" where
  "print_event event s =
     (if ev_flags event AND INPUT_FLAG_KEY_RELEASED = 0 then
        (if unat (ev_code event) < length keycode_to_char then
           let c = keycode_to_char ! unat (ev_code event)
           in if c \<noteq> 0 then printk ''%c'' [Slot (scast c)] s else Inr s
         else Inl OutOfBounds)
      else Inr s)"

text \<open>The decoder proper, after the byte was stored and counted.\<close>

definition decode_byte :: "u8 \<Rightarrow> 'a kbd_scheme \<Rightarrow> 'a kbd_scheme result" where
  "decode_byte data s =
     (if data = EMUL1 then Inr (s\<lparr>ext1 := 1, expect := expect s + 2\<rparr>)
      else if data = EMUL0 then Inr (s\<lparr>ext0 := 1, expect := expect s + 1\<rparr>)
      else if data = RELEASE then Inr (s\<lparr>released := 1, expect := expect s + 1\<rparr>)
      else if ext0 s \<noteq> 0 \<and> released s = 0 \<and> data = 0x12 then
        Inr (s\<lparr>is_sysrq := 1, ext0 := 0, expect := expect s + 1\<rparr>)
      else if ext0 s \<noteq> 0 \<and> released s \<noteq> 0 \<and> data = 0x7C then
        Inr (s\<lparr>is_sysrq := 1, ext0 := 0, released := 1, expect := expect s + 1\<rparr>)
      else if ext1 s \<noteq> 0 \<and> released s \<noteq> 0 \<and> data = 0x77 then
        Inr (s\<lparr>is_pause := 1, expect := 0\<rparr>)
      else if expect s = 0 then
        rbind (scan_event data s) (\<lambda>(event, s).
          rbind (print_event event s) (\<lambda>s.
            Inr (s\<lparr>ext1 := 0, ext0 := 0, released := 0, scan_code_ptr := 0, expect := 1\<rparr>)))
      else Inr s)"

definition handle_data :: "u8 \<Rightarrow> 'a kbd_scheme \<Rightarrow> 'a kbd_scheme result" where
  "handle_data data s =
     (if 8 \<le> scan_code_ptr s then Inl OutOfBounds
      else
        let s = s\<lparr>scan_code_buf := (scan_code_buf s)(scan_code_ptr s := data)\<rparr>;
            s = s\<lparr>scan_code_ptr := scan_code_ptr s + 1\<rparr>;
            s = s\<lparr>expect := expect s - 1\<rparr>
        in decode_byte data s)"

section \<open>Interrupts from the keyboard\<close>

definition report_no_ack :: "u8 \<Rightarrow> ps2_kbd_command \<Rightarrow> 'a kbd_scheme \<Rightarrow> 'a kbd_scheme result" where
  "report_no_ack data command s =
     (if data \<noteq> ACK \<and> com command \<noteq> PS2_KBD_COM_ECHO then
        rbind (printk ''ps2_kbd: expected ACK for '' [] s) (\<lambda>s.
        rbind (if driver_state s = STATE_WAITING_ARG_ACK then printk ''arg of '' [] s else Inr s) (\<lambda>s.
          printk (''command (0x%x, 0x%x). Got 0x%x'' @ [CHR 0x0A])
            [Slot (ucast (com command)), Slot (ucast (arg command)), Slot (ucast data)] s))
      else Inr s)"

definition ask_scan_set :: "device \<Rightarrow> 'a kbd_scheme \<Rightarrow> 'a kbd_scheme result" where
  "ask_scan_set dev s =
     (let (data, s) = ps2_data_read dev s
      in if data = SCAN_CODE_SET_1 then Inr (s\<lparr>kbd_scan_code_set := 1\<rparr>)
         else if data = SCAN_CODE_SET_2 then Inr (s\<lparr>kbd_scan_code_set := 2\<rparr>)
         else if data = SCAN_CODE_SET_3 then Inr (s\<lparr>kbd_scan_code_set := 3\<rparr>)
         else printk (''ps2_kbd: Strange scan code set byte 0x%x'' @ [CHR 0x0A]) [Slot (ucast data)] s)"

definition keyboard_handler :: "device \<Rightarrow> u8 \<Rightarrow> 'a kbd_scheme \<Rightarrow> 'a kbd_scheme result" where
  "keyboard_handler dev data s =
     (if driver_state s = STATE_READY then handle_data data s
      else
        let command = current_command s
        in rbind (report_no_ack data command s) (\<lambda>s.
           if driver_state s = STATE_WAITING_COM_ACK then
             if data = RESEND then Inr (ps2_port1_write dev (com command) s)
             else if arg command \<noteq> COMMAND_NO_ARG then
               Inr (ps2_port1_write dev (arg command) (s\<lparr>driver_state := STATE_WAITING_ARG_ACK\<rparr>))
             else rbind (if com command = PS2_KBD_COM_ECHO
                         then printk ([CHR 0x0A] @ ''ps2_kbd: ECHO'' @ [CHR 0x0A]) [] s else Inr s)
                    (\<lambda>s. Inr (handle_next_command dev s))
           else if driver_state s = STATE_WAITING_ARG_ACK then
             if data = RESEND then Inr (ps2_port1_write dev (arg command) s)
             else rbind (if com command = PS2_KBD_COM_SET_SCAN_SET \<and> arg command = 0
                         then ask_scan_set dev s else Inr s)
                    (\<lambda>s. Inr (handle_next_command dev s))
           else
             rbind (printk (''ps2_kbd: Corrupted state 0x%x'' @ [CHR 0x0A])
                      [Slot (ucast (driver_state s))] s)
               (\<lambda>_. Inl Aborted)))"

definition ps2_kbd_get_scan_code_set :: "'a kbd_scheme \<Rightarrow> u8" where
  "ps2_kbd_get_scan_code_set s = kbd_scan_code_set s"

definition kbd_int_handler :: "device \<Rightarrow> 'a kbd_scheme \<Rightarrow> 'a kbd_scheme result" where
  "kbd_int_handler dev s =
     (let (st, s) = inb dev STATUS_REG s
      in if output_full st then
           let (data, s) = inb dev DATA_PORT s in keyboard_handler dev data s
         else Inr s)"

text \<open>The static initial values.\<close>

definition kbd_init :: "interrupts \<Rightarrow> kbd" where
  "kbd_init s = interrupts.extend s
     \<lparr>command_queue = (\<lambda>_. \<lparr>com = 0, arg = 0\<rparr>), next_command_idx = 0, pending_commands = 0,
      driver_state = STATE_READY, kbd_scan_code_set = 1, ext0 = 0, released = 0, ext1 = 0,
      scan_code_buf = (\<lambda>_. 0), scan_code_ptr = 0, expect = 1, is_pause = 0, is_sysrq = 0\<rparr>"

section \<open>The ring buffer is a bounded queue\<close>

locale bounded_fifo =
  fixes add :: "'c \<Rightarrow> 's \<Rightarrow> 's" and discard :: "'s \<Rightarrow> 's" and current :: "'s \<Rightarrow> 'c"
    and inv :: "'s \<Rightarrow> bool" and items :: "'s \<Rightarrow> 'c list" and cap :: nat
  assumes add_inv: "inv s \<Longrightarrow> inv (add c s)"
    and add_items: "inv s \<Longrightarrow> items (add c s) = (if length (items s) < cap then items s @ [c] else items s)"
    and discard_inv: "inv s \<Longrightarrow> inv (discard s)"
    and discard_items: "inv s \<Longrightarrow> items (discard s) = tl (items s)"
    and current_items: "inv s \<Longrightarrow> items s \<noteq> [] \<Longrightarrow> current s = hd (items s)"
    and bounded: "inv s \<Longrightarrow> length (items s) \<le> cap"
begin

lemma fold_add_items:
  "inv s \<Longrightarrow> length (items s) + length cs \<le> cap \<Longrightarrow>
     inv (fold add cs s) \<and> items (fold add cs s) = items s @ cs"
  by (induction cs arbitrary: s) (auto simp: add_inv add_items)

lemma discards_items: "inv s \<Longrightarrow> inv ((discard ^^ k) s) \<and> items ((discard ^^ k) s) = drop k (items s)"
  by (induction k) (auto simp: discard_inv discard_items drop_Suc tl_drop)

lemma first_in_first_out:
  assumes "inv s" "items s = []" "length cs \<le> cap" "k < length cs"
  shows "current ((discard ^^ k) (fold add cs s)) = cs ! k"
proof -
  have "inv (fold add cs s)" "items (fold add cs s) = cs"
    using fold_add_items [OF assms(1), of cs] assms by simp_all
  then have "inv ((discard ^^ k) (fold add cs s))" "items ((discard ^^ k) (fold add cs s)) = drop k cs"
    using discards_items by auto
  then show ?thesis using current_items assms(4) by (simp add: hd_drop_conv_nth)
qed

end

definition queue_inv :: "'a kbd_scheme \<Rightarrow> bool" where
  "queue_inv s \<longleftrightarrow> next_command_idx s < 8 \<and> pending_commands s \<le> 8"

text \<open>The slot of the \<open>i\<close>-th of \<open>p\<close> pending commands when \<open>n\<close> is the next free slot.\<close>

definition ring_slot :: "nat \<Rightarrow> nat \<Rightarrow> nat \<Rightarrow> u64" where
  "ring_slot n p i = of_nat ((n + (8 - p) + i) mod 8)"

definition queued :: "'a kbd_scheme \<Rightarrow> ps2_kbd_command list" where
  "queued s =
     map (\<lambda>i. command_queue s (ring_slot (unat (next_command_idx s)) (unat (pending_commands s)) i))
       [0..<unat (pending_commands s)]"

lemma length_queued [simp]: "length (queued s) = unat (pending_commands s)"
  by (simp add: queued_def)

lemma queued_eq_Nil [simp]: "queued s = [] \<longleftrightarrow> pending_commands s = 0"
  by (simp add: queued_def unat_eq_zero)

lemma unat_ring_slot: "unat (ring_slot n p i) = (n + (8 - p) + i) mod 8"
proof -
  have "(n + (8 - p) + i) mod 8 < 8" by simp
  then show ?thesis unfolding ring_slot_def by (intro unat_of_nat_64) simp
qed

lemma ring_slot_add:
  assumes "n < 8" "p < 8"
  shows "ring_slot (Suc n mod 8) (Suc p) i = ring_slot n p i"
    and "i < p \<Longrightarrow> unat (ring_slot n p i) \<noteq> n"
    and "ring_slot n p p = of_nat n"
proof -
  have "8 - p = Suc (8 - Suc p)" using assms(2) by simp
  moreover have "(Suc n mod 8 + (8 - Suc p + i)) mod 8 = (Suc n + (8 - Suc p + i)) mod 8"
    by (rule mod_add_left_eq)
  ultimately show "ring_slot (Suc n mod 8) (Suc p) i = ring_slot n p i"
    by (simp add: ring_slot_def add.assoc)
  show "unat (ring_slot n p i) \<noteq> n" if "i < p"
    unfolding unat_ring_slot using assms that by (cases "n + (8 - p) + i < 8") (auto simp: mod_if)
  show "ring_slot n p p = of_nat n" using assms by (simp add: ring_slot_def)
qed

lemma ring_slot_discard: "p \<le> 8 \<Longrightarrow> 0 < p \<Longrightarrow> ring_slot n (p - 1) i = ring_slot n p (Suc i)"
proof -
  assume "p \<le> 8" "0 < p"
  then have "n + (8 - (p - 1)) + i = n + (8 - p) + Suc i" by simp
  then show ?thesis by (simp only: ring_slot_def)
qed

lemma unat_mod_8: "unat (x mod 8 :: u64) = unat x mod 8"
  by (simp add: unat_mod)

lemma unat_plus_8: "x \<le> 8 \<Longrightarrow> unat (x + 8 :: u64) = unat x + 8"
  by (subst unat_plus_if_size) (auto simp: word_size word_le_nat_alt)

lemma unat_plus_1: "x \<le> 8 \<Longrightarrow> unat (x + 1 :: u64) = unat x + 1"
  by (subst unat_plus_if_size) (auto simp: word_size word_le_nat_alt)

lemma queue_add_items:
  assumes "queue_inv s"
  shows "queue_inv (queue_add c a s)"
    and "queued (queue_add c a s) =
      (if length (queued s) < 8 then queued s @ [\<lparr>com = c, arg = a\<rparr>] else queued s)"
proof -
  let ?n = "unat (next_command_idx s)" and ?p = "unat (pending_commands s)"
  have n: "?n < 8" "?p \<le> 8" using assms by (simp_all add: queue_inv_def word_less_nat_alt word_le_nat_alt)
  have lt: "pending_commands s < 8 \<longleftrightarrow> ?p < 8" by (simp add: word_less_nat_alt)
  have n': "unat ((next_command_idx s + 1) mod 8) = Suc ?n mod 8"
    using n(1) by (simp add: unat_mod_8 unat_plus_1 word_le_nat_alt)
  have p': "unat (pending_commands s + 1) = Suc ?p"
    using n(2) by (simp add: unat_plus_1 word_le_nat_alt)
  show "queue_inv (queue_add c a s)"
    using assms n lt n' p' by (auto simp: queue_inv_def queue_add_def word_less_nat_alt word_le_nat_alt)
  show "queued (queue_add c a s) =
      (if length (queued s) < 8 then queued s @ [\<lparr>com = c, arg = a\<rparr>] else queued s)"
  proof (cases "?p < 8")
    case True
    have old: "ring_slot ?n ?p i \<noteq> next_command_idx s" if "i < ?p" for i
      using ring_slot_add(2) [OF n(1) True that] by auto
    show ?thesis using True
      by (simp add: queue_add_def lt queued_def n' p' ring_slot_add(1,3) [OF n(1) True] old)
  next
    case False
    then show ?thesis by (simp add: queue_add_def lt)
  qed
qed

lemma queue_discard_items:
  assumes "queue_inv s"
  shows "queue_inv (queue_discard s)" and "queued (queue_discard s) = tl (queued s)"
proof -
  let ?n = "unat (next_command_idx s)" and ?p = "unat (pending_commands s)"
  have n: "?n < 8" "?p \<le> 8" using assms by (simp_all add: queue_inv_def word_less_nat_alt word_le_nat_alt)
  show "queue_inv (queue_discard s)" "queued (queue_discard s) = tl (queued s)"
  proof -
    show "queue_inv (queue_discard s)"
      using assms n by (auto simp: queue_inv_def queue_discard_def word_le_nat_alt word_gt_0 unat_minus_one)
    show "queued (queue_discard s) = tl (queued s)"
    proof (cases "pending_commands s = 0")
      case False
      then have p': "unat (pending_commands s - 1) = ?p - 1" "0 < ?p"
        by (simp_all add: unat_minus_one unat_gt_0)
      have "[0..<?p] = 0 # map Suc [0..<?p - 1]"
        using p'(2) by (simp add: map_Suc_upt upt_conv_Cons)
      then show ?thesis
        using False ring_slot_discard [OF n(2) p'(2)]
        by (simp add: queue_discard_def word_gt_0 queued_def p'(1))
    qed (simp add: queue_discard_def queued_def)
  qed
qed

lemma current_command_hd:
  assumes "queue_inv s" "queued s \<noteq> []"
  shows "current_command s = hd (queued s)"
proof -
  let ?n = "unat (next_command_idx s)" and ?p = "unat (pending_commands s)"
  have n: "?n < 8" "?p \<le> 8" "0 < ?p" using assms
    by (simp_all add: queue_inv_def word_less_nat_alt word_le_nat_alt unat_gt_0)
  have "unat (next_command_idx s + 8) = ?n + 8"
    using n(1) by (intro unat_plus_8) (simp add: word_le_nat_alt)
  moreover from this have "unat (next_command_idx s + 8 - pending_commands s) = ?n + (8 - ?p)"
    using n by (subst unat_sub) (simp_all add: word_le_nat_alt)
  ultimately have "(next_command_idx s + 8 - pending_commands s) mod 8 = ring_slot ?n ?p 0"
    by (simp add: word_unat_eq_iff unat_mod_8 unat_ring_slot)
  moreover have "pending_commands s \<noteq> 0" using n(3) by auto
  ultimately show ?thesis using n(3)
    by (simp add: current_command_def queued_def word_gt_0 upt_conv_Cons)
qed

interpretation kbd_fifo: bounded_fifo
  "\<lambda>c. queue_add (com c) (arg c)" queue_discard current_command queue_inv queued 8
proof unfold_locales
  fix s :: "'a kbd_scheme" and c :: ps2_kbd_command
  have c: "\<lparr>com = com c, arg = arg c\<rparr> = c" by simp
  assume inv: "queue_inv s"
  then show "queue_inv (queue_add (com c) (arg c) s)" "queue_inv (queue_discard s)"
    "queued (queue_discard s) = tl (queued s)"
    "queued (queue_add (com c) (arg c) s) =
       (if length (queued s) < 8 then queued s @ [c] else queued s)"
    by (simp_all only: queue_add_items queue_discard_items c)
  show "queued s \<noteq> [] \<Longrightarrow> current_command s = hd (queued s)"
    using inv by (rule current_command_hd)
  show "length (queued s) \<le> 8"
    using inv by (simp add: queue_inv_def word_le_nat_alt)
qed

section \<open>What the helpers leave alone\<close>

lemma more_kbd:
  fixes s t :: "'a kbd_scheme"
  assumes "machine.more t = machine.more s"
  shows "command_queue t = command_queue s" "next_command_idx t = next_command_idx s"
    "pending_commands t = pending_commands s" "driver_state t = driver_state s"
    "kbd.more t = kbd.more s"
  using assms by (cases s; cases t; simp)+

lemma more_queue:
  fixes s t :: "'a kbd_scheme"
  assumes "machine.more t = machine.more s"
  shows "queued t = queued s" "queue_inv t = queue_inv s" "current_command t = current_command s"
  using more_kbd [OF assms] by (simp_all add: queued_def queue_inv_def current_command_def)

lemma queue_frame [simp]:
  "queued (s\<lparr>driver_state := d\<rparr>) = queued s" "queue_inv (s\<lparr>driver_state := d\<rparr>) = queue_inv s"
  "current_command (s\<lparr>driver_state := d\<rparr>) = current_command s"
  "queued (s\<lparr>kbd_scan_code_set := v\<rparr>) = queued s"
  "queue_inv (s\<lparr>kbd_scan_code_set := v\<rparr>) = queue_inv s"
  by (simp_all add: queued_def queue_inv_def current_command_def Let_def)

lemma queue_ops_frame [simp]:
  "hw_trace (queue_add c a s) = hw_trace s" "driver_state (queue_add c a s) = driver_state s"
  "hw_trace (queue_discard s) = hw_trace s" "driver_state (queue_discard s) = driver_state s"
  by (simp_all add: queue_add_def queue_discard_def)

lemma ps2_port1_simps [simp]:
  "outs (hw_trace (ps2_port1_disable dev s)) = outs (hw_trace s) @ [(0x64, 0xAD)]"
  "outs (hw_trace (ps2_port1_enable dev s)) = outs (hw_trace s) @ [(0x64, 0xAE)]"
  "machine.more (ps2_port1_disable dev s) = machine.more s"
  "machine.more (ps2_port1_enable dev s) = machine.more s"
  "machine.more (ps2_port1_write dev v s) = machine.more s"
  "machine.more (snd (ps2_data_read dev s)) = machine.more s"
  by (simp_all add: ps2_port1_disable_def ps2_port1_enable_def only_trace_more)

lemmas port_frame [simp] =
  more_kbd [OF ps2_port1_simps(3)] more_kbd [OF ps2_port1_simps(4)] more_kbd [OF ps2_port1_simps(5)]
  more_queue [OF ps2_port1_simps(3)] more_queue [OF ps2_port1_simps(4)]
  more_queue [OF ps2_port1_simps(5)]

lemma report_no_ack_returns:
  fixes s :: "'a kbd_scheme"
  obtains t where "report_no_ack data c s = Inr t" "hw_trace t = hw_trace s"
    "machine.more t = machine.more s"
proof (cases "data \<noteq> ACK \<and> com c \<noteq> PS2_KBD_COM_ECHO")
  case True
  obtain s1 where s1: "printk ''ps2_kbd: expected ACK for '' [] s = Inr s1"
    "hw_trace s1 = hw_trace s" "machine.more s1 = machine.more s"
    by (rule printk_plain_frame [of "''ps2_kbd: expected ACK for ''" s]) simp_all
  obtain s2 where s2: "(if driver_state s1 = STATE_WAITING_ARG_ACK then printk ''arg of '' [] s1
      else Inr s1) = Inr s2" "hw_trace s2 = hw_trace s1" "machine.more s2 = machine.more s1"
    by (rule printk_plain_frame [of "''arg of ''" s1]) (simp, cases "driver_state s1 = 2", auto)
  obtain s3 where s3: "printk (''command (0x%x, 0x%x). Got 0x%x'' @ [CHR 0x0A])
      [Slot (ucast (com c)), Slot (ucast (arg c)), Slot (ucast data)] s2 = Inr s3"
    "hw_trace s3 = hw_trace s2" "machine.more s3 = machine.more s2"
    by (rule printk_returns [of "[Slot (ucast (com c)), Slot (ucast (arg c)), Slot (ucast data)]"
          "''command (0x%x, 0x%x). Got 0x%x'' @ [CHR 0x0A]" s2]) simp_all
  show thesis
    using True s1 s2 s3 by (intro that [of s3]) (simp_all add: report_no_ack_def)
next
  case False
  then show thesis by (intro that [of s]) (auto simp: report_no_ack_def)
qed

lemma ask_scan_set_returns:
  fixes s :: "'a kbd_scheme"
  obtains t where "ask_scan_set dev s = Inr t" "outs (hw_trace t) = outs (hw_trace s)"
    "queued t = queued s" "queue_inv t = queue_inv s" "driver_state t = driver_state s"
proof -
  obtain data u where u: "ps2_data_read dev s = (data, u)" by fastforce
  then have u': "outs (hw_trace u) = outs (hw_trace s)" "machine.more u = machine.more s"
    using outs_ps2(5) [of dev s] ps2_port1_simps(6) [of dev s] by simp_all
  obtain v where v: "printk (''ps2_kbd: Strange scan code set byte 0x%x'' @ [CHR 0x0A])
      [Slot (ucast data)] u = Inr v" "hw_trace v = hw_trace u" "machine.more v = machine.more u"
    by (rule printk_returns [of "[Slot (ucast data)]"
          "''ps2_kbd: Strange scan code set byte 0x%x'' @ [CHR 0x0A]" u]) simp_all
  define t where "t = (if data = SCAN_CODE_SET_1 then u\<lparr>kbd_scan_code_set := 1\<rparr>
    else if data = SCAN_CODE_SET_2 then u\<lparr>kbd_scan_code_set := 2\<rparr>
    else if data = SCAN_CODE_SET_3 then u\<lparr>kbd_scan_code_set := 3\<rparr> else v)"
  have "machine.more v = machine.more s" using v(3) u'(2) by simp
  note fr = more_queue [OF this] more_queue [OF u'(2)] more_kbd(4) [OF this] more_kbd(4) [OF u'(2)]
  show thesis
    by (rule that [of t]) (auto simp: ask_scan_set_def u v(1) [simplified] v(2) u' t_def fr)
qed

section \<open>The command protocol\<close>

datatype phase = Ready | AwaitCom | AwaitArg

definition phase_of :: "u8 \<Rightarrow> phase" where
  "phase_of d = (if d = STATE_READY then Ready else if d = STATE_WAITING_COM_ACK then AwaitCom
     else AwaitArg)"

text \<open>
  The abstract protocol: a queue of commands, a phase, and for every byte that arrives the next
  state and the bytes sent to the keyboard.
\<close>

fun proto_next :: "ps2_kbd_command list \<Rightarrow> (phase \<times> ps2_kbd_command list) \<times> u8 list" where
  "proto_next [] = ((Ready, []), [])"
| "proto_next (c # q) = ((AwaitCom, c # q), [com c])"

fun proto :: "u8 \<Rightarrow> phase \<times> ps2_kbd_command list \<Rightarrow> (phase \<times> ps2_kbd_command list) \<times> u8 list" where
  "proto data (AwaitCom, c # q) =
     (if data = RESEND then ((AwaitCom, c # q), [com c])
      else if arg c \<noteq> COMMAND_NO_ARG then ((AwaitArg, c # q), [arg c])
      else proto_next q)"
| "proto data (AwaitArg, c # q) =
     (if data = RESEND then ((AwaitArg, c # q), [arg c]) else proto_next q)"
| "proto data st = (st, [])"

definition kbd_abs :: "'a kbd_scheme \<Rightarrow> phase \<times> ps2_kbd_command list" where
  "kbd_abs s = (phase_of (driver_state s), queued s)"

definition kbd_inv :: "'a kbd_scheme \<Rightarrow> bool" where
  "kbd_inv s \<longleftrightarrow> queue_inv s \<and> driver_state s \<in> {STATE_READY, STATE_WAITING_COM_ACK, STATE_WAITING_ARG_ACK} \<and>
     (driver_state s = STATE_READY \<longleftrightarrow> queued s = [])"

lemma handle_next_command_protocol:
  assumes "queue_inv s"
  shows "kbd_inv (handle_next_command dev s)"
    and "outs (hw_trace (handle_next_command dev s)) =
      outs (hw_trace s) @ map (Pair 0x60) (snd (proto_next (tl (queued s))))"
    and "kbd_abs (handle_next_command dev s) = fst (proto_next (tl (queued s)))"
proof -
  let ?d = "queue_discard s"
  have d: "queue_inv ?d" "queued ?d = tl (queued s)" "current_command ?d = hd (tl (queued s))"
    if "tl (queued s) \<noteq> []"
    using queue_discard_items [OF assms] current_command_hd [of ?d] that by auto
  have d0: "queue_inv ?d" "queued ?d = tl (queued s)" using queue_discard_items [OF assms] by auto
  have p: "0 < pending_commands ?d \<longleftrightarrow> tl (queued s) \<noteq> []"
    using queued_eq_Nil [of ?d] d0(2) by (simp add: word_gt_0)
  show "kbd_inv (handle_next_command dev s)"
    "outs (hw_trace (handle_next_command dev s)) =
      outs (hw_trace s) @ map (Pair 0x60) (snd (proto_next (tl (queued s))))"
    "kbd_abs (handle_next_command dev s) = fst (proto_next (tl (queued s)))"
    using d d0 p
    by (cases "tl (queued s)";
        auto simp: handle_next_command_def Let_def kbd_inv_def kbd_abs_def phase_of_def)+
qed

text \<open>What a step of the handler has to establish.\<close>

definition protocol_step :: "device \<Rightarrow> u8 \<Rightarrow> 'a kbd_scheme \<Rightarrow> 'a kbd_scheme \<Rightarrow> bool" where
  "protocol_step dev data s t \<longleftrightarrow> kbd_inv t \<and> fst (proto data (kbd_abs s)) = kbd_abs t \<and>
     outs (hw_trace t) = outs (hw_trace s) @ map (Pair 0x60) (snd (proto data (kbd_abs s)))"

lemma protocol_step_next:
  assumes "queue_inv v" "queued v = queued s" "outs (hw_trace v) = outs (hw_trace s)"
    "proto data (kbd_abs s) = proto_next (tl (queued s))"
  shows "protocol_step dev data s (handle_next_command dev v)"
  using handle_next_command_protocol [OF assms(1), of dev] assms
  by (simp add: protocol_step_def)

lemma pending_command:
  assumes "kbd_inv s" "driver_state s \<noteq> STATE_READY"
  obtains c q where "queue_inv s" "queued s = c # q" "current_command s = c" "pending_commands s \<noteq> 0"
proof -
  have "queue_inv s" "queued s \<noteq> []" using assms by (auto simp: kbd_inv_def)
  then show thesis using that [of "hd (queued s)" "tl (queued s)"] current_command_hd [of s] by simp
qed

lemma handler_await_com:
  assumes "kbd_inv s" "driver_state s = STATE_WAITING_COM_ACK"
  shows "\<exists>t. keyboard_handler dev data s = Inr t \<and> protocol_step dev data s t"
proof -
  obtain c q where cq: "queue_inv s" "queued s = c # q" "current_command s = c"
    "pending_commands s \<noteq> 0"
    by (rule pending_command [OF assms(1)]) (simp_all add: assms(2))
  obtain u where u: "report_no_ack data c s = Inr u" "hw_trace u = hw_trace s"
    "machine.more u = machine.more s" by (rule report_no_ack_returns)
  note fr = more_queue [OF u(3)] more_kbd [OF u(3)] assms(2) cq
  obtain v where v: "(if com c = PS2_KBD_COM_ECHO
      then printk ([CHR 0x0A] @ ''ps2_kbd: ECHO'' @ [CHR 0x0A]) [] u else Inr u) = Inr v"
    "hw_trace v = hw_trace u" "machine.more v = machine.more u"
    by (rule printk_plain_frame [of "[CHR 0x0A] @ ''ps2_kbd: ECHO'' @ [CHR 0x0A]" u])
      (simp, cases "com c = PS2_KBD_COM_ECHO", auto)
  have vs: "machine.more v = machine.more s" using v(3) u(3) by simp
  consider (resend) "data = RESEND" | (argument) "data \<noteq> RESEND" "arg c \<noteq> COMMAND_NO_ARG"
    | (finished) "data \<noteq> RESEND" "arg c = COMMAND_NO_ARG" by blast
  then show ?thesis
  proof cases
    case finished
    then have "keyboard_handler dev data s = Inr (handle_next_command dev v)"
      using u(1) v(1) by (simp add: keyboard_handler_def fr)
    moreover have "protocol_step dev data s (handle_next_command dev v)"
      using finished cq u(2) v(2)
      by (intro protocol_step_next) (simp_all add: more_queue [OF vs] kbd_abs_def phase_of_def fr)
    ultimately show ?thesis by simp
  qed (use u in \<open>auto simp: keyboard_handler_def protocol_step_def kbd_abs_def phase_of_def
      kbd_inv_def fr\<close>)
qed

lemma handler_await_arg:
  assumes "kbd_inv s" "driver_state s = STATE_WAITING_ARG_ACK"
  shows "\<exists>t. keyboard_handler dev data s = Inr t \<and> protocol_step dev data s t"
proof -
  obtain c q where cq: "queue_inv s" "queued s = c # q" "current_command s = c"
    "pending_commands s \<noteq> 0"
    by (rule pending_command [OF assms(1)]) (simp_all add: assms(2))
  obtain u where u: "report_no_ack data c s = Inr u" "hw_trace u = hw_trace s"
    "machine.more u = machine.more s" by (rule report_no_ack_returns)
  note fr = more_queue [OF u(3)] more_kbd [OF u(3)] assms(2) cq
  show ?thesis
  proof (cases "data = RESEND")
    case False
    obtain w where w: "ask_scan_set dev u = Inr w" "outs (hw_trace w) = outs (hw_trace u)"
      "queued w = queued u" "queue_inv w = queue_inv u" by (rule ask_scan_set_returns)
    define v where "v = (if com c = PS2_KBD_COM_SET_SCAN_SET \<and> arg c = 0 then w else u)"
    have "keyboard_handler dev data s = Inr (handle_next_command dev v)"
      using False u(1) w(1) by (simp add: keyboard_handler_def fr v_def)
    moreover have "protocol_step dev data s (handle_next_command dev v)"
      using False cq u(2) w
      by (intro protocol_step_next) (simp_all add: v_def kbd_abs_def phase_of_def fr)
    ultimately show ?thesis by simp
  qed (use u in \<open>auto simp: keyboard_handler_def protocol_step_def kbd_abs_def phase_of_def
      kbd_inv_def fr\<close>)
qed

section \<open>Properties of the command side\<close>

text \<open>
  C26: while commands are pending, a byte from the keyboard makes the driver take exactly the
  step of the abstract protocol: the handler returns, the invariant holds again, the phase and
  the queue are the protocol's, and the bytes written to the keyboard are the ones the protocol
  sends, whatever the devices answer and whatever is printed.
\<close>

theorem keyboard_handler_protocol:
  assumes "kbd_inv s" "driver_state s \<noteq> STATE_READY"
  shows "\<exists>t sent. keyboard_handler dev data s = Inr t \<and> kbd_inv t \<and>
    proto data (kbd_abs s) = (kbd_abs t, sent) \<and>
    outs (hw_trace t) = outs (hw_trace s) @ map (Pair 0x60) sent"
proof -
  have "driver_state s = 1 \<or> driver_state s = 2" using assms by (auto simp: kbd_inv_def)
  then obtain t where "keyboard_handler dev data s = Inr t" "protocol_step dev data s t"
    using handler_await_com handler_await_arg assms(1) by blast
  then show ?thesis
    by (intro exI [of _ t] exI [of _ "snd (proto data (kbd_abs s))"])
      (auto simp: protocol_step_def prod_eq_iff)
qed

definition waiting_kbd :: kbd where
  "waiting_kbd = queue_add 0xED 0x02 (kbd_init boot_interrupts)\<lparr>driver_state := STATE_WAITING_COM_ACK\<rparr>"

lemma kbd_init_queue:
  "queue_inv (kbd_init i)" "queued (kbd_init i) = []" "driver_state (kbd_init i) = STATE_READY"
  "kbd_inv (kbd_init i)" "hw_trace (kbd_init i) = hw_trace i"
  by (simp_all add: queue_inv_def kbd_init_def interrupts.defs kbd_inv_def)

theorem keyboard_handler_protocol_witness:
  "\<exists>t. keyboard_handler (\<lambda>_ _. 0) 0xFA waiting_kbd = Inr t \<and> kbd_abs t = (AwaitArg, [\<lparr>com = 0xED, arg = 2\<rparr>]) \<and>
     outs (hw_trace t) = [(0x60, 0x02)]"
proof -
  have w: "kbd_inv waiting_kbd" "driver_state waiting_kbd = 1"
    "kbd_abs waiting_kbd = (AwaitCom, [\<lparr>com = 0xED, arg = 2\<rparr>])" "outs (hw_trace waiting_kbd) = []"
    using queue_add_items [OF kbd_init_queue(1), of "0xED" 2 boot_interrupts]
    by (simp_all add: waiting_kbd_def kbd_inv_def kbd_abs_def phase_of_def kbd_init_queue)
      (simp add: boot_interrupts_def)
  show ?thesis
    using keyboard_handler_protocol [of waiting_kbd "\<lambda>_ _. 0" "0xFA"] w by auto
qed

lemma command_arg_step:
  assumes "kbd_inv s"
  shows "kbd_inv (ps2_kbd_command_arg dev c a s) \<and>
    queued (ps2_kbd_command_arg dev c a s) = queued s @
      (if length (queued s) < 8 then [\<lparr>com = c, arg = a\<rparr>] else []) @
      (if c = PS2_KBD_COM_SET_SCAN_SET \<and> a \<noteq> 0 \<and> length (queued s) < 7
       then [\<lparr>com = PS2_KBD_COM_SET_SCAN_SET, arg = 0\<rparr>] else []) \<and>
    outs (hw_trace (ps2_kbd_command_arg dev c a s)) = outs (hw_trace s) @ [(0x64, 0xAD)] @
      (if queued s = [] then [(0x60, c)] else []) @ [(0x64, 0xAE)]"
proof -
  define s1 where "s1 = ps2_port1_disable dev s"
  have s1: "queue_inv s1" "queued s1 = queued s" "driver_state s1 = driver_state s"
    "outs (hw_trace s1) = outs (hw_trace s) @ [(0x64, 0xAD)]"
    using assms by (simp_all add: s1_def kbd_inv_def)
  have room: "pending_commands s1 < 8 \<longleftrightarrow> length (queued s) < 8"
    using s1(2) length_queued [of s1] by (simp add: word_less_nat_alt)
  show ?thesis
  proof (cases "length (queued s) < 8")
    case False
    then have "ps2_kbd_command_arg dev c a s = ps2_port1_enable dev s1"
      using room by (simp add: ps2_kbd_command_arg_def s1_def Let_def)
    moreover have "queued s \<noteq> []" using False by auto
    ultimately show ?thesis using False s1 assms by (auto simp: kbd_inv_def)
  next
    case True
    define s2 where "s2 = queue_add c a s1"
    have s2: "queue_inv s2" "queued s2 = queued s @ [\<lparr>com = c, arg = a\<rparr>]"
      "driver_state s2 = driver_state s" "outs (hw_trace s2) = outs (hw_trace s) @ [(0x64, 0xAD)]"
      using queue_add_items [OF s1(1), of c a] True s1 by (simp_all add: s2_def)
    have first: "pending_commands s2 = 1 \<longleftrightarrow> queued s = []"
      using s2(2) length_queued [of s2] by (auto simp: word_unat_eq_iff)
    define s3 where "s3 = (if pending_commands s2 = 1
      then ps2_port1_write dev c (s2\<lparr>driver_state := STATE_WAITING_COM_ACK\<rparr>) else s2)"
    have s3: "queue_inv s3" "queued s3 = queued s2"
      "driver_state s3 = (if queued s = [] then STATE_WAITING_COM_ACK else driver_state s)"
      "outs (hw_trace s3) = outs (hw_trace s2) @ (if queued s = [] then [(0x60, c)] else [])"
      using s2 first by (simp_all add: s3_def)
    define s4 where "s4 = (if c = PS2_KBD_COM_SET_SCAN_SET \<and> a \<noteq> 0
      then queue_add PS2_KBD_COM_SET_SCAN_SET 0x00 s3 else s3)"
    have s4: "queue_inv s4" "driver_state s4 = driver_state s3" "hw_trace s4 = hw_trace s3"
      "queued s4 = queued s @ [\<lparr>com = c, arg = a\<rparr>] @
        (if c = PS2_KBD_COM_SET_SCAN_SET \<and> a \<noteq> 0 \<and> length (queued s) < 7
         then [\<lparr>com = PS2_KBD_COM_SET_SCAN_SET, arg = 0\<rparr>] else [])"
      using queue_add_items [OF s3(1), of PS2_KBD_COM_SET_SCAN_SET 0] s2 s3 by (auto simp: s4_def)
    have "ps2_kbd_command_arg dev c a s = ps2_port1_enable dev s4"
      using room True
      by (simp add: ps2_kbd_command_arg_def s4_def s3_def s2_def Let_def flip: s1_def)
    then show ?thesis using True s4 s3 s2 assms
      by (auto simp: kbd_inv_def simp del: queued_eq_Nil)
  qed
qed

text \<open>
  Issuing a command keeps the invariant, appends it to the queue (nothing if eight are
  pending), appends the query of the scan code set after a request to change it (if there is
  room), and sends the command byte at once exactly when nothing was pending; the port is off
  while this happens.
\<close>

theorem ps2_kbd_command_arg_queues:
  assumes "kbd_inv s"
  shows "kbd_inv (ps2_kbd_command_arg dev c a s) \<and>
    queued (ps2_kbd_command_arg dev c a s) = queued s @
      (if length (queued s) < 8 then [\<lparr>com = c, arg = a\<rparr>] else []) @
      (if c = PS2_KBD_COM_SET_SCAN_SET \<and> a \<noteq> 0 \<and> length (queued s) < 7
       then [\<lparr>com = PS2_KBD_COM_SET_SCAN_SET, arg = 0\<rparr>] else []) \<and>
    outs (hw_trace (ps2_kbd_command_arg dev c a s)) = outs (hw_trace s) @ [(0x64, 0xAD)] @
      (if queued s = [] then [(0x60, c)] else []) @ [(0x64, 0xAE)]"
  using assms by (rule command_arg_step)

theorem ps2_kbd_command_arg_queues_witness:
  "queued (ps2_kbd_command_arg (\<lambda>_ _. 0) 0xF0 2 (kbd_init boot_interrupts)) =
     [\<lparr>com = 0xF0, arg = 2\<rparr>, \<lparr>com = 0xF0, arg = 0\<rparr>]"
  using ps2_kbd_command_arg_queues [OF kbd_init_queue(4), of "\<lambda>_ _. 0" "0xF0" 2 boot_interrupts]
    kbd_init_queue(2) [of boot_interrupts] length_queued [of "kbd_init boot_interrupts"]
  by simp

text \<open>
  The ring buffer is a first-in first-out queue: after at most eight commands are added to an
  empty queue and \<open>k\<close> of them discarded, the current command is the \<open>k\<close>-th added, wherever in
  the buffer the queue starts.
\<close>

lemma command_queue_fifo:
  assumes "queue_inv s" "pending_commands s = 0" "length cs \<le> 8" "k < length cs"
  shows "current_command ((queue_discard ^^ k) (fold (\<lambda>c. queue_add (com c) (arg c)) cs s)) = cs ! k"
  using assms by (intro kbd_fifo.first_in_first_out) simp_all

lemma command_queue_fifo_witness:
  "current_command ((queue_discard ^^ 1) (fold (\<lambda>c. queue_add (com c) (arg c))
     [\<lparr>com = 1, arg = 2\<rparr>, \<lparr>com = 3, arg = 4\<rparr>, \<lparr>com = 5, arg = 6\<rparr>]
     (kbd_init boot_interrupts\<lparr>next_command_idx := 7\<rparr>))) = \<lparr>com = 3, arg = 4\<rparr>"
proof -
  have "pending_commands (kbd_init boot_interrupts) = 0" by (simp add: kbd_init_def interrupts.defs)
  then show ?thesis
    using command_queue_fifo [of "kbd_init boot_interrupts\<lparr>next_command_idx := 7\<rparr>"
      "[\<lparr>com = 1, arg = 2\<rparr>, \<lparr>com = 3, arg = 4\<rparr>, \<lparr>com = 5, arg = 6\<rparr>]" 1]
    by (simp add: queue_inv_def)
qed

section \<open>Reachable states\<close>

text \<open>
  Between interrupts the kernel may issue commands; an interrupt runs the handler to its end.
\<close>

inductive kbd_step :: "device \<Rightarrow> kbd \<Rightarrow> kbd \<Rightarrow> bool" for dev :: device where
  issue: "kbd_step dev s (ps2_kbd_command_arg dev c a s)"
| interrupt: "kbd_int_handler dev s = Inr t \<Longrightarrow> kbd_step dev s t"

inductive kbd_reach :: "device \<Rightarrow> kbd \<Rightarrow> bool" for dev :: device where
  start: "kbd_reach dev (kbd_init i)"
| step: "kbd_reach dev s \<Longrightarrow> kbd_step dev s t \<Longrightarrow> kbd_reach dev t"

inductive_cases kbd_stepE: "kbd_step dev s t"

text \<open>The decoder leaves the command side of the driver alone.\<close>

definition same_commands :: "'a kbd_scheme \<Rightarrow> 'a kbd_scheme \<Rightarrow> bool" where
  "same_commands s t \<longleftrightarrow> command_queue t = command_queue s \<and> next_command_idx t = next_command_idx s \<and>
     pending_commands t = pending_commands s \<and> driver_state t = driver_state s \<and>
     hw_trace t = hw_trace s"

lemma same_commands_inv:
  assumes "same_commands s t"
  shows "queued t = queued s" "kbd_inv t = kbd_inv s" "driver_state t = driver_state s"
  using assms by (simp_all add: same_commands_def queued_def kbd_inv_def queue_inv_def)

lemma same_commands_trans: "same_commands s t \<Longrightarrow> same_commands t u \<Longrightarrow> same_commands s u"
  by (simp add: same_commands_def)

lemma same_commands_upd [simp]:
  "same_commands s s"
  "same_commands s (expect_update f t) = same_commands s t"
  "same_commands s (ext0_update f t) = same_commands s t"
  "same_commands s (ext1_update f t) = same_commands s t"
  "same_commands s (released_update f t) = same_commands s t"
  "same_commands s (is_sysrq_update f t) = same_commands s t"
  "same_commands s (is_pause_update f t) = same_commands s t"
  "same_commands s (scan_code_ptr_update h t) = same_commands s t"
  "same_commands s (scan_code_buf_update g t) = same_commands s t"
  by (simp_all add: same_commands_def)

lemma print_event_same: "print_event e s = Inr t \<Longrightarrow> same_commands s t"
proof -
  assume "print_event e s = Inr t"
  then have "t = s \<or> (\<exists>c :: u8. printk ''%c'' [Slot (scast c)] s = Inr t \<and> args_ok [Slot (scast c)])"
    by (auto simp: print_event_def Let_def split: if_splits)
  then show ?thesis using more_kbd [of t s] printk_frame [of "''%c''" _ s t]
    by (auto simp: same_commands_def)
qed

lemma scan_event_same: "scan_event data s = Inr (e, t) \<Longrightarrow> same_commands s t"
  by (auto simp: scan_event_def same_commands_def split: if_splits)

lemma decode_byte_same:
  assumes "decode_byte data s = Inr t" shows "same_commands s t"
proof (cases "\<exists>e u v. scan_event data s = Inr (e, u) \<and> print_event e u = Inr v \<and>
    t = v\<lparr>ext1 := 0, ext0 := 0, released := 0, scan_code_ptr := 0, expect := 1\<rparr>")
  case True
  then obtain e u v where v: "scan_event data s = Inr (e, u)" "print_event e u = Inr v"
    "t = v\<lparr>ext1 := 0, ext0 := 0, released := 0, scan_code_ptr := 0, expect := 1\<rparr>" by blast
  then have "same_commands s v" using scan_event_same print_event_same same_commands_trans by blast
  then show ?thesis using v(3) by simp
next
  case False
  have "t \<in> {s\<lparr>ext1 := 1, expect := expect s + 2\<rparr>, s\<lparr>ext0 := 1, expect := expect s + 1\<rparr>,
      s\<lparr>released := 1, expect := expect s + 1\<rparr>, s\<lparr>is_sysrq := 1, ext0 := 0, expect := expect s + 1\<rparr>,
      s\<lparr>is_sysrq := 1, ext0 := 0, released := 1, expect := expect s + 1\<rparr>,
      s\<lparr>is_pause := 1, expect := 0\<rparr>, s}"
    using assms False unfolding decode_byte_def
    by (simp only: insert_iff empty_iff split: if_splits) auto
  then show ?thesis by (simp only: insert_iff empty_iff) (elim disjE; simp)
qed

lemma handle_data_same:
  assumes "handle_data data s = Inr t" shows "same_commands s t"
proof -
  let ?u = "s\<lparr>scan_code_buf := (scan_code_buf s)(scan_code_ptr s := data),
    scan_code_ptr := scan_code_ptr s + 1, expect := expect s - 1\<rparr>"
  have "decode_byte data ?u = Inr t"
    using assms by (simp add: handle_data_def Let_def split: if_splits)
  from decode_byte_same [OF this] show ?thesis by (rule same_commands_trans [rotated]) simp
qed

lemma if_neq: "a \<noteq> x \<Longrightarrow> b \<noteq> x \<Longrightarrow> (if P then a else b) \<noteq> x"
  by simp

lemma decoder_never_aborts: "handle_data data s \<noteq> Inl Aborted"
proof -
  have pr: "print_event e u \<noteq> Inl Aborted" for e and u :: "'a kbd_scheme"
  proof -
    have "printk ''%c'' [Slot v] u \<noteq> Inl Aborted" for v
      by (simp add: printk_def)
    then show ?thesis by (auto simp: print_event_def Let_def)
  qed
  have "rbind (scan_event data u) (\<lambda>(event, s). rbind (print_event event s) (\<lambda>s. Inr (f s)))
      \<noteq> Inl Aborted" for u :: "'a kbd_scheme" and f :: "'a kbd_scheme \<Rightarrow> 'a kbd_scheme"
  proof (cases "scan_event data u")
    case (Inl e)
    then have "e = OutOfBounds" by (auto simp: scan_event_def table_lookup_def split: if_splits)
    then show ?thesis using Inl by simp
  next
    case (Inr x)
    then show ?thesis using pr [of "fst x" "snd x"]
      by (cases "print_event (fst x) (snd x)") (simp_all add: case_prod_unfold)
  qed
  then have "decode_byte data u \<noteq> Inl Aborted" for u :: "'a kbd_scheme"
    unfolding decode_byte_def by (intro if_neq) (simp_all only: sum.distinct not_False_eq_True)
  then show ?thesis by (simp add: handle_data_def Let_def)
qed

lemma more_inv:
  "machine.more t = machine.more s \<Longrightarrow> kbd_inv t = kbd_inv s"
  using more_queue [of t s] more_kbd(4) [of t s] by (simp add: kbd_inv_def)

lemma keyboard_handler_safe:
  assumes "kbd_inv s"
  shows "keyboard_handler dev data s \<noteq> Inl Aborted"
    and "keyboard_handler dev data s = Inr t \<Longrightarrow> kbd_inv t"
proof -
  have "keyboard_handler dev data s \<noteq> Inl Aborted \<and>
      (keyboard_handler dev data s = Inr t \<longrightarrow> kbd_inv t)"
  proof (cases "driver_state s = STATE_READY")
    case True
    then show ?thesis
      using assms decoder_never_aborts [of data s] handle_data_same [of data s t]
        same_commands_inv(2) [of s t]
      by (auto simp: keyboard_handler_def)
  next
    case False
    then have "driver_state s = 1 \<or> driver_state s = 2" using assms by (auto simp: kbd_inv_def)
    then obtain u where "keyboard_handler dev data s = Inr u" "protocol_step dev data s u"
      using handler_await_com handler_await_arg assms by blast
    then show ?thesis by (auto simp: protocol_step_def)
  qed
  then show "keyboard_handler dev data s \<noteq> Inl Aborted"
    "keyboard_handler dev data s = Inr t \<Longrightarrow> kbd_inv t" by simp_all
qed

lemma kbd_int_handler_cases:
  obtains u where "kbd_inv u = kbd_inv s" "kbd_int_handler dev s = Inr u"
  | u data where "kbd_inv u = kbd_inv s" "kbd_int_handler dev s = keyboard_handler dev data u"
proof -
  have inb: "kbd_inv (snd (inb dev port u)) = kbd_inv u" for port and u :: "'a kbd_scheme"
    by (rule more_inv) (simp add: only_trace_more)
  obtain st u where u: "inb dev STATUS_REG s = (st, u)" by fastforce
  obtain data v where v: "inb dev DATA_PORT u = (data, v)" by fastforce
  show thesis
    using that(1) [of u] that(2) [of v data] inb [of STATUS_REG s] inb [of DATA_PORT u]
    by (cases "output_full st") (simp_all add: kbd_int_handler_def u v)
qed

lemma kbd_int_handler_safe:
  assumes "kbd_inv s"
  shows "kbd_int_handler dev s \<noteq> Inl Aborted" "kbd_int_handler dev s = Inr t \<Longrightarrow> kbd_inv t"
proof -
  have "kbd_int_handler dev s \<noteq> Inl Aborted \<and> (\<forall>t. kbd_int_handler dev s = Inr t \<longrightarrow> kbd_inv t)"
  proof (cases rule: kbd_int_handler_cases [of s dev])
    case (1 u)
    then show ?thesis using assms by simp
  next
    case (2 u data)
    then show ?thesis using assms keyboard_handler_safe [of u dev data] by simp
  qed
  then show "kbd_int_handler dev s \<noteq> Inl Aborted" "kbd_int_handler dev s = Inr t \<Longrightarrow> kbd_inv t" by blast+
qed

lemma kbd_reach_inv: "kbd_reach dev s \<Longrightarrow> kbd_inv s"
proof (induction rule: kbd_reach.induct)
  case (start i)
  then show ?case by (rule kbd_init_queue)
next
  case (step s t)
  from step.hyps(2) show ?case
  proof (rule kbd_stepE)
    fix c a
    assume "t = ps2_kbd_command_arg dev c a s"
    then show ?thesis using command_arg_step [OF step.IH] by simp
  next
    assume "kbd_int_handler dev s = Inr t"
    then show ?thesis using kbd_int_handler_safe(2) [OF step.IH] by simp
  qed
qed

text \<open>
  in every state that commands and interrupts can lead to from the initial one, the driver is
  ready exactly when no command is pending, and an interrupt never finds the corrupted state
  that would stop the kernel.
\<close>

theorem kbd_reachable_safe:
  assumes "kbd_reach dev s"
  shows "kbd_inv s \<and> (driver_state s = STATE_READY \<longleftrightarrow> pending_commands s = 0) \<and>
    kbd_int_handler dev s \<noteq> Inl Aborted"
proof -
  have inv: "kbd_inv s" using assms by (rule kbd_reach_inv)
  then show ?thesis using kbd_int_handler_safe(1) [OF inv, of dev] by (auto simp: kbd_inv_def)
qed

theorem kbd_reachable_safe_witness:
  "\<exists>s. kbd_reach (\<lambda>_ _. 0) s \<and> queued s = [\<lparr>com = 0xED, arg = 2\<rparr>] \<and>
     kbd_int_handler (\<lambda>_ _. 0) s \<noteq> Inl Aborted"
proof -
  let ?s = "ps2_kbd_command_arg (\<lambda>_ _. 0) 0xED 2 (kbd_init boot_interrupts)"
  have r: "kbd_reach (\<lambda>_ _. 0) ?s" by (rule kbd_reach.step [OF kbd_reach.start kbd_step.issue])
  have "queued ?s = [\<lparr>com = 0xED, arg = 2\<rparr>]"
    using command_arg_step [OF kbd_init_queue(4), of "\<lambda>_ _. 0" "0xED" 2 boot_interrupts]
      kbd_init_queue(2) [of boot_interrupts] length_queued [of "kbd_init boot_interrupts"] by simp
  then show ?thesis using r kbd_reachable_safe [OF r] by blast
qed

end
