(* ===== verification/Scan_Decoder.thy ===== *)
theory Scan_Decoder
  imports Ps2_Keyboard
begin

text \<open>
  What the scan code decoder of \<^verbatim>\<open>src/kernel/ps2_keyboard.c\<close> makes of the bytes a keyboard
  sends: whole keystrokes are decoded and printed one after the other, and the sequence of the
  Pause key leaves the decoder in a state in which it overruns its buffer.
\<close>

section \<open>The terminal part of a state\<close>

lemma truncate_fields [simp]:
  "vga_row (vga.truncate s) = vga_row s" "vga_column (vga.truncate s) = vga_column s"
  "vga_color (vga.truncate s) = vga_color s" "vga_buffer (vga.truncate s) = vga_buffer s"
  by (simp_all add: vga.defs)

lemma truncate_updates:
  "vga.truncate (vga_row_update f s) = vga_row_update f (vga.truncate s)"
  "vga.truncate (vga_column_update f s) = vga_column_update f (vga.truncate s)"
  "vga.truncate (vga_buffer_update g s) = vga_buffer_update g (vga.truncate s)"
  by (simp_all add: vga.defs)

lemma truncate_scroll_cell:
  "vga.truncate (scroll_cell b y x s) = scroll_cell b y x (vga.truncate s)"
  by (simp add: scroll_cell_def vga_putentryat_def Let_def truncate_updates)

lemma truncate_fold:
  assumes "\<And>x s. vga.truncate (f x s) = g x (vga.truncate s)"
  shows "vga.truncate (fold f xs s) = fold g xs (vga.truncate s)"
  using assms by (induction xs arbitrary: s) simp_all

lemma truncate_scroll_rows:
  "vga.truncate (scroll_rows b y s) = scroll_rows b y (vga.truncate s)"
proof (induction b y s rule: scroll_rows.induct)
  case (1 b y s)
  then show ?case
    by (subst (1 2) scroll_rows.simps) (simp add: truncate_fold truncate_scroll_cell)
qed

lemma truncate_putchar [simp]: "vga.truncate (vga_putchar c s) = vga_putchar c (vga.truncate s)"
  by (simp add: vga_putchar_def Let_def vga_putentryat_def scroll_def truncate_scroll_rows
      truncate_updates)

lemma truncate_fold_putchar [simp]:
  "vga.truncate (fold vga_putchar cs s) = fold vga_putchar cs (vga.truncate s)"
  by (rule truncate_fold) simp

lemma truncate_kbd_updates [simp]:
  "vga.truncate (ext0_update f s) = vga.truncate s" "vga.truncate (ext1_update f s) = vga.truncate s"
  "vga.truncate (released_update f s) = vga.truncate s" "vga.truncate (expect_update f s) = vga.truncate s"
  "vga.truncate (scan_code_ptr_update g s) = vga.truncate s"
  "vga.truncate (scan_code_buf_update h s) = vga.truncate s"
  by (simp_all add: vga.defs)

section \<open>Keystrokes\<close>

datatype keystroke = Make u8 | Break u8 | ExtMake u8 | ExtBreak u8

fun scan_bytes :: "keystroke \<Rightarrow> u8 list" where
  "scan_bytes (Make k) = [k]"
| "scan_bytes (Break k) = [RELEASE, k]"
| "scan_bytes (ExtMake k) = [EMUL0, k]"
| "scan_bytes (ExtBreak k) = [EMUL0, RELEASE, k]"

text \<open>
  Codes inside the tables, without the two extended codes that start the PrintScreen
  sequences.
\<close>

fun scan_ok :: "keystroke \<Rightarrow> bool" where
  "scan_ok (Make k) = (k < 0x84)"
| "scan_ok (Break k) = (k < 0x84)"
| "scan_ok (ExtMake k) = (k < 0x80 \<and> k \<noteq> 0x12)"
| "scan_ok (ExtBreak k) = (k < 0x80 \<and> k \<noteq> 0x7C)"

definition key_text :: "u8 \<Rightarrow> u8 list" where
  "key_text k = (let c = keycode_to_char ! unat k in if c = 0 then [] else [c])"

fun scan_text :: "keystroke \<Rightarrow> u8 list" where
  "scan_text (Make k) = key_text (scan2_norm_to_keycode ! unat k)"
| "scan_text (ExtMake k) = key_text (scan2_ext_to_keycode ! unat k)"
| "scan_text _ = []"

text \<open>The decoder between two keystrokes.\<close>

definition decoder_idle :: "'a kbd_scheme \<Rightarrow> bool" where
  "decoder_idle s \<longleftrightarrow> ext0 s = 0 \<and> released s = 0 \<and> ext1 s = 0 \<and> scan_code_ptr s = 0 \<and>
     expect s = 1 \<and> is_pause s = 0 \<and> is_sysrq s = 0"

primrec feed :: "u8 list \<Rightarrow> 'a kbd_scheme \<Rightarrow> 'a kbd_scheme result" where
  "feed [] s = Inr s"
| "feed (b # bs) s = rbind (handle_data b s) (feed bs)"

lemma feed_append: "feed (xs @ ys) s = rbind (feed xs s) (feed ys)"
proof (induction xs arbitrary: s)
  case (Cons x xs)
  then show ?case by (cases "handle_data x s") simp_all
qed simp

lemma ucast_scast_u8: "ucast (scast (c :: u8) :: u64) = c"
  by (rule bit_word_eqI) (auto simp: bit_simps)

lemma printk_char: "printk ''%c'' [Slot (scast (c :: u8))] s = Inr (vga_putchar c s)"
  by (simp add: printk_def ucast_scast_u8)

lemma print_event_press:
  "print_event \<lparr>ev_flags = 0, ev_code = ucast (k :: u8)\<rparr> s = Inr (fold vga_putchar (key_text k) s)"
proof -
  have "unat (ucast k :: u16) = unat k"
    using less_trans [OF unat_bound_8 [of k], of "2 ^ 16"]
    by (simp add: unsigned_ucast_eq take_bit_nat_eq_self)
  then show ?thesis by (simp add: print_event_def key_text_def Let_def printk_char)
qed

lemma print_event_release: "print_event \<lparr>ev_flags = 1, ev_code = k\<rparr> s = Inr s"
  by (simp add: print_event_def)

lemma fold_putchar_decoder [simp]:
  fixes s :: "'a kbd_scheme"
  shows "is_pause (fold vga_putchar cs s) = is_pause s" "is_sysrq (fold vga_putchar cs s) = is_sysrq s"
    "same_commands u (fold vga_putchar cs s) = same_commands u s"
proof -
  have more: "machine.more (fold vga_putchar cs s) = machine.more s" by simp
  have "is_pause t = is_pause s \<and> is_sysrq t = is_sysrq s" if "machine.more t = machine.more s"
    for t :: "'a kbd_scheme" using that by (cases s; cases t; simp)
  from this [OF more] show "is_pause (fold vga_putchar cs s) = is_pause s"
    "is_sysrq (fold vga_putchar cs s) = is_sysrq s" by simp_all
  show "same_commands u (fold vga_putchar cs s) = same_commands u s"
    using more_kbd [OF more] by (simp add: same_commands_def)
qed

definition typed :: "'a kbd_scheme \<Rightarrow> u8 list \<Rightarrow> 'a kbd_scheme \<Rightarrow> bool" where
  "typed s text t \<longleftrightarrow> decoder_idle t \<and> vga.truncate t = fold vga_putchar text (vga.truncate s) \<and>
     same_commands s t"

lemma typed_trans: "typed s xs t \<Longrightarrow> typed t ys u \<Longrightarrow> typed s (xs @ ys) u"
  by (auto simp: typed_def intro: same_commands_trans)

text \<open>The byte that completes a scan code.\<close>

lemma handle_data_complete:
  fixes s :: "'a kbd_scheme"
  defines "table \<equiv> if ext0 s \<noteq> 0 then scan2_ext_to_keycode else scan2_norm_to_keycode"
  assumes "scan_code_ptr s < 8" "expect s = 1" "is_sysrq s = 0" "is_pause s = 0" "ext1 s = 0"
    and "data \<notin> {EMUL0, EMUL1, RELEASE}"
    and "ext0 s \<noteq> 0 \<Longrightarrow> data \<noteq> (if released s = 0 then 0x12 else 0x7C)"
    and "unat data < length table"
  shows "\<exists>t. handle_data data s = Inr t \<and>
    typed s (if released s = 0 then key_text (table ! unat data) else []) t"
proof -
  define u where "u = s\<lparr>scan_code_buf := (scan_code_buf s)(scan_code_ptr s := data),
    scan_code_ptr := scan_code_ptr s + 1, expect := expect s - 1\<rparr>"
  let ?text = "if released s = 0 then key_text (table ! unat data) else []"
  let ?ev = "\<lparr>ev_flags = (if released s \<noteq> 0 then 1 else 0), ev_code = ucast (table ! unat data)\<rparr>"
  have u: "expect u = 0" "ext1 u = 0" "ext0 u = ext0 s" "released u = released s"
    "is_sysrq u = 0" "is_pause u = 0" "vga.truncate u = vga.truncate s" "same_commands s u"
    using assms(3-6) by (simp_all add: u_def vga.defs)
  have ev: "scan_event data u = Inr (?ev, u)"
    using assms(9) by (simp add: scan_event_def u table_lookup_def table_def)
  have pr: "print_event ?ev u = Inr (fold vga_putchar ?text u)"
    by (simp add: print_event_press print_event_release)
  have "handle_data data s = decode_byte data u"
    using assms(2) by (simp add: handle_data_def u_def Let_def linorder_not_le [symmetric])
  also have "\<dots> = Inr ((fold vga_putchar ?text u)
      \<lparr>ext1 := 0, ext0 := 0, released := 0, scan_code_ptr := 0, expect := 1\<rparr>)"
  proof -
    have plain: "(data = EMUL1) = False" "(data = EMUL0) = False" "(data = RELEASE) = False"
      using assms(7) by auto
    have odd: "(ext0 u \<noteq> 0 \<and> released u = 0 \<and> data = 0x12) = False"
      "(ext0 u \<noteq> 0 \<and> released u \<noteq> 0 \<and> data = 0x7C) = False"
      "(ext1 u \<noteq> 0 \<and> released u \<noteq> 0 \<and> data = 0x77) = False"
      using assms(8) u(2-4) by auto
    show ?thesis
      by (simp only: decode_byte_def plain odd u(1) if_False if_True simp_thms ev pr rbind_simps prod.case)
  qed
  finally show ?thesis
    using u by (simp add: typed_def decoder_idle_def)
qed

lemma handle_data_prefix:
  assumes "scan_code_ptr s < 8"
  shows "handle_data EMUL0 s = Inr (s\<lparr>scan_code_buf := (scan_code_buf s)(scan_code_ptr s := EMUL0),
      scan_code_ptr := scan_code_ptr s + 1, ext0 := 1\<rparr>)"
    and "handle_data RELEASE s = Inr (s\<lparr>scan_code_buf := (scan_code_buf s)(scan_code_ptr s := RELEASE),
      scan_code_ptr := scan_code_ptr s + 1, released := 1\<rparr>)"
  using assms by (auto simp: handle_data_def decode_byte_def Let_def)

lemma typed_start [simp]:
  "typed (ext0_update f s) text t = typed s text t"
  "typed (released_update f s) text t = typed s text t"
  "typed (scan_code_ptr_update g s) text t = typed s text t"
  "typed (scan_code_buf_update h s) text t = typed s text t"
  by (simp_all add: typed_def same_commands_def vga.defs)

lemma feed_keystroke:
  assumes "decoder_idle s" "scan_ok k"
  shows "\<exists>t. feed (scan_bytes k) s = Inr t \<and> typed s (scan_text k) t"
proof -
  note idle = assms(1) [unfolded decoder_idle_def]
  have special: "d < 0x84 \<Longrightarrow> d \<notin> {EMUL0, EMUL1, RELEASE}" for d :: u8 by auto
  show ?thesis
  proof (cases k)
    case (Make d)
    then show ?thesis
      using handle_data_complete [of s d] idle assms(2) special [of d]
      by (auto simp: word_less_nat_alt)
  next
    case (Break d)
    let ?s = "s\<lparr>scan_code_buf := (scan_code_buf s)(0 := RELEASE), scan_code_ptr := 1, released := 1\<rparr>"
    show ?thesis
      using handle_data_complete [of ?s d] handle_data_prefix(2) [of s] idle assms(2) special [of d] Break
      by (auto simp: word_less_nat_alt)
  next
    case (ExtMake d)
    let ?s = "s\<lparr>scan_code_buf := (scan_code_buf s)(0 := EMUL0), scan_code_ptr := 1, ext0 := 1\<rparr>"
    have "d < 0x84" using assms(2) ExtMake by (auto simp: word_less_nat_alt)
    then show ?thesis
      using handle_data_complete [of ?s d] handle_data_prefix(1) [of s] idle assms(2) special [of d] ExtMake
      by (auto simp: word_less_nat_alt)
  next
    case (ExtBreak d)
    let ?s = "s\<lparr>scan_code_buf := (scan_code_buf s)(0 := EMUL0), scan_code_ptr := 1, ext0 := 1\<rparr>"
    let ?t = "?s\<lparr>scan_code_buf := (scan_code_buf ?s)(1 := RELEASE), scan_code_ptr := 2, released := 1\<rparr>"
    have "d < 0x84" using assms(2) ExtBreak by (auto simp: word_less_nat_alt)
    moreover have "handle_data RELEASE ?s = Inr ?t" using handle_data_prefix(2) [of ?s] by simp
    ultimately show ?thesis
      using handle_data_complete [of ?t d] handle_data_prefix(1) [of s] idle assms(2) special [of d] ExtBreak
      by (auto simp: word_less_nat_alt)
  qed
qed

lemma feed_keystrokes:
  assumes "decoder_idle s" "\<forall>k \<in> set ks. scan_ok k"
  shows "\<exists>t. feed (concat (map scan_bytes ks)) s = Inr t \<and> typed s (concat (map scan_text ks)) t"
  using assms
proof (induction ks arbitrary: s)
  case Nil
  then show ?case by (simp add: typed_def)
next
  case (Cons k ks)
  obtain t where t: "feed (scan_bytes k) s = Inr t" "typed s (scan_text k) t"
    using feed_keystroke [of s k] Cons.prems by auto
  obtain u where u: "feed (concat (map scan_bytes ks)) t = Inr u" "typed t (concat (map scan_text ks)) u"
    using Cons.IH [of t] Cons.prems(2) t(2) by (auto simp: typed_def)
  then show ?case using t typed_trans by (auto simp: feed_append)
qed

section \<open>Properties\<close>

text \<open>
  the decoder is a correct parser of keystrokes: after any sequence of presses and releases
  of plain and extended keys inside the tables it is between keystrokes again, the terminal has
  received exactly the characters of the pressed keys in order, and the command side of the
  driver is untouched.
\<close>

theorem decoder_types_keystrokes:
  assumes "decoder_idle s" "\<forall>k \<in> set ks. scan_ok k"
  shows "\<exists>t. feed (concat (map scan_bytes ks)) s = Inr t \<and> decoder_idle t \<and>
    vga.truncate t = fold vga_putchar (concat (map scan_text ks)) (vga.truncate s) \<and>
    same_commands s t"
  using feed_keystrokes [OF assms] by (simp add: typed_def)

theorem decoder_types_keystrokes_witness:
  "\<exists>t. feed [0x1C, 0xF0, 0x1C, 0xE0, 0x75, 0x32] (kbd_init boot_interrupts) = Inr t \<and>
     vga.truncate t = fold vga_putchar [97, 98] (vga.truncate (kbd_init boot_interrupts))"
proof -
  have "decoder_idle (kbd_init boot_interrupts)"
    by (simp add: decoder_idle_def kbd_init_def interrupts.defs)
  moreover have "scan_text (Make 0x1C) = [97]" "scan_text (ExtMake 0x75) = []" "scan_text (Make 0x32) = [98]"
    by (simp_all add: key_text_def scan2_norm_to_keycode_def scan2_ext_to_keycode_def
        keycode_to_char_def keycode_chars_def)
  ultimately show ?thesis
    using decoder_types_keystrokes [of "kbd_init boot_interrupts" "[Make 0x1C, Break 0x1C, ExtMake 0x75, Make 0x32]"]
    by auto
qed

text \<open>
  After the Pause key the decoder waits for 256 more bytes with a full half of its buffer used:
  \<open>j\<close> bytes later it has stored them and still waits.
\<close>

definition wedged :: "nat \<Rightarrow> 'a kbd_scheme \<Rightarrow> bool" where
  "wedged j s \<longleftrightarrow> unat (scan_code_ptr s) = 5 + j \<and> unat (- expect s) \<le> j"

definition pause_bytes :: "u8 list" where
  "pause_bytes = [0xE1, 0x14, 0x77, 0xE1, 0xF0, 0x14, 0xF0, 0x77]"

lemma wedged_step:
  assumes "wedged j s" "j < 3" "data \<noteq> EMUL1"
  shows "\<exists>t. handle_data data s = Inr t \<and> wedged (Suc j) t"
proof -
  define u where "u = s\<lparr>scan_code_buf := (scan_code_buf s)(scan_code_ptr s := data),
    scan_code_ptr := scan_code_ptr s + 1, expect := expect s - 1\<rparr>"
  have ptr: "scan_code_ptr s < 8" using assms(1,2) by (simp add: wedged_def word_less_nat_alt)
  then have ptr': "unat (scan_code_ptr u) = 5 + Suc j"
    using assms(1) by (simp add: wedged_def u_def unat_plus_1)
  have h: "handle_data data s = decode_byte data u"
    using ptr by (simp add: handle_data_def u_def Let_def linorder_not_le [symmetric])
  have small: "unat (- expect s) \<le> 2" using assms(1,2) by (simp add: wedged_def)
  have e: "expect u \<noteq> 0"
  proof
    assume "expect u = 0"
    then have "expect s = 1" by (simp add: u_def)
    then show False using small by (simp add: unsigned_minus_1_eq_mask mask_eq_exp_minus_1)
  qed
  have "- (expect s - 1) = - expect s + 1" by simp
  then have less: "unat (- (expect s - 1)) \<le> Suc (unat (- expect s))"
    by (metis Suc_eq_plus1 unat_word_ariths(1) mod_less_eq_dividend unsigned_1)
  have more: "expect u + 1 = expect s" by (simp add: u_def)
  have keep: "wedged (Suc j) t"
    if "scan_code_ptr t = scan_code_ptr u" "expect t \<in> {expect s, 0, expect u}" for t :: "'a kbd_scheme"
    using that ptr' assms(1) less by (auto simp: wedged_def u_def)
  show ?thesis
    unfolding h decode_byte_def using assms(3) e more by (auto intro!: keep split: if_splits)
qed

lemma wedged_overrun: "wedged 3 s \<Longrightarrow> handle_data data s = Inl OutOfBounds"
  by (simp add: wedged_def handle_data_def word_le_nat_alt)

lemma pause_wedges:
  assumes "decoder_idle s"
  shows "\<exists>t. feed pause_bytes s = Inr t \<and> wedged 0 t"
proof -
  note idle = assms [unfolded decoder_idle_def]
  have numlock: "print_event \<lparr>ev_flags = 0, ev_code = ucast KEY_NUMLOCK\<rparr> u = Inr u" for u :: "'a kbd_scheme"
    by (simp add: print_event_def keycode_to_char_def keycode_chars_def)
  have tab: "scan2_norm_to_keycode ! 119 = KEY_NUMLOCK" by (simp add: scan2_norm_to_keycode_def)
  show ?thesis
    using idle numlock
    by (simp add: pause_bytes_def handle_data_def decode_byte_def Let_def scan_event_def
        table_lookup_def tab wedged_def word_le_nat_alt)
qed

text \<open>
  C31: the byte sequence of the Pause key does not produce an event: it leaves the decoder waiting
  for more bytes, and the fourth byte after it is written past the end of the buffer, for
  all bytes other than \<open>0xE1\<close>.
\<close>

theorem pause_key_overruns:
  assumes "decoder_idle s" "EMUL1 \<notin> {a, b, c}"
  shows "feed (pause_bytes @ [a, b, c, d]) s = Inl OutOfBounds"
proof -
  obtain t0 where t0: "feed pause_bytes s = Inr t0" "wedged 0 t0" using pause_wedges assms(1) by blast
  obtain t1 where t1: "handle_data a t0 = Inr t1" "wedged 1 t1"
    using wedged_step [OF t0(2), of a] assms(2) by auto
  obtain t2 where t2: "handle_data b t1 = Inr t2" "wedged 2 t2"
    using wedged_step [OF t1(2), of b] assms(2) by (auto simp: numeral_2_eq_2)
  obtain t3 where t3: "handle_data c t2 = Inr t3" "wedged 3 t3"
    using wedged_step [OF t2(2), of c] assms(2) by (auto simp: numeral_3_eq_3)
  show ?thesis using t0(1) t1(1) t2(1) t3(1) wedged_overrun [OF t3(2)] by (simp add: feed_append)
qed

theorem pause_key_overruns_witness:
  "feed (pause_bytes @ [0x1C, 0xF0, 0x1C, 0x32]) (kbd_init boot_interrupts) = Inl OutOfBounds"
  by (rule pause_key_overruns) (simp_all add: decoder_idle_def kbd_init_def interrupts.defs)

end
