(* ===== verification/Page_Alloc.thy ===== *)
theory Page_Alloc
  imports Ps2_Keyboard
begin

text \<open>
  The bitmap page frame allocator, \<^verbatim>\<open>src/arch/x86_64/mm/page_alloc.c\<close>, with the page table
  entries of \<^verbatim>\<open>include/arch/x86_64/pml.h\<close> it fills in.  \<open>vmem\<close> is the memory of the kernel
  heap region by virtual address, where the bitmap lies.  An entry is its 64-bit value; the
  bit-fields are reads and writes of its bits.  \<open>page_alloc\<close> is only called on local entries,
  so it takes the entry and returns it.
\<close>

section \<open>Page table entries\<close>

abbreviation PML_FLAG_WRITABLE :: u64 where "PML_FLAG_WRITABLE \<equiv> 0x02"
abbreviation PML_FLAG_HUGE :: u64 where "PML_FLAG_HUGE \<equiv> 0x80"
abbreviation PML_FLAGS_MASK :: u64 where "PML_FLAGS_MASK \<equiv> 0x800000000000019E"
abbreviation PAGE_SHIFT :: nat where "PAGE_SHIFT \<equiv> 12"
abbreviation PAGE_SIZE :: u64 where "PAGE_SIZE \<equiv> 0x1000"
abbreviation KERNEL_HEAP_START :: u64 where "KERNEL_HEAP_START \<equiv> 0xFFFFFF0000000000"

definition pml_present :: "u64 \<Rightarrow> bool" where
  "pml_present e = bit e 0"

definition pml_huge :: "u64 \<Rightarrow> bool" where
  "pml_huge e = bit e 7"

definition pml_address :: "u64 \<Rightarrow> u64" where
  "pml_address e = take_bit 40 (drop_bit 12 e)"

definition pml_set_address :: "u64 \<Rightarrow> u64 \<Rightarrow> u64" where
  "pml_set_address a e = (e AND NOT (push_bit 12 (mask 40))) OR push_bit 12 (take_bit 40 a)"

definition pml_set_present :: "u64 \<Rightarrow> u64" where
  "pml_set_present e = e OR 1"

section \<open>State\<close>

record palloc = kbd +
  vmem :: mem
  frames :: u64
  nframes :: u32
  total_memory :: u64
  unavailable_memory :: u64

section \<open>Bitmap operations\<close>

abbreviation BITMAP_INDEX :: "u64 \<Rightarrow> u64" where "BITMAP_INDEX b \<equiv> drop_bit 3 b"
abbreviation BITMAP_OFFSET :: "u64 \<Rightarrow> u64" where "BITMAP_OFFSET b \<equiv> b AND 0x07"

text \<open>\<open>nframes * PAGE_SIZE\<close> is an unsigned 32-bit product.\<close>

definition frame_limit :: "'a palloc_scheme \<Rightarrow> u64" where
  "frame_limit s = ucast (nframes s * 0x1000)"

definition frame_set :: "u64 \<Rightarrow> 'a palloc_scheme \<Rightarrow> 'a palloc_scheme" where
  "frame_set frame_addr s =
     (if frame_addr < frame_limit s then
        let frame = drop_bit PAGE_SHIFT frame_addr;
            idx = BITMAP_INDEX frame;
            off = ucast (BITMAP_OFFSET frame) :: u8
        in s\<lparr>vmem := (vmem s)(frames s + idx := vmem s (frames s + idx) OR push_bit (unat off) 1)\<rparr>
      else s)"

definition frame_clear :: "u64 \<Rightarrow> 'a palloc_scheme \<Rightarrow> 'a palloc_scheme" where
  "frame_clear frame_addr s =
     (if frame_addr < frame_limit s then
        let frame = drop_bit PAGE_SHIFT frame_addr;
            idx = BITMAP_INDEX frame;
            off = BITMAP_OFFSET frame
        in s\<lparr>vmem := (vmem s)(frames s + idx :=
               vmem s (frames s + idx) AND NOT (push_bit (unat off) 1))\<rparr>
      else s)"

definition frame_test :: "u64 \<Rightarrow> 'a palloc_scheme \<Rightarrow> u8" where
  "frame_test frame_addr s =
     (if \<not> frame_addr < frame_limit s then 1
      else let frame = drop_bit PAGE_SHIFT frame_addr;
               idx = BITMAP_INDEX frame;
               off = BITMAP_OFFSET frame
           in vmem s (frames s + idx) AND push_bit (unat off) 1)"

lemma unat_succ_64:
  fixes i x :: u64
  assumes "i < x" shows "unat (i + 1) = Suc (unat i)"
proof -
  have "unat i < unat x" using assms by (simp add: word_less_nat_alt)
  then have "Suc (unat i) < 18446744073709551616" using unat_bound_64(1) [of x] by linarith
  then show ?thesis by (simp add: unat_word_ariths(1))
qed

lemma remaining_succ_64: "i < x \<Longrightarrow> 2 ^ 64 - unat (i + 1) < 2 ^ 64 - unat (i :: u64)"
proof -
  assume "i < x"
  then have "unat (i + 1) = Suc (unat i)" by (rule unat_succ_64)
  moreover have "unat i < 2 ^ 64" by simp
  ultimately show ?thesis by linarith
qed

text \<open>The search falls off the end of the function when it finds nothing.\<close>

function first_free_loop :: "'a palloc_scheme \<Rightarrow> u64 \<Rightarrow> u64 result" where
  "first_free_loop s i =
     (if i < BITMAP_INDEX (ucast (nframes s)) then
        if vmem s (frames s + i) = 0xFF then first_free_loop s (i + 1)
        else case find (\<lambda>j. vmem s (frames s + i) AND push_bit j 1 = 0) [0..<8] of
               Some j \<Rightarrow> Inr (push_bit 3 i + of_nat j)
             | None \<Rightarrow> first_free_loop s (i + 1)
      else Inl MissingReturn)"
  by pat_completeness auto
termination
  by (relation "measure (\<lambda>(s, i). 2 ^ 64 - unat i)")
    (simp_all only: wf_measure in_measure prod.case remaining_succ_64)

declare first_free_loop.simps [simp del]

definition first_free_frame :: "'a palloc_scheme \<Rightarrow> u64 result" where
  "first_free_frame s = first_free_loop s 0"

section \<open>Allocation\<close>

definition page_alloc :: "u64 \<Rightarrow> u64 \<Rightarrow> 'a palloc_scheme \<Rightarrow> (u64 \<times> 'a palloc_scheme) result" where
  "page_alloc page flags s =
     (if pml_address page \<noteq> 0 then Inr (page, s)
      else rbind (first_free_frame s) (\<lambda>idx.
        let addr = push_bit PAGE_SHIFT idx;
            s = frame_set addr s;
            page = pml_set_address idx page;
            page = pml_set_present page;
            flags = (flags AND PML_FLAGS_MASK) AND NOT PML_FLAG_HUGE;
            page = page OR flags
        in Inr (page, s\<lparr>unavailable_memory := unavailable_memory s + 1\<rparr>)))"

definition page_free :: "u64 \<Rightarrow> 'a palloc_scheme \<Rightarrow> u64 \<times> 'a palloc_scheme" where
  "page_free page s =
     (let addr = pml_address page
      in if frame_test addr s = 0 then (page, s)
         else let s = frame_clear (pml_address page) s;
                  page = pml_set_address 0 page
              in (page, s\<lparr>unavailable_memory := unavailable_memory s - 1\<rparr>))"

definition get_total_memory :: "'a palloc_scheme \<Rightarrow> u64" where
  "get_total_memory s = total_memory s"

definition get_used_memory :: "'a palloc_scheme \<Rightarrow> u64" where
  "get_used_memory s = unavailable_memory s"

text \<open>\<open>nframes >> sizeof(*frames)\<close>: a shift by one.\<close>

definition metadata_size :: "u64 \<Rightarrow> u64" where
  "metadata_size memsize = drop_bit 1 (drop_bit PAGE_SHIFT memsize)"

section \<open>Initialisation\<close>

partial_function (option) reserve_loop ::
  "u64 \<Rightarrow> u64 \<Rightarrow> 'a palloc_scheme \<Rightarrow> (u64 \<times> 'a palloc_scheme) option" where
  "reserve_loop unavail limit s =
     (if unavail < limit then reserve_loop (unavail + PAGE_SIZE) limit (frame_set unavail s)
      else Some (unavail, s))"

definition page_allocator_init ::
  "u64 \<Rightarrow> u64 \<Rightarrow> 'a palloc_scheme \<Rightarrow> 'a palloc_scheme result" where
  "page_allocator_init first_free_page memsize s =
     (let s = s\<lparr>nframes := ucast (drop_bit PAGE_SHIFT memsize)\<rparr>;
          metadata_bytes = ucast (nframes s) div 8;
          s = s\<lparr>frames := KERNEL_HEAP_START\<rparr>;
          s = s\<lparr>vmem := fst (memset (vmem s) (frames s) 0 metadata_bytes)\<rparr>
      in rbind (of_loop (reserve_loop 0 (first_free_page + metadata_bytes) s)) (\<lambda>(unavail, s).
           let avail = ucast (nframes s) - unavail
           in Inr (s\<lparr>total_memory := avail * PAGE_SIZE,
                     unavailable_memory := unavail * PAGE_SIZE\<rparr>)))"

section \<open>The bitmap as a set of frames\<close>

definition frame_bit :: "'a palloc_scheme \<Rightarrow> nat \<Rightarrow> bool" where
  "frame_bit s f = bit (vmem s (frames s + of_nat (f div 8))) (f mod 8)"

definition frame_count :: "'a palloc_scheme \<Rightarrow> nat" where
  "frame_count s = unat (nframes s)"

definition used_frames :: "'a palloc_scheme \<Rightarrow> nat set" where
  "used_frames s = {f. f < frame_count s \<and> frame_bit s f}"

text \<open>The frames the search looks at: whole bytes of the bitmap.\<close>

definition managed :: "'a palloc_scheme \<Rightarrow> nat" where
  "managed s = 8 * (frame_count s div 8)"

text \<open>Less than 4 GiB: the 32-bit product in the bounds checks does not wrap.\<close>

definition palloc_inv :: "'a palloc_scheme \<Rightarrow> bool" where
  "palloc_inv s \<longleftrightarrow> frame_count s < 2 ^ 20"

lemma frame_limit: "palloc_inv s \<Longrightarrow> unat (frame_limit s) = frame_count s * 4096"
proof -
  assume "palloc_inv s"
  then have "unat (nframes s) * 4096 < 2 ^ 32" by (simp add: palloc_inv_def frame_count_def)
  then show ?thesis
    by (simp add: frame_limit_def frame_count_def unat_word_ariths(2))
qed

lemma frame_parts:
  "unat (drop_bit 3 (drop_bit 12 a) :: u64) = unat a div 4096 div 8"
  "unat (drop_bit 12 (a :: u64) AND 7) = unat a div 4096 mod 8"
  "unat (ucast (drop_bit 12 (a :: u64) AND 7) :: u8) = unat a div 4096 mod 8"
proof -
  have 7: "(7 :: u64) = mask 3" by (simp add: mask_eq_exp_minus_1)
  show off: "unat (drop_bit 12 a AND 7) = unat a div 4096 mod 8"
    unfolding 7 take_bit_eq_mask [symmetric] unsigned_take_bit_eq unat_drop_bit_eq
    by (simp add: take_bit_eq_mod drop_bit_eq_div)
  show "unat (drop_bit 3 (drop_bit 12 a) :: u64) = unat a div 4096 div 8"
    by (simp only: unat_drop_bit_eq) (simp add: drop_bit_eq_div)
  have "unat a div 4096 mod 8 < 8" by simp
  then have "unat a div 4096 mod 8 < 256" by linarith
  then show "unat (ucast (drop_bit 12 a AND 7) :: u8) = unat a div 4096 mod 8"
    unfolding unsigned_ucast_eq off by (simp add: take_bit_nat_eq_self)
qed

lemma frame_byte: "drop_bit 15 a = (of_nat (unat a div 4096 div 8) :: u64)"
  unfolding frame_parts(1) [symmetric] by simp

lemma frame_slot_inj:
  assumes "f < 2 ^ 20" "g < 2 ^ 20"
  shows "b + of_nat (f div 8) = (b + of_nat (g div 8) :: u64) \<longleftrightarrow> f div 8 = g div 8"
proof -
  have "f div 8 < 2 ^ 64" "g div 8 < 2 ^ 64" using assms by auto
  then show ?thesis using add_of_nat_inj_64 by auto
qed

lemma frame_eq_iff: "f = g \<longleftrightarrow> f div 8 = g div 8 \<and> f mod 8 = (g mod 8 :: nat)"
  by (metis div_mult_mod_eq)

lemma frame_set_bit:
  assumes "palloc_inv s" "g < 2 ^ 20"
  shows "frame_bit (frame_set a s) g \<longleftrightarrow>
    frame_bit s g \<or> unat a < frame_count s * 4096 \<and> g = unat a div 4096"
proof (cases "unat a < frame_count s * 4096")
  case True
  let ?f = "unat a div 4096"
  have lim: "a < frame_limit s" using True frame_limit [OF assms(1)] by (simp add: word_less_nat_alt)
  have "?f < 2 ^ 20" using True assms(1) by (simp add: palloc_inv_def less_mult_imp_div_less)
  note inj = frame_slot_inj [OF assms(2) this, of "frames s"]
  have "?f mod 8 < 8" "g mod 8 < 8" by simp_all
  then show ?thesis using True inj
    by (auto simp: frame_bit_def frame_set_def lim Let_def frame_byte frame_parts frame_eq_iff [of g]
        bit_simps)
next
  case False
  then have "\<not> a < frame_limit s" using frame_limit [OF assms(1)] by (simp add: word_less_nat_alt)
  then show ?thesis using False by (simp add: frame_set_def frame_bit_def)
qed

lemma frame_clear_bit:
  assumes "palloc_inv s" "g < 2 ^ 20" "unat a < frame_count s * 4096"
  shows "frame_bit (frame_clear a s) g \<longleftrightarrow> frame_bit s g \<and> g \<noteq> unat a div 4096"
proof -
  let ?f = "unat a div 4096"
  have lim: "a < frame_limit s" using assms(3) frame_limit [OF assms(1)] by (simp add: word_less_nat_alt)
  have "?f < 2 ^ 20" using assms by (simp add: palloc_inv_def less_mult_imp_div_less)
  note inj = frame_slot_inj [OF assms(2) this, of "frames s"]
  have "?f mod 8 < 8" "g mod 8 < 8" by simp_all
  then show ?thesis using inj
    by (auto simp: frame_bit_def frame_clear_def lim Let_def frame_byte frame_parts frame_eq_iff [of g]
        bit_simps)
qed

lemma frame_test_bit:
  assumes "palloc_inv s" "unat a < frame_count s * 4096"
  shows "frame_test a s = 0 \<longleftrightarrow> \<not> frame_bit s (unat a div 4096)"
proof -
  have lim: "a < frame_limit s" using assms(2) frame_limit [OF assms(1)] by (simp add: word_less_nat_alt)
  show ?thesis
    using lim bit_iff_and_push_bit_not_eq_0
      [of "vmem s (frames s + of_nat (unat a div 4096 div 8))" "unat a div 4096 mod 8"]
    by (simp add: frame_test_def Let_def frame_byte frame_parts frame_bit_def)
qed

lemma frame_ops_frame [simp]:
  "frames (frame_set a s) = frames s" "nframes (frame_set a s) = nframes s"
  "frames (frame_clear a s) = frames s" "nframes (frame_clear a s) = nframes s"
  "frame_count (frame_set a s) = frame_count s" "palloc_inv (frame_set a s) = palloc_inv s"
  "frame_count (frame_clear a s) = frame_count s" "palloc_inv (frame_clear a s) = palloc_inv s"
  by (simp_all add: frame_set_def frame_clear_def Let_def palloc_inv_def frame_count_def)

lemma used_frame_set:
  assumes "palloc_inv s"
  shows "used_frames (frame_set a s) =
    used_frames s \<union> {f. f = unat a div 4096 \<and> f < frame_count s}"
proof -
  have "unat a div 4096 < frame_count s \<longleftrightarrow> unat a < frame_count s * 4096"
    by (auto simp: less_mult_imp_div_less dividend_less_times_div intro: ccontr)
  then show ?thesis
    using assms frame_set_bit [OF assms] by (auto simp: used_frames_def palloc_inv_def)
qed

section \<open>The search\<close>

lemma full_byte: "(x :: u8) = 0xFF \<longleftrightarrow> (\<forall>j < 8. bit x j)"
proof -
  have "(0xFF :: u8) = - 1" by simp
  then show ?thesis by (auto simp: bit_eq_iff)
qed

lemma find_shift: "find P [8 * i..<8 * i + 8] = map_option (\<lambda>j. 8 * i + j) (find (\<lambda>j. P (8 * i + j)) [0..<8])"
  by (simp add: upt_conv_Cons)

lemma find_append: "find P (xs @ ys) = (case find P xs of None \<Rightarrow> find P ys | Some x \<Rightarrow> Some x)"
  by (induction xs) simp_all

lemma find_None_all: "find P xs = None \<longleftrightarrow> (\<forall>x \<in> set xs. \<not> P x)"
  by (induction xs) auto

lemma first_free_loop_find:
  assumes "palloc_inv s" "unat i \<le> frame_count s div 8"
  shows "first_free_loop s i =
    (case find (\<lambda>f. \<not> frame_bit s f) [8 * unat i..<managed s] of
       Some f \<Rightarrow> Inr (of_nat f) | None \<Rightarrow> Inl MissingReturn)"
  using assms
proof (induction s i rule: first_free_loop.induct)
  case (1 s i)
  let ?n = "frame_count s div 8" and ?b = "vmem s (frames s + i)"
  let ?free = "\<lambda>f. \<not> frame_bit s f"
  have lim: "i < drop_bit 3 (ucast (nframes s)) \<longleftrightarrow> unat i < ?n"
    by (simp only: word_less_nat_alt unat_drop_bit_eq unat_ucast_32_64 frame_count_def) (simp add: drop_bit_eq_div)
  show ?case
  proof (cases "unat i < ?n")
    case False
    then have "managed s \<le> 8 * unat i" by (simp add: managed_def)
    then show ?thesis using False by (subst first_free_loop.simps) (simp add: lim)
  next
    case True
    have suc: "unat (i + 1) = Suc (unat i)" using True lim by (intro unat_succ_64) simp
    have split: "[8 * unat i..<managed s] = [8 * unat i..<8 * unat i + 8] @ [8 * unat (i + 1)..<managed s]"
    proof -
      have "8 * unat i + 8 \<le> managed s" using True by (simp add: managed_def)
      then obtain k where k: "managed s = 8 * unat i + 8 + k" using le_Suc_ex by blast
      show ?thesis unfolding k suc
        using upt_add_eq_append [of "8 * unat i" "8 * unat i + 8" k] by (simp add: add.commute)
    qed
    have bits: "frame_bit s (8 * unat i + j) = bit ?b j" if "j < 8" for j
      using that by (simp add: frame_bit_def)
    have inner: "find (\<lambda>j. ?b AND push_bit j 1 = 0) [0..<8] = find (\<lambda>j. ?free (8 * unat i + j)) [0..<8]"
      by (rule find_cong) (auto simp: bits bit_iff_and_push_bit_not_eq_0)
    show ?thesis
    proof (cases "find (\<lambda>j. ?free (8 * unat i + j)) [0..<8]")
      case None
      then have "?b = 0xFF" using bits by (simp add: full_byte find_None_all)
      then show ?thesis
        using "1.IH"(1) "1.prems" True None
        by (subst first_free_loop.simps) (simp add: lim split find_append find_shift suc)
    next
      case (Some j)
      then have j: "j < 8" "\<not> bit ?b j" using bits by (auto simp: find_Some_iff)
      then have "?b \<noteq> 0xFF" by (auto simp: full_byte)
      moreover have "push_bit 3 i + of_nat j = (of_nat (8 * unat i + j) :: u64)"
        by (simp add: push_bit_eq_mult)
      ultimately show ?thesis
        using True Some inner
        by (subst first_free_loop.simps) (simp add: lim split find_append find_shift)
    qed
  qed
qed

lemma first_free_frame_find:
  "palloc_inv s \<Longrightarrow> first_free_frame s =
    (case find (\<lambda>f. \<not> frame_bit s f) [0..<managed s] of
       Some f \<Rightarrow> Inr (of_nat f) | None \<Rightarrow> Inl MissingReturn)"
  using first_free_loop_find [of s 0] by (simp add: first_free_frame_def)

lemma pml_address_set [simp]: "pml_address (pml_set_address a e) = take_bit 40 a"
  by (rule bit_word_eqI) (auto simp: pml_address_def pml_set_address_def bit_simps)

lemma pml_present_set [simp]: "pml_present (pml_set_present e)" "pml_present (pml_set_present e OR x)"
  by (simp_all add: pml_present_def pml_set_present_def bit_simps)

lemma bit_flags_mask: "bit PML_FLAGS_MASK n \<longleftrightarrow> n \<in> {1, 2, 3, 4, 7, 8, 63}"
proof -
  have "PML_FLAGS_MASK = (2 ^ 1 OR 2 ^ 2 OR 2 ^ 3 OR 2 ^ 4 OR 2 ^ 7 OR 2 ^ 8 OR 2 ^ 63 :: u64)" by simp
  also have "bit \<dots> n \<longleftrightarrow> n \<in> {1, 2, 3, 4, 7, 8, 63}" by (simp only: bit_or_iff bit_exp_iff) auto
  finally show ?thesis .
qed

lemma bit_huge: "bit PML_FLAG_HUGE n \<longleftrightarrow> n = 7"
proof -
  have "PML_FLAG_HUGE = (2 ^ 7 :: u64)" by simp
  then show ?thesis by (simp only: bit_simps) auto
qed

lemma pml_address_flags [simp]:
  "pml_address (pml_set_present e OR (flags AND PML_FLAGS_MASK AND x)) = pml_address e"
  by (rule bit_word_eqI)
    (auto simp: pml_address_def pml_set_present_def bit_simps bit_flags_mask)

section \<open>Contract of the frame allocator\<close>

text \<open>\<open>n\<close> allocations in a row.\<close>

fun alloc_many :: "('s \<Rightarrow> (nat \<times> 's) option) \<Rightarrow> nat \<Rightarrow> 's \<Rightarrow> (nat list \<times> 's) option" where
  "alloc_many alloc 0 s = Some ([], s)"
| "alloc_many alloc (Suc n) s =
     (case alloc s of None \<Rightarrow> None
      | Some (f, t) \<Rightarrow>
          (case alloc_many alloc n t of None \<Rightarrow> None | Some (fs, u) \<Rightarrow> Some (f # fs, u)))"

text \<open>
  An allocator hands out a frame nobody uses, and does so as long as one of the frames below
  \<open>cap\<close> is unused.
\<close>

locale frame_allocator =
  fixes alloc :: "'s \<Rightarrow> (nat \<times> 's) option" and used :: "'s \<Rightarrow> nat set" and inv :: "'s \<Rightarrow> bool"
    and cap :: "'s \<Rightarrow> nat"
  assumes alloc_inv: "inv s \<Longrightarrow> alloc s = Some (f, t) \<Longrightarrow> inv t \<and> cap t = cap s"
    and alloc_fresh: "inv s \<Longrightarrow> alloc s = Some (f, t) \<Longrightarrow> f \<notin> used s \<and> f < cap s"
    and alloc_used: "inv s \<Longrightarrow> alloc s = Some (f, t) \<Longrightarrow> used t = insert f (used s)"
    and alloc_some: "inv s \<Longrightarrow> f < cap s \<Longrightarrow> f \<notin> used s \<Longrightarrow> alloc s \<noteq> None"
begin

lemma alloc_many_fresh:
  "inv s \<Longrightarrow> alloc_many alloc n s = Some (fs, t) \<Longrightarrow>
     distinct fs \<and> set fs \<inter> used s = {} \<and> used t = set fs \<union> used s \<and> inv t"
proof (induction n arbitrary: s fs)
  case (Suc n)
  obtain f u gs where u: "alloc s = Some (f, u)" "alloc_many alloc n u = Some (gs, t)" "fs = f # gs"
    using Suc.prems(2) by (auto split: option.splits)
  then show ?case
    using Suc.IH [of u gs] alloc_inv [OF Suc.prems(1) u(1)] alloc_fresh [OF Suc.prems(1) u(1)]
      alloc_used [OF Suc.prems(1) u(1)] by auto
qed simp

lemma alloc_many_some:
  "inv s \<Longrightarrow> n \<le> card ({..<cap s} - used s) \<Longrightarrow> \<exists>fs t. alloc_many alloc n s = Some (fs, t)"
proof (induction n arbitrary: s)
  case (Suc n)
  then have "{..<cap s} - used s \<noteq> {}" by (metis card.empty Zero_not_Suc le_zero_eq)
  then obtain f u where u: "alloc s = Some (f, u)" using alloc_some [OF Suc.prems(1)] by fastforce
  note facts = alloc_inv [OF Suc.prems(1) u] alloc_fresh [OF Suc.prems(1) u] alloc_used [OF Suc.prems(1) u]
  have "{..<cap u} - used u = ({..<cap s} - used s) - {f}" using facts by auto
  then have "card ({..<cap s} - used s) = Suc (card ({..<cap u} - used u))"
    using facts card_Suc_Diff1 [of "{..<cap s} - used s" f] by simp
  then show ?case using Suc.IH [of u] Suc.prems(2) facts u by fastforce
qed simp

end

definition frame_alloc :: "u64 \<Rightarrow> 'a palloc_scheme \<Rightarrow> (nat \<times> 'a palloc_scheme) option" where
  "frame_alloc flags s =
     (case page_alloc 0 flags s of Inl _ \<Rightarrow> None | Inr (e, t) \<Rightarrow> Some (unat (pml_address e), t))"

lemma page_alloc_find:
  assumes "palloc_inv s" "pml_address e = 0"
  shows "page_alloc e flags s =
    (case find (\<lambda>f. \<not> frame_bit s f) [0..<managed s] of
       None \<Rightarrow> Inl MissingReturn
     | Some f \<Rightarrow> Inr (pml_set_present (pml_set_address (of_nat f) e) OR
           (flags AND PML_FLAGS_MASK AND NOT PML_FLAG_HUGE),
         (frame_set (of_nat (f * 4096)) s)\<lparr>unavailable_memory := unavailable_memory s + 1\<rparr>))"
proof -
  have "push_bit 12 (of_nat f) = (of_nat (f * 4096) :: u64)" for f
    by (simp add: push_bit_eq_mult mult.commute)
  moreover have "unavailable_memory (frame_set a s) = unavailable_memory s" for a
    by (simp add: frame_set_def Let_def)
  ultimately show ?thesis
    using assms(2) first_free_frame_find [OF assms(1)]
    by (simp add: page_alloc_def Let_def and.assoc split: option.split)
qed

lemma frame_bit_used: "palloc_inv s \<Longrightarrow> f < managed s \<Longrightarrow> frame_bit s f \<longleftrightarrow> f \<in> used_frames s"
  by (auto simp: used_frames_def managed_def)

lemma managed_bound: "palloc_inv s \<Longrightarrow> f < managed s \<Longrightarrow> f < frame_count s \<and> f < 2 ^ 20"
  by (auto simp: palloc_inv_def managed_def)

lemma unavailable_frame [simp]:
  "palloc_inv (s\<lparr>unavailable_memory := x\<rparr>) = palloc_inv s"
  "managed (s\<lparr>unavailable_memory := x\<rparr>) = managed s"
  "used_frames (s\<lparr>unavailable_memory := x\<rparr>) = used_frames s"
  "managed (frame_set a s) = managed s"
  by (simp_all add: palloc_inv_def managed_def frame_count_def used_frames_def frame_bit_def)

lemma page_alloc_cases:
  assumes "palloc_inv s" "pml_address e = 0"
  obtains (full) "{..<managed s} \<subseteq> used_frames s" "page_alloc e flags s = Inl MissingReturn"
  | (free) f e' t where "f < managed s" "f \<notin> used_frames s" "{..<f} \<subseteq> used_frames s"
      "page_alloc e flags s = Inr (e', t)" "unat (pml_address e') = f" "pml_present e'"
      "used_frames t = insert f (used_frames s)" "palloc_inv t" "managed t = managed s"
proof (cases "find (\<lambda>f. \<not> frame_bit s f) [0..<managed s]")
  case None
  then have "{..<managed s} \<subseteq> used_frames s"
    using frame_bit_used [OF assms(1)] by (auto simp: find_None_iff)
  then show thesis using full None page_alloc_find [OF assms] by simp
next
  case (Some f)
  then have f: "f < managed s" "\<not> frame_bit s f" "\<forall>g < f. frame_bit s g"
    by (auto simp: find_Some_iff)
  have b: "f < frame_count s" "f < 2 ^ 20" using managed_bound [OF assms(1) f(1)] by auto
  then have u: "unat (of_nat (f * 4096) :: u64) = f * 4096" "unat (of_nat f :: u64) = f"
    by (simp_all del: of_nat_mult)
  have used: "used_frames (frame_set (of_nat (f * 4096)) s) = insert f (used_frames s)"
    using used_frame_set [OF assms(1), of "of_nat (f * 4096)"] u b by (auto simp del: of_nat_mult)
  have addr: "unat (take_bit 40 (of_nat f) :: u64) = f"
    using b u by (simp add: unsigned_take_bit_eq take_bit_nat_eq_self)
  define e' where "e' = pml_set_present (pml_set_address (of_nat f) e) OR
    (flags AND PML_FLAGS_MASK AND NOT PML_FLAG_HUGE)"
  define t where "t = (frame_set (of_nat (f * 4096)) s)\<lparr>unavailable_memory := unavailable_memory s + 1\<rparr>"
  have "page_alloc e flags s = Inr (e', t)"
    using page_alloc_find [OF assms, of flags] Some by (simp only: e'_def t_def option.case)
  moreover have "unat (pml_address e') = f" "pml_present e'"
    unfolding e'_def by (simp_all only: pml_address_flags pml_address_set addr pml_present_set)
  moreover have "used_frames t = insert f (used_frames s)" "palloc_inv t" "managed t = managed s"
    using used assms(1) by (simp_all add: t_def del: of_nat_mult)
  moreover have "f \<notin> used_frames s" "{..<f} \<subseteq> used_frames s"
    using f(2,3) b(1) by (auto simp: used_frames_def)
  ultimately show thesis using free f(1) by blast
qed

interpretation palloc_frames: frame_allocator "frame_alloc flags" used_frames palloc_inv managed
proof unfold_locales
  fix s t :: "'a palloc_scheme" and f
  assume inv: "palloc_inv s"
  have zero: "pml_address 0 = 0" by (simp add: pml_address_def)
  {
    assume "frame_alloc flags s = Some (f, t)"
    then have "palloc_inv t \<and> managed t = managed s \<and> f \<notin> used_frames s \<and> f < managed s \<and>
        used_frames t = insert f (used_frames s)"
      by (cases rule: page_alloc_cases [OF inv zero, of flags]) (simp_all add: frame_alloc_def)
    then show "palloc_inv t \<and> managed t = managed s" "f \<notin> used_frames s \<and> f < managed s"
      "used_frames t = insert f (used_frames s)" by simp_all
  next
    assume "f < managed s" "f \<notin> used_frames s"
    then show "frame_alloc flags s \<noteq> None"
      by (cases rule: page_alloc_cases [OF inv zero, of flags]) (auto simp: frame_alloc_def)
  }
qed

section \<open>Properties\<close>

text \<open>
  C27: with less than 4 GiB of memory, \<open>page_alloc\<close> on an empty entry takes the lowest unused frame
  among those the bitmap's whole bytes describe, marks it used and nothing else, and stores it in
  the entry as present; when all of them are used the function runs off its end.
\<close>

theorem page_alloc_first_free:
  assumes "palloc_inv s" "pml_address e = 0"
  shows "(if {..<managed s} \<subseteq> used_frames s then page_alloc e flags s = Inl MissingReturn
    else \<exists>f e' t. page_alloc e flags s = Inr (e', t) \<and> f < managed s \<and> f \<notin> used_frames s \<and>
      {..<f} \<subseteq> used_frames s \<and> pml_present e' \<and> unat (pml_address e') = f \<and>
      used_frames t = insert f (used_frames s) \<and> palloc_inv t)"
  using assms by (cases rule: page_alloc_cases [of s e flags]) auto

text \<open>
  C28: as many allocations as there are unused frames succeed one after the other, and they yield
  pairwise different frames none of which was in use.
\<close>

theorem page_alloc_distinct:
  assumes "palloc_inv s" "n \<le> card ({..<managed s} - used_frames s)"
  shows "\<exists>fs t. alloc_many (frame_alloc flags) n s = Some (fs, t) \<and> distinct fs \<and>
    set fs \<inter> used_frames s = {} \<and> used_frames t = set fs \<union> used_frames s"
  using palloc_frames.alloc_many_some [OF assms, of flags] palloc_frames.alloc_many_fresh [OF assms(1)]
  by blast

definition sample_palloc :: "u8 \<Rightarrow> u32 \<Rightarrow> palloc" where
  "sample_palloc b n = kbd.extend (kbd_init boot_interrupts)
     \<lparr>vmem = (\<lambda>a. if a = KERNEL_HEAP_START then b else 0), frames = KERNEL_HEAP_START,
      nframes = n, total_memory = 0, unavailable_memory = 0\<rparr>"

lemma sample_palloc_fields [simp]:
  "vmem (sample_palloc b n) = (\<lambda>a. if a = KERNEL_HEAP_START then b else 0)"
  "frames (sample_palloc b n) = KERNEL_HEAP_START" "nframes (sample_palloc b n) = n"
  by (simp_all add: sample_palloc_def kbd.defs)

lemma sample_palloc_16:
  "palloc_inv (sample_palloc 7 16)" "managed (sample_palloc 7 16) = 16"
  "used_frames (sample_palloc 7 16) = {0, 1, 2}"
proof -
  have "f < 16 \<Longrightarrow> frame_bit (sample_palloc 7 16) f \<longleftrightarrow> f \<in> {0, 1, 2}" for f
  proof -
    assume "f < 16"
    have seven: "bit (7 :: u8) j \<longleftrightarrow> j \<in> {0, 1, 2}" for j
    proof -
      have eq: "(7 :: u8) = mask 3" by (simp add: mask_eq_exp_minus_1)
      show ?thesis unfolding eq bit_mask_iff by auto
    qed
    have "of_nat (f div 8) = (0 :: u64) \<longleftrightarrow> f < 8"
      using \<open>f < 16\<close> eq_of_nat_64 [of "f div 8" 0] by auto
    then show ?thesis using \<open>f < 16\<close> seven [of f]
      by (cases "f < 8") (simp_all add: frame_bit_def)
  qed
  then show "used_frames (sample_palloc 7 16) = {0, 1, 2}"
    by (auto simp: used_frames_def frame_count_def)
  show "palloc_inv (sample_palloc 7 16)" "managed (sample_palloc 7 16) = 16"
    by (simp_all add: palloc_inv_def managed_def frame_count_def)
qed

theorem page_alloc_first_free_witness:
  "\<exists>e t. page_alloc 0 2 (sample_palloc 7 16) = Inr (e, t) \<and> pml_present e \<and> unat (pml_address e) = 3 \<and>
     used_frames t = {0, 1, 2, 3}"
proof -
  have "3 \<in> {..<16} - {0, 1, 2 :: nat}" by simp
  then have "\<not> {..<managed (sample_palloc 7 16)} \<subseteq> used_frames (sample_palloc 7 16)"
    unfolding sample_palloc_16 by blast
  moreover have "pml_address 0 = 0" by (simp add: pml_address_def)
  ultimately have "\<exists>f e' t. page_alloc 0 2 (sample_palloc 7 16) = Inr (e', t) \<and> f < 16 \<and> f \<notin> {0, 1, 2} \<and>
      {..<f} \<subseteq> {0, 1, 2} \<and> pml_present e' \<and> unat (pml_address e') = f \<and>
      used_frames t = insert f {0, 1, 2} \<and> palloc_inv t"
    using page_alloc_first_free [OF sample_palloc_16(1), of 0 2]
    by (simp only: sample_palloc_16 if_False refl simp_thms)
  then obtain f e' t where *: "page_alloc 0 2 (sample_palloc 7 16) = Inr (e', t)" "f \<notin> {0, 1, 2}"
      "{..<f} \<subseteq> {0, 1, 2}" "pml_present e'" "unat (pml_address e') = f"
      "used_frames t = insert f {0, 1, 2}" by (elim exE conjE) (rule that; assumption)
  have "\<not> 3 < f" using *(3) by auto
  then have "f = 3" using *(2) by auto
  then show ?thesis using * by auto
qed

theorem page_alloc_distinct_witness:
  "\<exists>fs t. alloc_many (frame_alloc 2) 13 (sample_palloc 7 16) = Some (fs, t) \<and> distinct fs \<and>
     set fs \<inter> {0, 1, 2} = {}"
proof -
  have "{..<16} - {0, 1, 2 :: nat} = {3..<16}" by auto
  then show ?thesis
    using page_alloc_distinct [of "sample_palloc 7 16" 13 2] by (auto simp: sample_palloc_16)
qed

text \<open>
  C30: \<open>page_free\<close> treats the frame number in the entry as a byte address: what it marks unused is
  frame \<open>f div 4096\<close>, so the frame \<open>f\<close> of the entry stays marked used for every \<open>f > 0\<close>, and a
  low frame that others use is released.
\<close>

theorem page_free_wrong_frame:
  assumes "palloc_inv s" "unat (pml_address e) = f" "f < frame_count s"
  shows "used_frames (snd (page_free e s)) = used_frames s - {f div 4096} \<and>
    fst (page_free e s) = (if f div 4096 \<in> used_frames s then pml_set_address 0 e else e) \<and>
    (0 < f \<longrightarrow> (f \<in> used_frames (snd (page_free e s)) \<longleftrightarrow> f \<in> used_frames s))"
proof -
  have lim: "unat (pml_address e) < frame_count s * 4096" using assms by simp
  have low: "f div 4096 < frame_count s" using assms(3) by (meson div_le_dividend le_less_trans)
  have test: "frame_test (pml_address e) s = 0 \<longleftrightarrow> f div 4096 \<notin> used_frames s"
    using frame_test_bit [OF assms(1) lim] assms(2) low by (simp add: used_frames_def)
  have clear: "used_frames (frame_clear (pml_address e) s) = used_frames s - {f div 4096}"
    using frame_clear_bit [OF assms(1) _ lim] assms(1,2) by (auto simp: used_frames_def palloc_inv_def)
  have "used_frames (snd (page_free e s)) = used_frames s - {f div 4096}"
    using test clear by (simp add: page_free_def Let_def)
  moreover have "0 < f \<Longrightarrow> f \<noteq> f div 4096" by (metis div_less_dividend less_irrefl one_less_numeral_iff semiring_norm(76))
  ultimately show ?thesis using test by (auto simp: page_free_def Let_def)
qed

theorem page_free_wrong_frame_witness:
  "used_frames (snd (page_free (push_bit 12 2) (sample_palloc 7 16))) = {1, 2}"
proof -
  have "unat (pml_address (push_bit 12 2)) = 2" by (simp add: pml_address_def)
  then show ?thesis
    using page_free_wrong_frame [of "sample_palloc 7 16" "push_bit 12 2" 2]
    by (simp add: sample_palloc_16 frame_count_def insert_Diff_if)
qed

section \<open>Initialisation\<close>

text \<open>The number of pages that cover \<open>n\<close> bytes.\<close>

definition pages_for :: "nat \<Rightarrow> nat" where
  "pages_for n = (n + 4095) div 4096"

lemma less_pages_for: "k < pages_for n \<longleftrightarrow> k * 4096 < n"
  by (auto simp: pages_for_def less_eq_div_iff_mult_less_eq Suc_le_eq [symmetric])

lemma reserve_loop_marks:
  assumes "palloc_inv s" "unat limit \<le> 2 ^ 64 - 4096" "k \<le> pages_for (unat limit)"
  shows "\<exists>t. reserve_loop (of_nat (k * 4096)) limit s =
      Some (of_nat (pages_for (unat limit) * 4096), t) \<and>
    frames t = frames s \<and> nframes t = nframes s \<and>
    used_frames t = used_frames s \<union> {f. k \<le> f \<and> f < pages_for (unat limit) \<and> f < frame_count s}"
  using assms(1,3)
proof (induction "pages_for (unat limit) - k" arbitrary: k s)
  case 0
  then have k: "k = pages_for (unat limit)" by simp
  then have "\<not> k * 4096 < unat limit" "k * 4096 < 2 ^ 64"
    using less_pages_for [of k "unat limit"] assms(2) by (auto simp: pages_for_def)
  then have "\<not> of_nat (k * 4096) < limit" by (simp add: word_less_nat_alt del: of_nat_mult)
  then show ?case using k by (subst reserve_loop.simps) (auto simp del: of_nat_mult)
next
  case (Suc n)
  then have k: "k < pages_for (unat limit)" "n = pages_for (unat limit) - Suc k" by linarith+
  then have lt: "k * 4096 < unat limit" by (simp add: less_pages_for)
  then have kb: "k * 4096 < 2 ^ 64" using less_unat_64 by simp
  have go: "of_nat (k * 4096) < limit" using lt kb by (simp add: word_less_nat_alt del: of_nat_mult)
  let ?s = "frame_set (of_nat (k * 4096)) s"
  have used: "used_frames ?s = used_frames s \<union> {f. f = k \<and> f < frame_count s}"
    using used_frame_set [OF Suc.prems(1), of "of_nat (k * 4096)"] kb by (simp del: of_nat_mult)
  have "of_nat (k * 4096) + PAGE_SIZE = (of_nat (Suc k * 4096) :: u64)" by simp
  then have "reserve_loop (of_nat (k * 4096)) limit s = reserve_loop (of_nat (Suc k * 4096)) limit ?s"
    using go by (subst reserve_loop.simps) (simp only: if_True)
  moreover obtain t where t: "reserve_loop (of_nat (Suc k * 4096)) limit ?s =
      Some (of_nat (pages_for (unat limit) * 4096), t)"
    "frames t = frames ?s" "nframes t = nframes ?s"
    "used_frames t = used_frames ?s \<union> {f. Suc k \<le> f \<and> f < pages_for (unat limit) \<and> f < frame_count ?s}"
    using Suc.hyps(1) [OF k(2), of ?s] Suc.prems(1) k(1) by fastforce
  moreover have "{f. f = k \<and> f < frame_count s} \<union>
      {f. Suc k \<le> f \<and> f < pages_for (unat limit) \<and> f < frame_count s} =
      {f. k \<le> f \<and> f < pages_for (unat limit) \<and> f < frame_count s}"
    using k(1) by (auto simp: le_eq_less_or_eq)
  then have "used_frames t = used_frames s \<union>
      {f. k \<le> f \<and> f < pages_for (unat limit) \<and> f < frame_count s}"
    unfolding t(4) used by (simp add: Un_assoc)
  ultimately show ?case by simp
qed

text \<open>The state in which the reservation loop starts.\<close>

lemma page_allocator_init_loop:
  fixes s :: "'a palloc_scheme"
  assumes "unat memsize < 2 ^ 32" "n = unat memsize div 4096"
  obtains s1 where "palloc_inv s1" "frame_count s1 = n" "frames s1 = KERNEL_HEAP_START"
    "used_frames s1 \<inter> {..<managed s1} = {}"
    "page_allocator_init first_free memsize s =
      rbind (of_loop (reserve_loop 0 (first_free + of_nat (n div 8)) s1)) (\<lambda>(unavail, s).
        Inr (s\<lparr>total_memory := (ucast (nframes s) - unavail) * PAGE_SIZE,
               unavailable_memory := unavail * PAGE_SIZE\<rparr>))"
proof -
  have n: "n < 2 ^ 20" using assms by (simp add: less_mult_imp_div_less)
  have "unat (drop_bit 12 memsize) = n"
    by (simp only: unat_drop_bit_eq assms(2)) (simp add: drop_bit_eq_div)
  then have nf: "unat (ucast (drop_bit 12 memsize) :: u32) = n"
    using n by (simp add: unsigned_ucast_eq take_bit_nat_eq_self)
  define m0 where "m0 = fst (memset (vmem s) KERNEL_HEAP_START 0 (of_nat (n div 8)))"
  define s1 where "s1 = s\<lparr>nframes := ucast (drop_bit 12 memsize), frames := KERNEL_HEAP_START, vmem := m0\<rparr>"
  have s1: "palloc_inv s1" "frame_count s1 = n" "managed s1 = 8 * (n div 8)" "frames s1 = KERNEL_HEAP_START"
    using n nf by (simp_all add: s1_def palloc_inv_def frame_count_def managed_def)
  have bytes: "ucast (ucast (drop_bit 12 memsize) :: u32) div 8 = (of_nat (n div 8) :: u64)"
    using n nf by (subst eq_of_nat_64) (simp_all add: unat_div)
  have "\<not> frame_bit s1 f" if "f < managed s1" for f
  proof -
    have "f div 8 < n div 8" using that s1(3) by auto
    then have "in_range KERNEL_HEAP_START (unat (of_nat (n div 8) :: u64)) (KERNEL_HEAP_START + of_nat (f div 8))"
      using n by (subst in_range_add) auto
    then show ?thesis by (simp add: frame_bit_def s1(4)) (simp add: s1_def m0_def memset_apply)
  qed
  then have "used_frames s1 \<inter> {..<managed s1} = {}" by (auto simp: used_frames_def)
  moreover have "page_allocator_init first_free memsize s =
      rbind (of_loop (reserve_loop 0 (first_free + of_nat (n div 8)) s1)) (\<lambda>(unavail, s).
        Inr (s\<lparr>total_memory := (ucast (nframes s) - unavail) * PAGE_SIZE,
               unavailable_memory := unavail * PAGE_SIZE\<rparr>))"
    by (simp add: page_allocator_init_def Let_def bytes s1_def m0_def)
  ultimately show thesis using that s1 by blast
qed

lemma accounting_frame [simp]:
  "palloc_inv (s\<lparr>total_memory := x\<rparr>) = palloc_inv s"
  "frame_count (s\<lparr>total_memory := x\<rparr>) = frame_count s"
  "frame_count (s\<lparr>unavailable_memory := x\<rparr>) = frame_count s"
  "managed (s\<lparr>total_memory := x\<rparr>) = managed s"
  "used_frames (s\<lparr>total_memory := x\<rparr>) = used_frames s"
  by (simp_all add: palloc_inv_def managed_def frame_count_def used_frames_def frame_bit_def)

text \<open>
  C29: for less than 4 GiB of memory and a first free page far from the top of the address
  space, initialisation returns, and exactly the frames below the end of the kernel plus one bit
  per frame are marked used, among the frames that whole bytes of the bitmap describe.  The
  accounting mixes units: the \<open>total_memory\<close> it records subtracts a number of bytes from a number
  of frames.
\<close>

theorem page_allocator_init_reserves:
  assumes "unat memsize < 2 ^ 32"
    and "unat first_free + unat memsize div 4096 div 8 \<le> 2 ^ 64 - 4096"
  shows "\<exists>t. page_allocator_init first_free memsize s = Inr t \<and> palloc_inv t \<and>
    frame_count t = unat memsize div 4096 \<and> frames t = KERNEL_HEAP_START \<and>
    used_frames t \<inter> {..<managed t} =
      {f. f < managed t \<and> f * 4096 < unat first_free + frame_count t div 8} \<and>
    total_memory t = (of_nat (frame_count t) -
      of_nat (pages_for (unat first_free + frame_count t div 8) * 4096)) * 4096"
proof -
  define n where "n = unat memsize div 4096"
  let ?limit = "first_free + of_nat (n div 8)" and ?pages = "pages_for (unat first_free + n div 8)"
  obtain s1 where s1: "palloc_inv s1" "frame_count s1 = n" "frames s1 = KERNEL_HEAP_START"
    "used_frames s1 \<inter> {..<managed s1} = {}"
    "page_allocator_init first_free memsize s =
      rbind (of_loop (reserve_loop 0 ?limit s1)) (\<lambda>(unavail, s).
        Inr (s\<lparr>total_memory := (ucast (nframes s) - unavail) * PAGE_SIZE,
               unavailable_memory := unavail * PAGE_SIZE\<rparr>))"
    using page_allocator_init_loop [OF assms(1) n_def] by blast
  have lim: "unat ?limit = unat first_free + n div 8"
    using assms(2) by (intro unat_add_of_nat [of _ "Suc (n div 8)"]) (simp_all add: n_def)
  obtain t where t: "reserve_loop 0 ?limit s1 = Some (of_nat (?pages * 4096), t)"
    "frames t = frames s1" "nframes t = nframes s1"
    "used_frames t = used_frames s1 \<union> {f. f < ?pages \<and> f < frame_count s1}"
    using reserve_loop_marks [OF s1(1), of ?limit 0] assms(2) unfolding lim by (auto simp: n_def)
  have same: "palloc_inv t" "frame_count t = n" "managed t = managed s1" "managed s1 = 8 * (n div 8)"
    using t(3) s1(1,2) by (simp_all add: palloc_inv_def frame_count_def managed_def)
  have used: "used_frames t \<inter> {..<managed t} = {f. f < managed t \<and> f * 4096 < unat first_free + n div 8}"
    using s1(2,4) same unfolding t(4) by (auto simp: less_pages_for)
  have "ucast (nframes t) = (of_nat n :: u64)"
    using same(1,2) by (subst eq_of_nat_64) (auto simp: palloc_inv_def frame_count_def)
  then show ?thesis
    using t(1,2) s1(3) used same unfolding s1(5)
    by (simp add: n_def [symmetric] del: of_nat_mult)
qed

theorem page_allocator_init_reserves_witness:
  "\<exists>t. page_allocator_init 0x3000 0x10000 (sample_palloc 0xFF 0) = Inr t \<and>
     used_frames t \<inter> {..<16} = {0, 1, 2, 3} \<and> total_memory t = (16 - 0x4000) * 4096"
proof -
  have "f * 4096 < 12290 \<longleftrightarrow> f \<in> {0, 1, 2, 3}" for f :: nat by auto
  moreover have "pages_for 12290 = 4" by (simp add: pages_for_def)
  ultimately show ?thesis
    using page_allocator_init_reserves [of "0x10000" "0x3000" "sample_palloc 0xFF 0"]
    by (auto simp: managed_def)
qed

end
