(* ===== verification/Paging.thy ===== *)
theory Paging
  imports Page_Alloc
begin

text \<open>
  The page table operations of \<^verbatim>\<open>src/arch/x86_64/mm/mm.c\<close>: mapping a page, translating an
  address, looking up entries and switching directories.  \<open>pmem\<close> holds the page table entries by
  physical address.  The C code reaches a table either by its physical address (identity map
  of the boot code) or through the high map of \<open>mmu_to_virt\<close>; both read the physical address in
  the low 39 bits of the pointer.
\<close>

section \<open>State and pointers\<close>

abbreviation HIGH_MAP_REGION :: u64 where "HIGH_MAP_REGION \<equiv> 0xFFFFFF8000000000"
abbreviation PAGE_LOW_MASK :: u64 where "PAGE_LOW_MASK \<equiv> 0xFFF"
abbreviation PAGE_SIZE_MASK :: u64 where "PAGE_SIZE_MASK \<equiv> 0xFFFFFFFFFFFFF000"
abbreviation CANONICAL_MASK :: u64 where "CANONICAL_MASK \<equiv> 0x0000FFFFFFFFFFFF"
abbreviation PHYS_MASK :: u64 where "PHYS_MASK \<equiv> 0x0000007FFFFFFFFF"
abbreviation PML3_MASK :: u64 where "PML3_MASK \<equiv> 0x3FFFFFFF"
abbreviation PML2_MASK :: u64 where "PML2_MASK \<equiv> 0x1FFFFF"
abbreviation PML1_MASK :: u64 where "PML1_MASK \<equiv> 0xFFF"
abbreviation PML_ENTRY_MASK :: u64 where "PML_ENTRY_MASK \<equiv> 0x1FF"

record mmu = palloc +
  pmem :: "u64 \<Rightarrow> u64"
  current_pml4 :: u64

text \<open>The address of \<open>table[idx]\<close>, a load and a store through such a pointer.\<close>

definition entry_at :: "u64 \<Rightarrow> u64 \<Rightarrow> u64" where
  "entry_at table idx = table + 8 * idx"

definition pml_load :: "u64 \<Rightarrow> 'a mmu_scheme \<Rightarrow> u64" where
  "pml_load p s = pmem s (p AND PHYS_MASK)"

definition pml_store :: "u64 \<Rightarrow> u64 \<Rightarrow> 'a mmu_scheme \<Rightarrow> 'a mmu_scheme" where
  "pml_store p e s = s\<lparr>pmem := (pmem s)(p AND PHYS_MASK := e)\<rparr>"

definition mmu_to_virt :: "u64 \<Rightarrow> u64" where
  "mmu_to_virt phys_addr = phys_addr OR HIGH_MAP_REGION"

section \<open>Mapping a page\<close>

text \<open>One level of the descent: find or create the next table.\<close>

definition next_table :: "u64 \<Rightarrow> u64 \<Rightarrow> 'a mmu_scheme \<Rightarrow> (u64 \<times> 'a mmu_scheme) result" where
  "next_table table idx s =
     rbind (if \<not> pml_present (pml_load (entry_at table idx) s) then
              rbind (page_alloc 0 PML_FLAG_WRITABLE s) (\<lambda>(table_page, s).
                Inr (pml_store (entry_at table idx) table_page s))
            else Inr s)
       (\<lambda>s. let next_table_addr = push_bit PAGE_SHIFT (pml_address (pml_load (entry_at table idx) s))
            in Inr (mmu_to_virt next_table_addr, s))"

fun descend :: "nat list \<Rightarrow> u64 \<Rightarrow> u64 \<Rightarrow> 'a mmu_scheme \<Rightarrow> (u64 \<times> 'a mmu_scheme) result" where
  "descend [] page_addr table s = Inr (table, s)"
| "descend (i # is) page_addr table s =
     (let idx = drop_bit (27 - i * 9) page_addr AND PML_ENTRY_MASK
      in rbind (next_table table idx s) (\<lambda>(table, s). descend is page_addr table s))"

definition map_addr_in ::
  "u64 \<Rightarrow> u64 \<Rightarrow> u64 \<Rightarrow> u64 \<Rightarrow> 'a mmu_scheme \<Rightarrow> 'a mmu_scheme result" where
  "map_addr_in pml4 virt_addr phys_addr flags s =
     (if phys_addr AND PAGE_LOW_MASK \<noteq> 0 then Inl Aborted
      else if virt_addr AND PAGE_LOW_MASK \<noteq> 0 then Inl Aborted
      else
        let page_addr = drop_bit PAGE_SHIFT virt_addr
        in rbind (descend [0, 1, 2] page_addr pml4 s) (\<lambda>(table, s).
             let idx = page_addr AND PML_ENTRY_MASK;
                 p = entry_at table idx;
                 s = pml_store p (pml_set_address phys_addr (pml_load p s)) s;
                 s = pml_store p (pml_set_present (pml_load p s)) s;
                 flags = (flags AND PML_FLAGS_MASK) AND NOT PML_FLAG_HUGE
             in Inr (pml_store p (pml_load p s OR flags) s)))"

definition map_addr :: "u64 \<Rightarrow> u64 \<Rightarrow> u64 \<Rightarrow> 'a mmu_scheme \<Rightarrow> 'a mmu_scheme result" where
  "map_addr virt_addr phys_addr flags s =
     map_addr_in (current_pml4 s) virt_addr phys_addr flags s"

section \<open>Translation and lookup\<close>

definition mmu_translate_via :: "u64 \<Rightarrow> u64 \<Rightarrow> 'a mmu_scheme \<Rightarrow> u64" where
  "mmu_translate_via root virt_addr s =
     (let real_bits = virt_addr AND CANONICAL_MASK;
          page_addr = drop_bit PAGE_SHIFT real_bits;
          pml4_entry_idx = drop_bit 27 page_addr AND PML_ENTRY_MASK;
          pml3_entry_idx = drop_bit 18 page_addr AND PML_ENTRY_MASK;
          pml2_entry_idx = drop_bit 9 page_addr AND PML_ENTRY_MASK;
          pml1_entry_idx = page_addr AND PML_ENTRY_MASK;
          e4 = pml_load (entry_at root pml4_entry_idx) s
      in if \<not> pml_present e4 then - 1
         else
           let next_addr = push_bit PAGE_SHIFT (pml_address e4);
               pml3 = mmu_to_virt next_addr;
               e3 = pml_load (entry_at pml3 pml3_entry_idx) s
           in if \<not> pml_present e3 then - 2
              else
                let next_addr = push_bit PAGE_SHIFT (pml_address e3)
                in if pml_huge e3 then next_addr OR (virt_addr AND PML3_MASK)
                   else
                     let pml2 = mmu_to_virt next_addr;
                         e2 = pml_load (entry_at pml2 pml2_entry_idx) s
                     in if \<not> pml_present e2 then - 3
                        else
                          let next_addr = push_bit PAGE_SHIFT (pml_address e2)
                          in if pml_huge e2 then next_addr OR (virt_addr AND PML2_MASK)
                             else
                               let pml1 = mmu_to_virt next_addr;
                                   e1 = pml_load (entry_at pml1 pml1_entry_idx) s
                               in if \<not> pml_present e1 then - 4
                                  else push_bit PAGE_SHIFT (pml_address e1) OR
                                    (virt_addr AND PML1_MASK))"

definition mmu_translate :: "u64 \<Rightarrow> 'a mmu_scheme \<Rightarrow> u64" where
  "mmu_translate virt_addr s = mmu_translate_via (current_pml4 s) virt_addr s"

text \<open>The indices are 32-bit here; they have nine bits.\<close>

definition mmu_get_page :: "u64 \<Rightarrow> 'a mmu_scheme \<Rightarrow> u64" where
  "mmu_get_page virt_addr s =
     (let real_bits = virt_addr AND CANONICAL_MASK;
          page_addr = drop_bit PAGE_SHIFT real_bits;
          pml4_entry_idx = ucast (drop_bit 27 page_addr AND PML_ENTRY_MASK) :: u32;
          pml3_entry_idx = ucast (drop_bit 18 page_addr AND PML_ENTRY_MASK) :: u32;
          pml2_entry_idx = ucast (drop_bit 9 page_addr AND PML_ENTRY_MASK) :: u32;
          pml1_entry_idx = ucast (page_addr AND PML_ENTRY_MASK) :: u32;
          e4 = pml_load (entry_at (current_pml4 s) (ucast pml4_entry_idx)) s
      in if \<not> pml_present e4 then NULL
         else
           let pml3 = mmu_to_virt (push_bit PAGE_SHIFT (pml_address e4));
               e3 = pml_load (entry_at pml3 (ucast pml3_entry_idx)) s
           in if \<not> pml_present e3 then NULL
              else
                let pml2 = mmu_to_virt (push_bit PAGE_SHIFT (pml_address e3));
                    e2 = pml_load (entry_at pml2 (ucast pml2_entry_idx)) s
                in if \<not> pml_present e2 then NULL
                   else entry_at (mmu_to_virt (push_bit PAGE_SHIFT (pml_address e2)))
                          (ucast pml1_entry_idx))"

text \<open>The result and the four output pointers.\<close>

definition mmu_get_page_deep :: "u64 \<Rightarrow> 'a mmu_scheme \<Rightarrow> u8 \<times> u64 \<times> u64 \<times> u64 \<times> u64" where
  "mmu_get_page_deep virt_addr s =
     (let real_bits = virt_addr AND CANONICAL_MASK;
          page_addr = drop_bit PAGE_SHIFT real_bits;
          pml4_entry_idx = ucast (drop_bit 27 page_addr AND PML_ENTRY_MASK) :: u32;
          pml3_entry_idx = ucast (drop_bit 18 page_addr AND PML_ENTRY_MASK) :: u32;
          pml2_entry_idx = ucast (drop_bit 9 page_addr AND PML_ENTRY_MASK) :: u32;
          pml1_entry_idx = ucast (page_addr AND PML_ENTRY_MASK) :: u32;
          pml4_out = entry_at (current_pml4 s) (ucast pml4_entry_idx)
      in if \<not> pml_present (pml_load pml4_out s) then (1, pml4_out, NULL, NULL, NULL)
         else
           let pml3 = mmu_to_virt (push_bit PAGE_SHIFT (pml_address (pml_load pml4_out s)));
               pml3_out = entry_at pml3 (ucast pml3_entry_idx)
           in if \<not> pml_present (pml_load pml3_out s) then (1, pml4_out, pml3_out, NULL, NULL)
              else
                let pml2 = mmu_to_virt (push_bit PAGE_SHIFT (pml_address (pml_load pml3_out s)));
                    pml2_out = entry_at pml2 (ucast pml2_entry_idx)
                in if \<not> pml_present (pml_load pml2_out s) then (1, pml4_out, pml3_out, pml2_out, NULL)
                   else
                     let pml1 = mmu_to_virt (push_bit PAGE_SHIFT (pml_address (pml_load pml2_out s)));
                         pml1_out = entry_at pml1 (ucast pml1_entry_idx)
                     in if \<not> pml_present (pml_load pml1_out s)
                        then (1, pml4_out, pml3_out, pml2_out, pml1_out)
                        else (0, pml4_out, pml3_out, pml2_out, pml1_out))"

section \<open>Directories\<close>

definition mmu_total_memory :: "'a mmu_scheme \<Rightarrow> u64" where
  "mmu_total_memory s = get_total_memory s"

definition mmu_used_memory :: "'a mmu_scheme \<Rightarrow> u64" where
  "mmu_used_memory s = get_used_memory s"

definition mmu_get_current_dir :: "'a mmu_scheme \<Rightarrow> u64" where
  "mmu_get_current_dir s = current_pml4 s"

definition mmu_get_kernel_dir :: "u64 \<Rightarrow> u64" where
  "mmu_get_kernel_dir high_base_pml4 = mmu_to_virt high_base_pml4"

definition mmu_set_directory :: "u64 \<Rightarrow> u64 \<Rightarrow> 'a mmu_scheme \<Rightarrow> 'a mmu_scheme" where
  "mmu_set_directory high_base_pml4 dir s =
     (let dir = (if dir = NULL then mmu_to_virt high_base_pml4 else dir);
          s = s\<lparr>current_pml4 := dir\<rparr>
      in set_cr3 (dir AND PHYS_MASK) s)"

definition mmu_invalidate :: "u64 \<Rightarrow> 'a mmu_scheme \<Rightarrow> 'a mmu_scheme" where
  "mmu_invalidate addr s = invlpg addr s"

section \<open>The processor's page walk\<close>

text \<open>
  \<open>hw_walk M n table va\<close> walks \<open>n\<close> levels from the table at physical address \<open>table\<close>.  A missing
  entry gives the level, counted from 1 at the root, as the error.  A leaf on level \<open>l\<close> (from the
  bottom) maps a page of \<open>12 + 9 * l\<close> address bits.
\<close>

definition walk_index :: "nat \<Rightarrow> u64 \<Rightarrow> u64" where
  "walk_index l va = take_bit 9 (drop_bit (12 + 9 * l) va)"

fun hw_walk :: "(u64 \<Rightarrow> u64) \<Rightarrow> nat \<Rightarrow> u64 \<Rightarrow> u64 \<Rightarrow> nat + u64" where
  "hw_walk M 0 table va = Inl 0"
| "hw_walk M (Suc l) table va =
     (let e = M (table + 8 * walk_index l va)
      in if \<not> pml_present e then Inl (4 - l)
         else if l = 0 \<or> l \<le> 2 \<and> pml_huge e then
           Inr (push_bit (12 + 9 * l) (drop_bit (9 * l) (pml_address e)) OR take_bit (12 + 9 * l) va)
         else hw_walk M l (push_bit 12 (pml_address e)) va)"

text \<open>
  Tables on the way lie in the 512 GiB the high map can reach, and large pages are aligned to
  their size.
\<close>

fun walk_fits :: "(u64 \<Rightarrow> u64) \<Rightarrow> nat \<Rightarrow> u64 \<Rightarrow> u64 \<Rightarrow> bool" where
  "walk_fits M 0 table va = True"
| "walk_fits M (Suc l) table va =
     (let e = M (table + 8 * walk_index l va)
      in pml_present e \<longrightarrow>
           (if l = 0 \<or> l \<le> 2 \<and> pml_huge e then take_bit (9 * l) (pml_address e) = 0
            else pml_address e < 2 ^ 27 \<and> walk_fits M l (push_bit 12 (pml_address e)) va))"

lemma masks:
  "PHYS_MASK = mask 39" "CANONICAL_MASK = mask 48" "PML_ENTRY_MASK = mask 9" "PML1_MASK = mask 12"
  "PML2_MASK = mask 21" "PML3_MASK = mask 30"
  by (simp_all add: mask_eq_exp_minus_1)

lemma and_masks:
  fixes x :: u64
  shows "x AND PHYS_MASK = take_bit 39 x" "x AND PML_ENTRY_MASK = take_bit 9 x"
    "x AND PML1_MASK = take_bit 12 x" "x AND PML2_MASK = take_bit 21 x" "x AND PML3_MASK = take_bit 30 x"
    "x AND CANONICAL_MASK = take_bit 48 x"
  by (simp_all only: masks take_bit_eq_mask)

lemma walk_indices:
  "drop_bit 27 (drop_bit 12 (va AND CANONICAL_MASK)) AND PML_ENTRY_MASK = walk_index 3 va"
  "drop_bit 18 (drop_bit 12 (va AND CANONICAL_MASK)) AND PML_ENTRY_MASK = walk_index 2 va"
  "drop_bit 9 (drop_bit 12 (va AND CANONICAL_MASK)) AND PML_ENTRY_MASK = walk_index 1 va"
  "drop_bit 12 (va AND CANONICAL_MASK) AND PML_ENTRY_MASK = walk_index 0 va"
  unfolding and_masks walk_index_def
  by (rule bit_word_eqI; auto simp: bit_simps)+

lemma walk_index_bound: "unat (walk_index l va) < 512"
proof -
  have "unat (walk_index l va) = take_bit 9 (unat (drop_bit (12 + 9 * l) va))"
    by (simp only: walk_index_def unsigned_take_bit_eq)
  then show ?thesis by (simp add: take_bit_eq_mod)
qed

text \<open>Through either view of a page-aligned table, entry \<open>idx\<close> is the same physical word.\<close>

lemma bit_aligned:
  assumes "take_bit n (x :: u64) = 0" "i < n" shows "\<not> bit x i"
  using assms bit_take_bit_iff [of n x i] by simp

lemma bit_index:
  assumes "unat (idx :: u64) < 512" shows "bit idx i \<Longrightarrow> i < 9"
proof -
  have "take_bit 9 idx = idx"
    using assms by (simp add: word_unat_eq_iff unsigned_take_bit_eq take_bit_nat_eq_self)
  then show "bit idx i \<Longrightarrow> i < 9" using bit_take_bit_iff [of 9 idx i] by simp
qed

lemma entry_or:
  assumes "take_bit 12 table = 0" "unat idx < 512"
  shows "table + 8 * idx = table OR push_bit 3 (idx :: u64)"
proof -
  have "table AND push_bit 3 idx = 0"
  proof (rule bit_word_eqI)
    fix n show "bit (table AND push_bit 3 idx) n = bit 0 n"
      using bit_aligned [OF assms(1), of n] bit_index [OF assms(2), of "n - 3"]
      by (cases "n < 12") (auto simp: bit_simps)
  qed
  then have "table + push_bit 3 idx = table OR push_bit 3 idx" by (rule disjunctive_add_eq_or)
  then show ?thesis by (simp add: push_bit_eq_mult mult.commute)
qed

lemma entry_phys:
  assumes "take_bit 12 table = 0" "unat idx < 512"
  shows "entry_at table idx AND PHYS_MASK = take_bit 39 table + 8 * idx"
proof -
  have "take_bit 12 (take_bit 39 table) = 0" using assms(1) by simp
  note or = entry_or [OF assms] entry_or [OF this assms(2)]
  have "take_bit 39 (push_bit 3 idx) = push_bit 3 idx"
    using bit_index [OF assms(2)] by (auto intro!: bit_word_eqI simp: bit_simps) fastforce
  then show ?thesis unfolding entry_at_def and_masks or by simp
qed

lemma load_entry:
  "take_bit 12 table = 0 \<Longrightarrow>
     pml_load (entry_at table (walk_index l va)) s = pmem s (take_bit 39 table + 8 * walk_index l va)"
  by (simp only: pml_load_def entry_phys walk_index_bound)

lemma high_map: "HIGH_MAP_REGION = NOT (mask 39)"
  by (simp add: mask_eq_exp_minus_1)

lemma take_mmu_to_virt: "n \<le> 39 \<Longrightarrow> take_bit n (mmu_to_virt x) = take_bit n x"
  unfolding mmu_to_virt_def high_map by (rule bit_word_eqI) (auto simp: bit_simps)

lemma small_27: "(a :: u64) < 2 ^ 27 \<Longrightarrow> take_bit 27 a = a"
  by (rule word_unat_eq_iff [THEN iffD2])
    (simp only: unsigned_take_bit_eq, simp add: take_bit_nat_eq_self word_less_nat_alt)

lemma virt_table:
  "take_bit 12 (mmu_to_virt (push_bit 12 a)) = 0"
  "a < 2 ^ 27 \<Longrightarrow> take_bit 39 (mmu_to_virt (push_bit 12 a)) = push_bit 12 a"
proof -
  show "take_bit 12 (mmu_to_virt (push_bit 12 a)) = 0"
    by (simp add: take_mmu_to_virt) (auto intro!: bit_word_eqI simp: bit_simps)
  assume "a < 2 ^ 27"
  then have "take_bit 27 a = a" by (rule small_27)
  then have "take_bit 39 (push_bit 12 a) = push_bit 12 a" by (simp add: take_bit_push_bit)
  then show "take_bit 39 (mmu_to_virt (push_bit 12 a)) = push_bit 12 a" by (simp add: take_mmu_to_virt)
qed

text \<open>The leaf address of an aligned page, as the code and as the processor compute it.\<close>

lemma leaf_address:
  assumes "take_bit (9 * l) a = 0"
  shows "push_bit (12 + 9 * l) (drop_bit (9 * l) a) = (push_bit 12 a :: u64)"
proof (rule bit_word_eqI)
  fix n
  show "bit (push_bit (12 + 9 * l) (drop_bit (9 * l) a)) n = bit (push_bit 12 a) n"
    using bit_aligned [OF assms, of "n - 12"] by (cases "12 + 9 * l \<le> n") (auto simp: bit_simps)
qed

lemma hw_walk_levels:
  "hw_walk M 4 t va = (let e = M (t + 8 * walk_index 3 va) in
     if \<not> pml_present e then Inl 1 else hw_walk M 3 (push_bit 12 (pml_address e)) va)"
  "hw_walk M 3 t va = (let e = M (t + 8 * walk_index 2 va) in
     if \<not> pml_present e then Inl 2
     else if pml_huge e then Inr (push_bit 30 (drop_bit 18 (pml_address e)) OR take_bit 30 va)
     else hw_walk M 2 (push_bit 12 (pml_address e)) va)"
  "hw_walk M 2 t va = (let e = M (t + 8 * walk_index 1 va) in
     if \<not> pml_present e then Inl 3
     else if pml_huge e then Inr (push_bit 21 (drop_bit 9 (pml_address e)) OR take_bit 21 va)
     else hw_walk M 1 (push_bit 12 (pml_address e)) va)"
  "hw_walk M 1 t va = (let e = M (t + 8 * walk_index 0 va) in
     if \<not> pml_present e then Inl 4 else Inr (push_bit 12 (pml_address e) OR take_bit 12 va))"
  using hw_walk.simps(2) [of M 3 t va] hw_walk.simps(2) [of M 2 t va] hw_walk.simps(2) [of M 1 t va]
    hw_walk.simps(2) [of M 0 t va]
  by (simp_all add: Let_def del: hw_walk.simps One_nat_def) (simp add: Let_def)

lemma walk_fits_levels:
  "walk_fits M 4 t va \<longleftrightarrow> (let e = M (t + 8 * walk_index 3 va) in
     pml_present e \<longrightarrow> pml_address e < 2 ^ 27 \<and> walk_fits M 3 (push_bit 12 (pml_address e)) va)"
  "walk_fits M 3 t va \<longleftrightarrow> (let e = M (t + 8 * walk_index 2 va) in
     pml_present e \<longrightarrow> (if pml_huge e then take_bit 18 (pml_address e) = 0
       else pml_address e < 2 ^ 27 \<and> walk_fits M 2 (push_bit 12 (pml_address e)) va))"
  "walk_fits M 2 t va \<longleftrightarrow> (let e = M (t + 8 * walk_index 1 va) in
     pml_present e \<longrightarrow> (if pml_huge e then take_bit 9 (pml_address e) = 0
       else pml_address e < 2 ^ 27))"
  using walk_fits.simps(2) [of M 3 t va] walk_fits.simps(2) [of M 2 t va]
    walk_fits.simps(2) [of M 1 t va]
  by (simp_all add: Let_def del: walk_fits.simps One_nat_def) (simp add: Let_def)

section \<open>The entries on the way of an address\<close>

definition next_entry :: "nat \<Rightarrow> u64 \<Rightarrow> u64 \<Rightarrow> 'a mmu_scheme \<Rightarrow> u64" where
  "next_entry l va p s = entry_at (mmu_to_virt (push_bit 12 (pml_address (pml_load p s)))) (walk_index l va)"

lemma walk_index_32: "ucast (ucast (walk_index l va) :: u32) = walk_index l va"
  by (rule bit_word_eqI) (auto simp: walk_index_def bit_simps)

text \<open>The entries \<open>p4\<close> to \<open>p1\<close> that the functions above visit for an address.\<close>

definition path_entries :: "u64 \<Rightarrow> u64 \<Rightarrow> 'a mmu_scheme \<Rightarrow> u64 \<times> u64 \<times> u64 \<times> u64" where
  "path_entries root va s =
     (let p4 = entry_at root (walk_index 3 va); p3 = next_entry 2 va p4 s; p2 = next_entry 1 va p3 s
      in (p4, p3, p2, next_entry 0 va p2 s))"

lemma path_entriesD:
  assumes "path_entries root va s = (p4, p3, p2, p1)"
  shows "p4 = entry_at root (walk_index 3 va)" "p3 = next_entry 2 va p4 s" "p2 = next_entry 1 va p3 s"
    "p1 = next_entry 0 va p2 s"
  using assms by (auto simp: path_entries_def Let_def)

lemma translate_path:
  assumes "path_entries root va s = (p4, p3, p2, p1)"
  shows "mmu_translate_via root va s =
      (if \<not> pml_present (pml_load p4 s) then - 1 else if \<not> pml_present (pml_load p3 s) then - 2
       else if pml_huge (pml_load p3 s) then push_bit 12 (pml_address (pml_load p3 s)) OR take_bit 30 va
       else if \<not> pml_present (pml_load p2 s) then - 3
       else if pml_huge (pml_load p2 s) then push_bit 12 (pml_address (pml_load p2 s)) OR take_bit 21 va
       else if \<not> pml_present (pml_load p1 s) then - 4
       else push_bit 12 (pml_address (pml_load p1 s)) OR take_bit 12 va)"
  unfolding mmu_translate_via_def Let_def walk_indices path_entriesD [OF assms] next_entry_def
  unfolding and_masks by (rule refl)

lemma get_page_path:
  assumes "path_entries (current_pml4 s) va s = (p4, p3, p2, p1)"
  shows "mmu_get_page va s =
    (if pml_present (pml_load p4 s) \<and> pml_present (pml_load p3 s) \<and> pml_present (pml_load p2 s)
     then p1 else NULL)"
proof -
  have chain: "(if \<not> a then n else if \<not> b then n else if \<not> c then n else x) =
      (if a \<and> b \<and> c then x else n)" for a b c and n x :: u64 by simp
  show ?thesis
    unfolding mmu_get_page_def Let_def walk_indices walk_index_32 path_entriesD [OF assms] next_entry_def
    by (rule chain)
qed

lemma get_page_deep_path:
  assumes "path_entries (current_pml4 s) va s = (p4, p3, p2, p1)"
  shows "mmu_get_page_deep va s =
    (if \<not> pml_present (pml_load p4 s) then (1, p4, NULL, NULL, NULL)
     else if \<not> pml_present (pml_load p3 s) then (1, p4, p3, NULL, NULL)
     else if \<not> pml_present (pml_load p2 s) then (1, p4, p3, p2, NULL)
     else if \<not> pml_present (pml_load p1 s) then (1, p4, p3, p2, p1) else (0, p4, p3, p2, p1))"
  unfolding mmu_get_page_deep_def Let_def walk_indices walk_index_32 path_entriesD [OF assms] next_entry_def
  by (rule refl)

lemma next_entry_load:
  "pml_address (pml_load p s) < 2 ^ 27 \<Longrightarrow> pml_load (next_entry l va p s) s =
     pmem s (push_bit 12 (pml_address (pml_load p s)) + 8 * walk_index l va)"
  unfolding next_entry_def by (simp only: load_entry [OF virt_table(1)] virt_table(2))

text \<open>The entries of the path as the processor's walk reads them, level by level.\<close>

lemma walk_path:
  fixes s :: "'a mmu_scheme"
  assumes "path_entries root va s = (p4, p3, p2, p1)" "take_bit 12 root = 0"
    and fits: "walk_fits (pmem s) 4 (take_bit 39 root) va"
  defines "e4 \<equiv> pml_load p4 s" and "e3 \<equiv> pml_load p3 s" and "e2 \<equiv> pml_load p2 s" and "e1 \<equiv> pml_load p1 s"
  shows "pmem s (take_bit 39 root + 8 * walk_index 3 va) = e4"
    and "pml_present e4 \<Longrightarrow> pmem s (push_bit 12 (pml_address e4) + 8 * walk_index 2 va) = e3"
    and "pml_present e4 \<Longrightarrow> pml_present e3 \<Longrightarrow> pml_huge e3 \<Longrightarrow> take_bit 18 (pml_address e3) = 0"
    and "pml_present e4 \<Longrightarrow> pml_present e3 \<Longrightarrow> \<not> pml_huge e3 \<Longrightarrow>
      pmem s (push_bit 12 (pml_address e3) + 8 * walk_index 1 va) = e2"
    and "pml_present e4 \<Longrightarrow> pml_present e3 \<Longrightarrow> \<not> pml_huge e3 \<Longrightarrow> pml_present e2 \<Longrightarrow> pml_huge e2 \<Longrightarrow>
      take_bit 9 (pml_address e2) = 0"
    and "pml_present e4 \<Longrightarrow> pml_present e3 \<Longrightarrow> \<not> pml_huge e3 \<Longrightarrow> pml_present e2 \<Longrightarrow> \<not> pml_huge e2 \<Longrightarrow>
      pmem s (push_bit 12 (pml_address e2) + 8 * walk_index 0 va) = e1"
proof -
  note p = path_entriesD [OF assms(1)]
  show l4: "pmem s (take_bit 39 root + 8 * walk_index 3 va) = e4"
    unfolding e4_def p(1) by (rule load_entry [OF assms(2), symmetric])
  assume p4: "pml_present e4"
  then have f4: "pml_address e4 < 2 ^ 27" "walk_fits (pmem s) 3 (push_bit 12 (pml_address e4)) va"
    using fits unfolding walk_fits_levels(1) Let_def l4 by blast+
  then show l3: "pmem s (push_bit 12 (pml_address e4) + 8 * walk_index 2 va) = e3"
    using next_entry_load [of p4 s 2 va] unfolding e3_def e4_def p(2) by metis
  assume p3: "pml_present e3"
  then have f3: "if pml_huge e3 then take_bit 18 (pml_address e3) = 0
      else pml_address e3 < 2 ^ 27 \<and> walk_fits (pmem s) 2 (push_bit 12 (pml_address e3)) va"
    using f4(2) unfolding walk_fits_levels(2) Let_def l3 by blast
  then show "pml_huge e3 \<Longrightarrow> take_bit 18 (pml_address e3) = 0" by meson
  assume h3: "\<not> pml_huge e3"
  then show l2: "pmem s (push_bit 12 (pml_address e3) + 8 * walk_index 1 va) = e2"
    using f3 next_entry_load [of p3 s 1 va] unfolding e2_def e3_def p(3) by metis
  assume "pml_present e2"
  then have f2: "if pml_huge e2 then take_bit 9 (pml_address e2) = 0 else pml_address e2 < 2 ^ 27"
    using f3 h3 unfolding walk_fits_levels(3) Let_def l2 by metis
  then show "pml_huge e2 \<Longrightarrow> take_bit 9 (pml_address e2) = 0" by meson
  assume "\<not> pml_huge e2"
  then show "pmem s (push_bit 12 (pml_address e2) + 8 * walk_index 0 va) = e1"
    using f2 next_entry_load [of p2 s 0 va] unfolding e1_def e2_def p(4) by metis
qed

section \<open>Properties\<close>

text \<open>
  C9: \<open>mmu_translate_via\<close> is the processor's page walk: whenever the tables lie within reach of the
  high map and large pages are aligned, it returns the physical address the walk yields, and
  \<open>-k\<close> when the entry on level \<open>k\<close> is missing.
\<close>

theorem mmu_translate_is_walk:
  assumes "take_bit 12 root = 0" "walk_fits (pmem s) 4 (take_bit 39 root) va"
  shows "mmu_translate_via root va s =
    (case hw_walk (pmem s) 4 (take_bit 39 root) va of Inl k \<Rightarrow> - of_nat k | Inr pa \<Rightarrow> pa)"
proof -
  obtain p4 p3 p2 p1 where path: "path_entries root va s = (p4, p3, p2, p1)" by (metis prod.exhaust)
  note w = walk_path [OF path assms]
  have leaf: "push_bit 30 (drop_bit 18 a) = (push_bit 12 a :: u64)" if "take_bit 18 a = 0" for a
    using leaf_address [of 2 a] that by simp
  have leaf': "push_bit 21 (drop_bit 9 a) = (push_bit 12 a :: u64)" if "take_bit 9 a = 0" for a
    using leaf_address [of 1 a] that by simp
  show ?thesis
    unfolding translate_path [OF path] hw_walk_levels Let_def w(1)
    by (cases "pml_present (pml_load p4 s)"; cases "pml_present (pml_load p3 s)"; cases "pml_huge (pml_load p3 s)";
        cases "pml_present (pml_load p2 s)"; cases "pml_huge (pml_load p2 s)"; cases "pml_present (pml_load p1 s)")
      (simp_all only: w leaf leaf' if_True if_False simp_thms sum.case of_nat_1 of_nat_numeral)
qed

lemma entry_not_null: "next_entry l va p s \<noteq> NULL"
proof -
  let ?v = "mmu_to_virt (push_bit 12 (pml_address (pml_load p s)))"
  have "next_entry l va p s = ?v OR push_bit 3 (walk_index l va)"
    unfolding next_entry_def entry_at_def by (rule entry_or [OF virt_table(1) walk_index_bound])
  then have "bit (next_entry l va p s) 63"
    by (simp only: mmu_to_virt_def high_map bit_or_iff bit_not_iff bit_mask_iff) simp
  then show ?thesis by auto
qed

text \<open>
  The two lookups agree: the last pointer \<open>mmu_get_page_deep\<close> hands out is the entry \<open>mmu_get_page\<close>
  returns, and its result is 0 exactly when that entry exists and is present.
\<close>

theorem mmu_get_page_deep_agrees:
  "\<exists>r p4 p3 p2. mmu_get_page_deep va s = (r, p4, p3, p2, mmu_get_page va s) \<and>
     (r = 0 \<longleftrightarrow> mmu_get_page va s \<noteq> NULL \<and> pml_present (pml_load (mmu_get_page va s) s))"
proof -
  obtain p4 p3 p2 p1 where path: "path_entries (current_pml4 s) va s = (p4, p3, p2, p1)"
    by (metis prod.exhaust)
  have "p1 \<noteq> NULL" unfolding path_entriesD(4) [OF path] by (rule entry_not_null)
  then show ?thesis unfolding get_page_path [OF path] get_page_deep_path [OF path] by auto
qed

lemma page_indices:
  "drop_bit (27 - 0 * 9) (drop_bit 12 va) AND PML_ENTRY_MASK = walk_index 3 va"
  "drop_bit (27 - 1 * 9) (drop_bit 12 va) AND PML_ENTRY_MASK = walk_index 2 va"
  "drop_bit (27 - 2 * 9) (drop_bit 12 va) AND PML_ENTRY_MASK = walk_index 1 va"
  "drop_bit 12 va AND PML_ENTRY_MASK = walk_index 0 va"
  unfolding and_masks walk_index_def by (simp_all add: drop_bit_drop_bit)

lemma next_table_present:
  "pml_present (pml_load (entry_at table idx) s) \<Longrightarrow>
     next_table table idx s = Inr (mmu_to_virt (push_bit 12 (pml_address (pml_load (entry_at table idx) s))), s)"
  by (simp add: next_table_def Let_def)

text \<open>Mapping with all page tables in place writes one entry.\<close>

lemma map_addr_writes:
  fixes s :: "'a mmu_scheme"
  assumes path: "path_entries (current_pml4 s) va s = (p4, p3, p2, p1)"
    and "pml_present (pml_load p4 s)" "pml_present (pml_load p3 s)" "pml_present (pml_load p2 s)"
    and "va AND PAGE_LOW_MASK = 0" "pa AND PAGE_LOW_MASK = 0"
  shows "map_addr va pa flags s = Inr (pml_store p1
    (pml_set_present (pml_set_address pa (pml_load p1 s)) OR (flags AND PML_FLAGS_MASK AND NOT PML_FLAG_HUGE)) s)"
proof -
  note p = path_entriesD [OF path]
  have "descend [0, 1, 2] (drop_bit 12 va) (current_pml4 s) s =
      Inr (mmu_to_virt (push_bit 12 (pml_address (pml_load p2 s))), s)"
    using assms(2-4) unfolding p next_entry_def descend.simps Let_def page_indices
    by (simp add: next_table_present)
  moreover have "entry_at (mmu_to_virt (push_bit 12 (pml_address (pml_load p2 s)))) (walk_index 0 va) = p1"
    unfolding p(4) next_entry_def ..
  ultimately show ?thesis
    using assms(5,6) unfolding map_addr_def map_addr_in_def Let_def page_indices
    by (simp add: pml_load_def pml_store_def and.assoc del: descend.simps)
qed

text \<open>
  C39: Mapping a page whose page tables are in place writes the last entry and nothing else, and the
  code stores the byte address where the entry holds a frame number: the address then
  translates to 4096 times the physical address asked for (of its low 40 bits).
\<close>

theorem map_addr_scales_address:
  fixes s :: "'a mmu_scheme"
  assumes "mmu_get_page_deep va s = (r, p4, p3, p2, p1)" "p1 \<noteq> NULL"
    and "\<not> pml_huge (pml_load p3 s)" "\<not> pml_huge (pml_load p2 s)"
    and "p1 AND PHYS_MASK \<notin> {p4 AND PHYS_MASK, p3 AND PHYS_MASK, p2 AND PHYS_MASK}"
    and "va AND PAGE_LOW_MASK = 0" "pa AND PAGE_LOW_MASK = 0"
  shows "\<exists>t. map_addr va pa flags s = Inr t \<and> mmu_translate va t = push_bit 12 (take_bit 40 pa) \<and>
    (\<forall>a. a \<noteq> p1 AND PHYS_MASK \<longrightarrow> pmem t a = pmem s a)"
proof -
  obtain q4 q3 q2 q1 where path: "path_entries (current_pml4 s) va s = (q4, q3, q2, q1)"
    by (metis prod.exhaust)
  have q: "q4 = p4" "q3 = p3" "q2 = p2" "q1 = p1" and present: "pml_present (pml_load p4 s)"
    "pml_present (pml_load p3 s)" "pml_present (pml_load p2 s)"
    using assms(1,2) unfolding get_page_deep_path [OF path] by (auto split: if_splits)
  define e where "e = pml_set_present (pml_set_address pa (pml_load p1 s)) OR
    (flags AND PML_FLAGS_MASK AND NOT PML_FLAG_HUGE)"
  let ?t = "pml_store p1 e s"
  have m: "map_addr va pa flags s = Inr ?t"
    unfolding e_def by (rule map_addr_writes [OF path [unfolded q] present assms(6,7)])
  have loads: "pml_load p4 ?t = pml_load p4 s" "pml_load p3 ?t = pml_load p3 s" "pml_load p2 ?t = pml_load p2 s"
    "pml_load p1 ?t = e" using assms(5) by (auto simp: pml_load_def pml_store_def)
  have "current_pml4 ?t = current_pml4 s" by (simp add: pml_store_def)
  moreover from this have "path_entries (current_pml4 ?t) va ?t = (p4, p3, p2, p1)"
    using path_entriesD [OF path [unfolded q]] loads by (simp add: path_entries_def next_entry_def Let_def)
  moreover have "pml_address e = take_bit 40 pa" "pml_present e"
    unfolding e_def by (simp_all only: pml_address_flags pml_address_set pml_present_set)
  moreover have "take_bit 12 va = 0" using assms(6) by (simp only: and_masks)
  ultimately have "mmu_translate va ?t = push_bit 12 (take_bit 40 pa)"
    using translate_path [of "current_pml4 ?t" va ?t p4 p3 p2 p1] present assms(3,4) loads
    by (simp add: mmu_translate_def)
  then show ?thesis using m by (auto simp: pml_store_def)
qed

definition sample_tables :: "u64 \<Rightarrow> u64" where
  "sample_tables = (\<lambda>_. 0)(0x1000 := 0x2003, 0x2000 := 0x3003, 0x3000 := 0x4003, 0x4000 := 0x5003)"

definition sample_mmu :: mmu where
  "sample_mmu = palloc.extend (sample_palloc 7 16) \<lparr>pmem = sample_tables, current_pml4 = 0x1000\<rparr>"

lemma sample_mmu_fields [simp]:
  "pmem sample_mmu = sample_tables" "current_pml4 sample_mmu = 0x1000"
  by (simp_all add: sample_mmu_def palloc.defs)

lemmas walk_eval = hw_walk_levels walk_fits_levels walk_index_def sample_tables_def pml_present_def
  pml_huge_def pml_address_def Let_def

theorem mmu_translate_is_walk_witness:
  "mmu_translate_via 0x1000 0x123 sample_mmu = 0x5123 \<and>
   mmu_translate_via 0x1000 0x1123 sample_mmu = - 4"
proof -
  have "walk_fits sample_tables 4 0x1000 0x123" "walk_fits sample_tables 4 0x1000 0x1123"
    "hw_walk sample_tables 4 0x1000 0x123 = Inr 0x5123" "hw_walk sample_tables 4 0x1000 0x1123 = Inl 4"
    by (simp_all add: walk_eval)
  then show ?thesis
    using mmu_translate_is_walk [of "0x1000" sample_mmu "0x123"]
      mmu_translate_is_walk [of "0x1000" sample_mmu "0x1123"]
    by simp
qed

lemmas entry_eval = path_entries_def next_entry_def entry_at_def mmu_to_virt_def pml_load_def
  walk_index_def sample_tables_def pml_present_def pml_huge_def pml_address_def Let_def

theorem map_addr_scales_address_witness:
  "\<exists>t. map_addr 0x1000 0x2000 PML_FLAG_WRITABLE sample_mmu = Inr t \<and> mmu_translate 0x1000 t = 0x2000000"
proof -
  have "path_entries 0x1000 0x1000 sample_mmu =
      (0x1000, 0xFFFFFF8000002000, 0xFFFFFF8000003000, 0xFFFFFF8000004008)"
    by (simp add: entry_eval)
  then have "mmu_get_page_deep 0x1000 sample_mmu =
      (1, 0x1000, 0xFFFFFF8000002000, 0xFFFFFF8000003000, 0xFFFFFF8000004008)"
    using get_page_deep_path [of sample_mmu "0x1000"] by (simp add: entry_eval)
  then show ?thesis
    using map_addr_scales_address [of "0x1000" sample_mmu _ _ _ _ _ "0x2000" PML_FLAG_WRITABLE]
    by (simp add: pml_load_def sample_tables_def pml_huge_def) blast
qed

end
