(* ===== verification/Kheap.thy ===== *)
theory Kheap
  imports Paging
begin

text \<open>
  The kernel heap, \<^verbatim>\<open>src/kernel/kmalloc.c\<close>: growing the heap page by page, first-fit
  allocation from a linked list of free blocks kept inside the free memory itself, freeing and
  coalescing.  A block is addressed by its header: 8 bytes of size, then 8 bytes of \<open>next\<close> that
  belong to the payload while the block is allocated.  The memory is \<open>vmem\<close>, by virtual address.
\<close>

section \<open>State and blocks\<close>

record kheap = mmu +
  free_block_list :: u64
  heap_start :: u64
  heap_end :: u64

definition block_size :: "mem \<Rightarrow> u64 \<Rightarrow> u64" where
  "block_size m b = load64 m b"

definition block_next :: "mem \<Rightarrow> u64 \<Rightarrow> u64" where
  "block_next m b = load64 m (b + 8)"

definition set_size :: "u64 \<Rightarrow> u64 \<Rightarrow> mem \<Rightarrow> mem" where
  "set_size b v m = store64 m b v"

definition set_next :: "u64 \<Rightarrow> u64 \<Rightarrow> mem \<Rightarrow> mem" where
  "set_next b v m = store64 m (b + 8) v"

section \<open>Growing the heap\<close>

fun sbrk_loop :: "nat \<Rightarrow> 'a kheap_scheme \<Rightarrow> 'a kheap_scheme result" where
  "sbrk_loop 0 s = Inr s"
| "sbrk_loop (Suc n) s =
     rbind (page_alloc 0 PML_FLAG_WRITABLE s) (\<lambda>(page, s).
       let paddr = push_bit PAGE_SHIFT (pml_address page)
       in rbind (map_addr (heap_end s) paddr PML_FLAG_WRITABLE s) (\<lambda>s.
            sbrk_loop n (s\<lparr>heap_end := heap_end s + PAGE_SIZE\<rparr>)))"

definition sbrk :: "u64 \<Rightarrow> 'a kheap_scheme \<Rightarrow> (u64 \<times> 'a kheap_scheme) result" where
  "sbrk incr s =
     (if incr = 0 then Inr (heap_end s, s)
      else
        let incr = (incr + PAGE_LOW_MASK) AND NOT PAGE_LOW_MASK;
            heap_end_old = heap_end s;
            pages_to_alloc = incr div PAGE_SIZE
        in rbind (sbrk_loop (unat pages_to_alloc) s) (\<lambda>s. Inr (heap_end_old, s)))"

definition kheap_allocator_init :: "u64 \<Rightarrow> 'a kheap_scheme \<Rightarrow> 'a kheap_scheme result" where
  "kheap_allocator_init start s =
     (if \<not> KERNEL_HEAP_START \<le> start then Inl Aborted
      else if start AND PAGE_LOW_MASK \<noteq> 0 then Inl Aborted
      else Inr (s\<lparr>heap_start := start, heap_end := start, free_block_list := NULL\<rparr>))"

section \<open>Splitting and joining blocks\<close>

definition split_block :: "u64 \<Rightarrow> u64 \<Rightarrow> mem \<Rightarrow> u64 \<times> mem" where
  "split_block block sz m =
     (let rem = block_size m block - sz
      in if 16 < rem then
           let m = set_size block sz m;
               rem_block = block + 8 + sz;
               m = set_size rem_block (rem - 8) m;
               m = set_next rem_block (block_next m block) m;
               m = set_next block NULL m
           in (rem_block, m)
         else (block_next m block, m))"

definition are_adjacent :: "u64 \<Rightarrow> u64 \<Rightarrow> mem \<Rightarrow> bool" where
  "are_adjacent block nxt m \<longleftrightarrow> block + (block_size m block + 8) = nxt"

definition coalesce_blocks :: "u64 \<Rightarrow> u64 \<Rightarrow> mem \<Rightarrow> mem" where
  "coalesce_blocks block nxt m =
     (let m = set_size block (block_size m block + (block_size m nxt + 8)) m;
          m = set_next block (block_next m nxt) m;
          m = set_size nxt 0 m
      in set_next nxt NULL m)"

section \<open>Allocation\<close>

text \<open>
  The search through the blocks after the first: the predecessor and the first block that is
  large enough, or \<open>None\<close> at the end of the list.
\<close>

partial_function (option) first_fit_loop ::
  "mem \<Rightarrow> u64 \<Rightarrow> u64 \<Rightarrow> u64 \<Rightarrow> (u64 \<times> u64) option option" where
  "first_fit_loop m sz prev block =
     (if block \<noteq> NULL then
        if block_size m block < sz then first_fit_loop m sz block (block_next m block)
        else Some (Some (prev, block))
      else Some None)"

definition kmalloc :: "u64 \<Rightarrow> 'a kheap_scheme \<Rightarrow> (u64 \<times> 'a kheap_scheme) result" where
  "kmalloc sz s =
     (if mmu_total_memory s < sz then
        rbind (printk (''kmalloc: You'' @ [CHR 0x27] @
              ''re asking for too much (%dKiB). Go jerk off and get some sleep.'')
            [Slot (sz div 1024)] s)
          (\<lambda>s. Inr (NULL, s))
      else
        rbind (if free_block_list s = NULL then
                 rbind (sbrk (sz + 8) s) (\<lambda>(p, s).
                   let s = s\<lparr>free_block_list := p\<rparr>;
                       s = s\<lparr>vmem := set_size p (heap_end s - p) (vmem s)\<rparr>
                   in Inr (s\<lparr>vmem := set_next p NULL (vmem s)\<rparr>))
               else Inr s)
          (\<lambda>s.
             let head = free_block_list s
             in if sz \<le> block_size (vmem s) head then
                  let (nxt, m) = split_block head sz (vmem s)
                  in Inr (head + 8, s\<lparr>free_block_list := nxt, vmem := m\<rparr>)
                else
                  rbind (of_loop (first_fit_loop (vmem s) sz head (block_next (vmem s) head)))
                    (\<lambda>found. case found of
                       Some (prev, block) \<Rightarrow>
                         let (nxt, m) = split_block block sz (vmem s)
                         in Inr (block + 8, s\<lparr>vmem := set_next prev nxt m\<rparr>)
                     | None \<Rightarrow>
                         rbind (sbrk (sz + 8) s) (\<lambda>(new, s).
                           let m = set_next new NULL (set_size new sz (vmem s))
                           in Inr (new + 8, s\<lparr>vmem := m\<rparr>)))))"

section \<open>Freeing\<close>

partial_function (option) kfree_loop ::
  "mem \<Rightarrow> u64 \<Rightarrow> u64 \<Rightarrow> u64 \<Rightarrow> (u64 \<times> u64) option" where
  "kfree_loop m freed prev block =
     (if block < freed \<and> block \<noteq> NULL then kfree_loop m freed block (block_next m block)
      else Some (prev, block))"

definition kfree :: "u64 \<Rightarrow> 'a kheap_scheme \<Rightarrow> 'a kheap_scheme result" where
  "kfree ptr s =
     (let freed = ptr - 8;
          m = set_next freed NULL (vmem s);
          head = free_block_list s
      in if head = NULL then Inr (s\<lparr>vmem := m, free_block_list := freed\<rparr>)
         else if block_next m head = NULL then
           let (left, right) = (if head < freed then (head, freed) else (freed, head));
               m = set_next left right m;
               m = (if are_adjacent left right m then coalesce_blocks left right m else m)
           in Inr (s\<lparr>vmem := m, free_block_list := left\<rparr>)
         else
           rbind (of_loop (kfree_loop m freed head (block_next m head))) (\<lambda>(prev, block).
             let m = set_next prev freed m;
                 m = set_next freed block m;
                 m = (if block \<noteq> NULL \<and> are_adjacent freed block m
                      then coalesce_blocks freed block m else m);
                 m = (if are_adjacent prev freed m then coalesce_blocks prev freed m else m)
             in Inr (s\<lparr>vmem := m\<rparr>)))"

section \<open>Linked blocks in memory\<close>

text \<open>
  \<open>seg sz nx m p bs q\<close>: following the \<open>next\<close> fields from \<open>p\<close> one meets the blocks \<open>bs\<close> (address and
  size) and arrives at \<open>q\<close>.
\<close>

fun seg :: "('m \<Rightarrow> u64 \<Rightarrow> u64) \<Rightarrow> ('m \<Rightarrow> u64 \<Rightarrow> u64) \<Rightarrow> 'm \<Rightarrow> u64 \<Rightarrow> (u64 \<times> u64) list \<Rightarrow> u64 \<Rightarrow> bool" where
  "seg sz nx m p [] q \<longleftrightarrow> p = q"
| "seg sz nx m p ((a, z) # bs) q \<longleftrightarrow> p = a \<and> a \<noteq> NULL \<and> sz m a = z \<and> seg sz nx m (nx m a) bs q"

lemma seg_append [simp]:
  "seg sz nx m p (xs @ ys) q \<longleftrightarrow> (\<exists>r. seg sz nx m p xs r \<and> seg sz nx m r ys q)"
  by (induction xs arbitrary: p) auto

text \<open>
  What the allocator relies on when it reads and writes headers: fields of headers that do not
  overlap are independent.
\<close>

locale block_memory =
  fixes get_size get_next :: "'m \<Rightarrow> u64 \<Rightarrow> u64" and put_size put_next :: "u64 \<Rightarrow> u64 \<Rightarrow> 'm \<Rightarrow> 'm"
    and apart :: "u64 \<Rightarrow> u64 \<Rightarrow> bool"
  assumes size_put_size: "get_size (put_size a v m) a = v"
    and next_put_size: "get_next (put_size a v m) a = get_next m a"
    and size_put_next: "get_size (put_next a v m) a = get_size m a"
    and next_put_next: "get_next (put_next a v m) a = v"
    and apart_put_size: "apart a b \<Longrightarrow> get_size (put_size b v m) a = get_size m a \<and>
      get_next (put_size b v m) a = get_next m a"
    and apart_put_next: "apart a b \<Longrightarrow> get_size (put_next b v m) a = get_size m a \<and>
      get_next (put_next b v m) a = get_next m a"
begin

lemmas same_block = size_put_size next_put_size size_put_next next_put_next

lemma seg_put:
  assumes "\<forall>a \<in> fst ` set bs. apart a b"
  shows "seg get_size get_next (put_size b v m) p bs q = seg get_size get_next m p bs q"
    and "seg get_size get_next (put_next b v m) p bs q = seg get_size get_next m p bs q"
  using assms by (induction bs arbitrary: p) (auto simp: apart_put_size apart_put_next)

lemma seg_relink:
  assumes "seg get_size get_next m p (xs @ [(a, z)]) q" "\<forall>b \<in> fst ` set xs. apart b a"
  shows "seg get_size get_next (put_next a r m) p (xs @ [(a, z)]) r"
  using assms by (auto simp: seg_put(2) same_block)

end

text \<open>Two headers of 16 bytes without a common byte.\<close>

definition apart :: "u64 \<Rightarrow> u64 \<Rightarrow> bool" where
  "apart a b \<longleftrightarrow> disjoint_ranges a 16 b 16"

lemma apart_sym: "apart a b \<Longrightarrow> apart b a"
  unfolding apart_def by (rule disjoint_ranges_sym)

lemma header_parts:
  "in_range a 8 x \<Longrightarrow> in_range a 16 x" "in_range (a + 8) 8 x \<Longrightarrow> in_range a 16 x"
  "disjoint_ranges a 8 (a + 8) 8"
proof -
  show "in_range a 8 x \<Longrightarrow> in_range a 16 x" by (erule in_range_mono) simp
  show "disjoint_ranges a 8 (a + 8) 8" using disjoint_ranges_offset [of 8 8 8 a] by simp
  assume "in_range (a + 8) 8 x"
  then obtain i where i: "i < 8" "x = a + 8 + of_nat i" by (rule in_rangeE)
  then have "x = a + of_nat (8 + i)" by (simp add: add.assoc)
  then show "in_range a 16 x" using i(1) in_range_add [of "8 + i" a 16] by simp
qed

lemma apart_fields:
  assumes "apart a b"
  shows "disjoint_ranges a 8 b 8" "disjoint_ranges a 8 (b + 8) 8"
    "disjoint_ranges (a + 8) 8 b 8" "disjoint_ranges (a + 8) 8 (b + 8) 8"
  using assms header_parts unfolding apart_def disjoint_ranges_def by blast+

interpretation heap_blocks: block_memory block_size block_next set_size set_next apart
proof unfold_locales
  fix m :: mem and a b v
  note d = header_parts(3) [of a] disjoint_ranges_sym [OF header_parts(3) [of a]]
  show "block_size (set_size a v m) a = v" "block_next (set_next a v m) a = v"
    "block_next (set_size a v m) a = block_next m a" "block_size (set_next a v m) a = block_size m a"
    by (simp_all add: block_size_def block_next_def set_size_def set_next_def
        load64_store64_disjoint d)
  assume "apart a b"
  note e = apart_fields [OF this]
  show "block_size (set_size b v m) a = block_size m a \<and> block_next (set_size b v m) a = block_next m a"
    "block_size (set_next b v m) a = block_size m a \<and> block_next (set_next b v m) a = block_next m a"
    by (simp_all add: block_size_def block_next_def set_size_def set_next_def
        load64_store64_disjoint e)
qed

lemmas heap_block_simps = heap_blocks.same_block heap_blocks.apart_put_size heap_blocks.apart_put_next
  heap_blocks.seg_put

section \<open>Blocks that do not overlap\<close>

text \<open>A block lies inside the address space and has room for its \<open>next\<close> field.\<close>

fun fits :: "u64 \<times> u64 \<Rightarrow> bool" where
  "fits (a, z) \<longleftrightarrow> a \<noteq> NULL \<and> 8 \<le> unat z \<and> unat a + 8 + unat z \<le> 2 ^ 64"

fun below :: "u64 \<times> u64 \<Rightarrow> u64 \<times> u64 \<Rightarrow> bool" where
  "below (a, z) (b, w) \<longleftrightarrow> unat a + 8 + unat z \<le> unat b"

definition beside :: "u64 \<times> u64 \<Rightarrow> u64 \<times> u64 \<Rightarrow> bool" where
  "beside x y \<longleftrightarrow> below x y \<or> below y x"

fun separate :: "(u64 \<times> u64) list \<Rightarrow> bool" where
  "separate [] \<longleftrightarrow> True"
| "separate (x # xs) \<longleftrightarrow> fits x \<and> separate xs \<and> (\<forall>y \<in> set xs. beside x y)"

abbreviation chain :: "mem \<Rightarrow> u64 \<Rightarrow> (u64 \<times> u64) list \<Rightarrow> bool" where
  "chain m p bs \<equiv> seg block_size block_next m p bs NULL"

lemma beside_sym: "beside x y \<Longrightarrow> beside y x"
  by (auto simp: beside_def)

lemma separate_append:
  "separate (xs @ ys) \<longleftrightarrow> separate xs \<and> separate ys \<and> (\<forall>x \<in> set xs. \<forall>y \<in> set ys. beside x y)"
  by (induction xs) auto

lemma separate_move: "separate (xs @ y # ys) \<longleftrightarrow> separate (y # xs @ ys)"
  by (auto simp: separate_append intro: beside_sym)

lemma separate_fits: "separate bs \<Longrightarrow> b \<in> set bs \<Longrightarrow> fits b"
  by (induction bs) auto

lemma beside_apart:
  assumes "fits (a, z)" "fits (b, w)" "beside (a, z) (b, w)"
  shows "apart a b"
proof -
  have "below (a, z) (b, w) \<Longrightarrow> apart a b" "below (b, w) (a, z) \<Longrightarrow> apart b a"
    unfolding apart_def using assms(1,2) by (auto intro!: disjoint_ranges_below)
  then show ?thesis using assms(3) apart_sym by (auto simp: beside_def)
qed

lemma separate_apart:
  assumes "separate (xs @ (a, z) # ys)" "b \<in> fst ` set xs \<or> b \<in> fst ` set ys"
  shows "apart b a"
proof -
  obtain w where "(b, w) \<in> set (xs @ ys)" using assms(2) by fastforce
  moreover have "separate ((a, z) # xs @ ys)" using assms(1) by (simp only: separate_move)
  ultimately have "fits (a, z)" "fits (b, w)" "beside (a, z) (b, w)"
    using separate_fits [of "xs @ ys" "(b, w)"] by (auto simp del: fits.simps)
  then show ?thesis using beside_apart apart_sym by blast
qed

text \<open>The bytes of a block, and a memory that differs only inside the given blocks.\<close>

fun extent :: "u64 \<times> u64 \<Rightarrow> u64 \<Rightarrow> bool" where
  "extent (a, z) x = in_range a (8 + unat z) x"

definition untouched :: "(u64 \<times> u64) list \<Rightarrow> mem \<Rightarrow> mem \<Rightarrow> bool" where
  "untouched bs m m' \<longleftrightarrow> (\<forall>x. (\<forall>b \<in> set bs. \<not> extent b x) \<longrightarrow> m' x = m x)"

lemma untouched_refl [simp]: "untouched bs m m"
  by (simp add: untouched_def)

lemma untouched_trans: "untouched bs m m' \<Longrightarrow> untouched bs m' m'' \<Longrightarrow> untouched bs m m''"
  by (simp add: untouched_def)

lemma untouched_mono: "untouched bs m m' \<Longrightarrow> set bs \<subseteq> set cs \<Longrightarrow> untouched cs m m'"
  by (auto simp: untouched_def)

lemma untouched_header:
  assumes "untouched bs m m'" "b \<in> set bs" "\<And>x. in_range a 16 x \<Longrightarrow> extent b x"
  shows "untouched bs m (set_size a v m')" "untouched bs m (set_next a v m')"
proof -
  have "extent b x" if "in_range a 8 x \<or> in_range (a + 8) 8 x" for x using that assms(3) header_parts(1,2) by blast
  then show "untouched bs m (set_size a v m')" "untouched bs m (set_next a v m')"
    using assms(1,2) by (auto simp: untouched_def set_size_def set_next_def store64_apply)
qed

lemma header_extent: "fits (a, z) \<Longrightarrow> in_range a 16 x \<Longrightarrow> extent (a, z) x"
  by (auto elim!: in_range_mono)

lemma beside_extent:
  assumes "fits b" "fits c" "beside b c" "extent b x" shows "\<not> extent c x"
proof -
  obtain a z d w where bc: "b = (a, z)" "c = (d, w)" by fastforce
  have "disjoint_ranges a (8 + unat z) d (8 + unat w)"
    using assms(1-3) disjoint_ranges_below [of a "8 + unat z" d "8 + unat w"]
      disjoint_ranges_above [of d "8 + unat w" a "8 + unat z"] unfolding bc beside_def by auto
  then show ?thesis using assms(4) unfolding bc disjoint_ranges_def by auto
qed

section \<open>The pieces of the allocator on a free list\<close>

text \<open>
  What is left of a free block after an allocation from it: the rest as a block of its own if
  it can hold more than a header; and the size the allocated block gets.
\<close>

definition remainder :: "u64 \<Rightarrow> u64 \<times> u64 \<Rightarrow> (u64 \<times> u64) list" where
  "remainder sz = (\<lambda>(a, z). if 16 < z - sz then [(a + 8 + sz, z - sz - 8)] else [])"

definition granted :: "u64 \<Rightarrow> u64 \<Rightarrow> u64" where
  "granted sz z = (if 16 < z - sz then sz else z)"

text \<open>The search finds the first block that is large enough, and it terminates on every list.\<close>

lemma first_fit_loop_finds:
  assumes "chain m p bs"
  shows "first_fit_loop m sz prev p =
    Some (case dropWhile (\<lambda>(a, z). z < sz) bs of
       [] \<Rightarrow> None
     | (a, z) # _ \<Rightarrow> Some (last (prev # map fst (takeWhile (\<lambda>(a, z). z < sz) bs)), a))"
  using assms
proof (induction bs arbitrary: p prev)
  case Nil
  then show ?case by (subst first_fit_loop.simps) simp
next
  case (Cons b bs)
  obtain a z where b: "b = (a, z)" by (cases b)
  then have c: "p = a" "a \<noteq> NULL" "block_size m a = z" "chain m (block_next m a) bs"
    using Cons.prems by auto
  show ?case
    unfolding b using c Cons.IH [OF c(4)]
    by (subst first_fit_loop.simps, cases "dropWhile (\<lambda>(a, z). z < sz) bs")
      (simp_all add: case_prod_unfold del: dropWhile_eq_Nil_conv)
qed

lemma rem_block_facts:
  fixes a z sz :: u64
  assumes "fits (a, z)" "8 \<le> unat sz" "16 < z - sz" "sz \<le> z"
  shows "unat (a + 8 + sz) = unat a + 8 + unat sz" "unat (z - sz - 8) = unat z - unat sz - 8"
    "unat sz + 16 < unat z"
proof -
  have d: "unat (z - sz) = unat z - unat sz" using assms(4) by (rule unat_sub)
  then show g: "unat sz + 16 < unat z" using assms(3) by (simp add: word_less_nat_alt)
  have "unat (8 :: u64) \<le> unat (z - sz)" using g d by simp
  then show "unat (z - sz - 8) = unat z - unat sz - 8"
    using d by (simp add: unat_sub word_le_nat_alt)
  have bound: "unat a + 8 + unat z \<le> 2 ^ 64" using assms(1) by simp
  have "unat (a + 8) = unat a + 8"
    using unat_add_of_nat [of a 16 8] bound g by simp
  then show "unat (a + 8 + sz) = unat a + 8 + unat sz"
    using unat_add_of_nat [of "a + 8" "Suc (unat sz)" "unat sz"] bound g by simp
qed

lemma remainder_separate:
  assumes "separate (xs @ (a, z) # ys)" "8 \<le> unat sz" "sz \<le> z"
  shows "separate (xs @ (a, granted sz z) # remainder sz (a, z) @ ys)"
proof (cases "16 < z - sz")
  case True
  let ?r = "(a + 8 + sz, z - sz - 8)"
  have sep: "separate ((a, z) # xs @ ys)" using assms(1) by (simp only: separate_move)
  then have fa: "fits (a, z)" by simp
  note rf = rem_block_facts [OF fa assms(2) True assms(3)]
  have "fits ?r" "fits (a, sz)" "beside (a, sz) ?r"
    using rf fa assms(2) by (auto simp: beside_def unat_eq_zero [symmetric] simp del: unat_eq_zero)
  moreover have "beside ?r y \<and> beside (a, sz) y" if "beside (a, z) y" for y
    using that rf by (cases y) (auto simp: beside_def)
  ultimately have "separate ((a, sz) # ?r # xs @ ys)"
    using sep by (auto simp del: fits.simps)
  then have "separate ((a, sz) # xs @ ?r # ys)" by (simp add: separate_move del: fits.simps)
  then show ?thesis using True by (simp only: separate_move granted_def remainder_def prod.case if_True append_Cons append_Nil)
next
  case False
  then show ?thesis using assms(1) by (simp add: remainder_def granted_def)
qed

lemma split_block_spec:
  assumes "separate (xs @ (a, z) # ys)" "8 \<le> unat sz" "sz \<le> z"
    and "block_size m a = z" "chain m (block_next m a) ys"
    and "split_block a sz m = (nxt, m')"
  shows "chain m' nxt (remainder sz (a, z) @ ys)"
    and "seg block_size block_next m p xs q \<Longrightarrow> seg block_size block_next m' p xs q"
    and "block_size m' a = granted sz z" and "untouched [(a, z)] m m'"
proof -
  have "chain m' nxt (remainder sz (a, z) @ ys) \<and>
    (seg block_size block_next m p xs q \<longrightarrow> seg block_size block_next m' p xs q) \<and>
    block_size m' a = granted sz z \<and> untouched [(a, z)] m m'"
  proof (cases "16 < z - sz")
    case False
    then have "nxt = block_next m a" "m' = m" using assms(4,6) by (auto simp: split_block_def Let_def)
    then show ?thesis using False assms(4,5) by (simp add: remainder_def granted_def)
  next
    case True
    let ?r = "a + 8 + sz"
    have fa: "fits (a, z)" using assms(1) by (simp add: separate_append)
    note rf = rem_block_facts [OF fa assms(2) True assms(3)]
    have sep: "separate (xs @ (a, sz) # (?r, z - sz - 8) # ys)"
      using remainder_separate [OF assms(1-3)] True by (simp add: remainder_def granted_def)
    have a: "\<And>b. b \<in> fst ` set xs \<or> b \<in> fst ` set ys \<Longrightarrow> apart b a" "apart ?r a" "apart a ?r" "?r \<noteq> NULL"
      using separate_apart [OF assms(1)] separate_apart [OF sep, of ?r] apart_sym sep
      by (auto simp: separate_append)
    have r: "b \<in> fst ` set xs \<or> b \<in> fst ` set ys \<Longrightarrow> apart b ?r" for b
      using separate_apart [of "xs @ [(a, sz)]" ?r "z - sz - 8" ys b] sep by auto
    have m': "nxt = ?r" "m' = set_next a NULL (set_next ?r (block_next m a)
        (set_size ?r (z - sz - 8) (set_size a sz m)))"
      using assms(4,6) True a(2,3) by (auto simp: split_block_def Let_def heap_block_simps)
    have "extent (a, z) x" if "in_range ?r 16 x" for x
      using that rf inside_range [of ?r 16 x a "8 + unat z"] fa by simp
    then have "untouched [(a, z)] m m'"
      unfolding m' using header_extent [OF fa] by (intro untouched_header [of _ _ _ "(a, z)"]) simp_all
    then show ?thesis
      using True assms(5) a r by (auto simp: m' remainder_def granted_def heap_block_simps)
  qed
  then show "chain m' nxt (remainder sz (a, z) @ ys)"
    "seg block_size block_next m p xs q \<Longrightarrow> seg block_size block_next m' p xs q"
    "block_size m' a = granted sz z" "untouched [(a, z)] m m'" by blast+
qed

text \<open>A state that differs only in the memory and the head of the free list.\<close>

definition same_kernel :: "'a kheap_scheme \<Rightarrow> 'a kheap_scheme \<Rightarrow> bool" where
  "same_kernel s t \<longleftrightarrow> t = s\<lparr>vmem := vmem t, free_block_list := free_block_list t\<rparr>"

lemma same_kernel_upd [simp]:
  "same_kernel s s" "same_kernel s (s\<lparr>vmem := m\<rparr>)" "same_kernel s (s\<lparr>vmem := m, free_block_list := p\<rparr>)"
  "same_kernel s (s\<lparr>free_block_list := p, vmem := m\<rparr>)"
  by (cases s; simp add: same_kernel_def)+

lemma same_kernel_fields:
  assumes "same_kernel s t"
  shows "heap_end t = heap_end s" "mmu_total_memory t = mmu_total_memory s"
proof -
  have t: "t = s\<lparr>vmem := vmem t, free_block_list := free_block_list t\<rparr>" using assms by (simp add: same_kernel_def)
  show "heap_end t = heap_end s" by (subst t) simp
  show "mmu_total_memory t = mmu_total_memory s"
    by (subst t) (simp add: mmu_total_memory_def get_total_memory_def)
qed

text \<open>Allocation from the block \<open>(a, z)\<close> behind the blocks \<open>xs\<close>, all of them too small.\<close>

lemma kmalloc_search:
  fixes s :: "'a kheap_scheme"
  assumes "chain (vmem s) (free_block_list s) (us @ (p, v) # (a, z) # ys)" "\<forall>(b, w) \<in> set (us @ [(p, v)]). w < sz"
    and "sz \<le> z" "sz \<le> mmu_total_memory s" "split_block a sz (vmem s) = (nxt, m)"
  shows "kmalloc sz s = Inr (a + 8, s\<lparr>vmem := set_next p nxt m\<rparr>)"
proof -
  let ?m = "vmem s"
  obtain h w xs where xs: "us @ [(p, v)] = (h, w) # xs" by (cases "us @ [(p, v)]") auto
  have "chain ?m (free_block_list s) ((us @ [(p, v)]) @ (a, z) # ys)" using assms(1) by simp
  then have head: "free_block_list s = h" "h \<noteq> NULL" "block_size ?m h = w"
    "chain ?m (block_next ?m h) (xs @ (a, z) # ys)" unfolding xs by auto
  have small: "\<not> sz \<le> w" "\<forall>x \<in> set xs. (\<lambda>(b, w). w < sz) x" using assms(2) unfolding xs by auto
  have "dropWhile (\<lambda>(a, z). z < sz) (xs @ (a, z) # ys) = (a, z) # ys"
    "takeWhile (\<lambda>(a, z). z < sz) (xs @ (a, z) # ys) = xs"
    using small(2) assms(3) by (auto simp: dropWhile_append2 takeWhile_append2)
  moreover have "last (h # map fst xs) = p" using arg_cong [OF xs, of "\<lambda>l. last (map fst l)"] by simp
  ultimately have "first_fit_loop ?m sz h (block_next ?m h) = Some (Some (p, a))"
    using first_fit_loop_finds [OF head(4), of sz h] by simp
  moreover have "\<not> mmu_total_memory s < sz" using assms(4) by simp
  ultimately show ?thesis using head(1-3) small(1) assms(5) by (simp add: kmalloc_def)
qed

lemma kmalloc_from:
  fixes s :: "'a kheap_scheme"
  assumes ch: "chain (vmem s) (free_block_list s) (xs @ (a, z) # ys)" and sep: "separate (xs @ (a, z) # ys)"
    and small: "\<forall>(b, w) \<in> set xs. w < sz" and sz: "sz \<le> z" "8 \<le> unat sz" "sz \<le> mmu_total_memory s"
  shows "\<exists>t. kmalloc sz s = Inr (a + 8, t) \<and> chain (vmem t) (free_block_list t) (xs @ remainder sz (a, z) @ ys) \<and>
    block_size (vmem t) a = granted sz z \<and> same_kernel s t \<and> untouched (xs @ (a, z) # ys) (vmem s) (vmem t)"
proof -
  let ?m = "vmem s"
  have az: "seg block_size block_next ?m (free_block_list s) xs a" "a \<noteq> NULL"
    "block_size ?m a = z" "chain ?m (block_next ?m a) ys" using ch by auto
  obtain nxt m' where sb: "split_block a sz ?m = (nxt, m')" by fastforce
  note spec = split_block_spec [OF sep sz(2,1) az(3,4) sb]
  have un: "untouched (xs @ (a, z) # ys) ?m m'" by (rule untouched_mono [OF spec(4)]) auto
  show ?thesis
  proof (cases xs rule: rev_cases)
    case Nil
    then have "kmalloc sz s = Inr (a + 8, s\<lparr>free_block_list := nxt, vmem := m'\<rparr>)"
      using az sz sb by (simp add: kmalloc_def linorder_not_less [symmetric])
    then show ?thesis using Nil spec un by simp
  next
    case (snoc us b)
    obtain p v where b: "b = (p, v)" by (cases b)
    have k: "kmalloc sz s = Inr (a + 8, s\<lparr>vmem := set_next p nxt m'\<rparr>)"
      using kmalloc_search [of s us p v a z ys sz nxt m'] ch small sz sb snoc b by auto
    have "separate (us @ (p, v) # (a, granted sz z) # remainder sz (a, z) @ ys)"
      using remainder_separate [OF sep sz(2,1)] snoc b by simp
    from separate_apart [OF this] have apart: "apart a p" "\<forall>c \<in> fst ` set us. apart c p"
      "\<forall>c \<in> fst ` set (remainder sz (a, z) @ ys). apart c p" by auto
    have "seg block_size block_next m' (free_block_list s) (us @ [(p, v)]) a" using spec(2) az(1) snoc b by blast
    then have "seg block_size block_next (set_next p nxt m') (free_block_list s) (us @ [(p, v)]) nxt"
      using apart(2) by (intro heap_blocks.seg_relink) auto
    moreover have "chain (set_next p nxt m') nxt (remainder sz (a, z) @ ys)"
      using spec(1) apart(3) by (subst heap_blocks.seg_put) auto
    moreover have "fits (p, v)" using sep snoc b by (simp add: separate_append)
    then have "untouched (xs @ (a, z) # ys) ?m (set_next p nxt m')"
      using untouched_header(2) [OF un, of "(p, v)" p nxt] header_extent snoc b by simp
    ultimately show ?thesis using k spec(3) apart(1) snoc b by (auto simp: heap_block_simps)
  qed
qed

section \<open>Freeing into a free list\<close>

text \<open>A block followed by a list, joined with the first block of the list when they touch.\<close>

fun join_right :: "u64 \<times> u64 \<Rightarrow> (u64 \<times> u64) list \<Rightarrow> (u64 \<times> u64) list" where
  "join_right (a, z) [] = [(a, z)]"
| "join_right (a, z) ((b, w) # bs) =
     (if unat a + 8 + unat z = unat b then (a, z + w + 8) # bs else (a, z) # (b, w) # bs)"

definition put_back :: "(u64 \<times> u64) list \<Rightarrow> u64 \<times> u64 \<Rightarrow> (u64 \<times> u64) list \<Rightarrow> (u64 \<times> u64) list" where
  "put_back xs f ys =
     (if xs = [] then join_right f ys else butlast xs @ join_right (last xs) (join_right f ys))"

text \<open>
  What \<open>kfree\<close> makes of a free list, ordered or not: the block goes behind the head and all blocks
  that follow it below the freed one; only with at most one block in the list can it come first.
\<close>

fun free_into :: "u64 \<times> u64 \<Rightarrow> (u64 \<times> u64) list \<Rightarrow> (u64 \<times> u64) list" where
  "free_into f [] = [f]"
| "free_into f [b] = (if fst b < fst f then put_back [b] f [] else put_back [] f [b])"
| "free_into f (h # b # bs) =
     put_back (h # takeWhile (\<lambda>c. fst c < fst f) (b # bs)) f (dropWhile (\<lambda>c. fst c < fst f) (b # bs))"

lemma are_adjacent_iff:
  assumes "fits (a, z)" "b \<noteq> NULL" "block_size m a = z"
  shows "are_adjacent a b m \<longleftrightarrow> unat a + 8 + unat z = unat b"
proof -
  have sum: "a + (z + 8) = of_nat (unat a + 8 + unat z)" by simp
  show ?thesis
  proof (cases "unat a + 8 + unat z < 2 ^ 64")
    case True
    then have "a + (z + 8) = b \<longleftrightarrow> unat a + 8 + unat z = unat b"
      unfolding sum by (subst eq_commute) (simp add: eq_of_nat_64 eq_commute del: of_nat_add)
    then show ?thesis using assms(3) by (simp add: are_adjacent_def)
  next
    case False
    then have e: "unat a + 8 + unat z = 2 ^ 64" using assms(1) by auto
    have "a + (z + 8) = 0" unfolding sum e by simp
    moreover have "unat a + 8 + unat z \<noteq> unat b" unfolding e using less_imp_neq [OF unat_bound_64(1) [of b]] by simp
    ultimately show ?thesis using assms(2,3) by (simp add: are_adjacent_def)
  qed
qed

lemma join_fits:
  assumes "fits (a, z)" "fits (b, w)" "unat a + 8 + unat z = unat b"
  shows "fits (a, z + w + 8)" "unat (z + w + 8) = unat z + unat w + 8"
proof -
  have lt: "unat z + unat w + 8 < 2 ^ 64" using assms by auto
  have "unat (z + w) = unat z + unat w" using lt by (simp add: unat_word_ariths(1))
  then show u: "unat (z + w + 8) = unat z + unat w + 8" using lt by (simp add: unat_word_ariths(1))
  show "fits (a, z + w + 8)" using assms u by auto
qed

text \<open>Joining keeps blocks apart from all others, here the blocks \<open>ls\<close>.\<close>

lemma join_separate:
  assumes "separate ((a, z) # (b, w) # ls)" "unat a + 8 + unat z = unat b"
  shows "separate ((a, z + w + 8) # ls)"
proof -
  have f: "fits (a, z)" "fits (b, w)" using assms(1) by simp_all
  note j = join_fits [OF f assms(2)]
  have "beside (a, z + w + 8) d" if d: "d \<in> set ls" for d
  proof -
    obtain c v where c: "d = (c, v)" by (cases d)
    have "beside (a, z) d" "beside (b, w) d" using assms(1) d by auto
    then show ?thesis using assms(2) j(2) f unfolding c by (auto simp: beside_def)
  qed
  then show ?thesis using assms(1) j(1) by (simp del: fits.simps)
qed

lemma join_right_separate:
  "separate (us @ f # ys @ ls) \<Longrightarrow> separate (us @ join_right f ys @ ls)"
proof (cases "(f, ys)" rule: join_right.cases)
  case (2 a z b w bs)
  assume sep: "separate (us @ f # ys @ ls)"
  have "separate ((a, z) # (b, w) # us @ bs @ ls)" if "unat a + 8 + unat z = unat b"
    using sep 2 by (simp add: separate_move del: fits.simps)
  then show ?thesis
    using sep 2 join_separate [of a z b w "us @ bs @ ls"] by (simp add: separate_move del: fits.simps)
qed simp

lemma put_back_separate:
  assumes "separate (xs @ f # ys @ ls)" shows "separate (put_back xs f ys @ ls)"
proof (cases xs rule: rev_cases)
  case Nil
  then show ?thesis using join_right_separate [of "[]" f ys ls] assms by (simp add: put_back_def)
next
  case (snoc us p)
  have "separate ((us @ [p]) @ join_right f ys @ ls)"
    using join_right_separate [of "us @ [p]" f ys ls] assms snoc by simp
  then show ?thesis using join_right_separate [of us p "join_right f ys" ls] snoc by (simp add: put_back_def)
qed

lemma free_into_separate:
  assumes "separate (f # bs @ ls)" shows "separate (free_into f bs @ ls)"
proof (cases "(f, bs)" rule: free_into.cases)
  case (1 g)
  then show ?thesis using assms by simp
next
  case (2 g b)
  then show ?thesis
    using assms put_back_separate [of "[b]" f "[]" ls] put_back_separate [of "[]" f "[b]" ls]
      separate_move [of "[b]" f ls] by simp
next
  case (3 g h b cs)
  let ?t = "takeWhile (\<lambda>c. fst c < fst f) (b # cs)" and ?d = "dropWhile (\<lambda>c. fst c < fst f) (b # cs)"
  have "separate (f # (h # ?t @ ?d) @ ls)" using assms 3 by (simp only: takeWhile_dropWhile_id) simp
  then have "separate ((h # ?t) @ f # ?d @ ls)" using separate_move [of "h # ?t" f "?d @ ls"] by simp
  from put_back_separate [OF this] show ?thesis using 3 by (simp only: prod.inject free_into.simps)
qed

text \<open>Joining a block with its successor when they are adjacent, in memory.\<close>

definition join_next :: "u64 \<Rightarrow> mem \<Rightarrow> mem" where
  "join_next a m = (if block_next m a \<noteq> NULL \<and> are_adjacent a (block_next m a) m
     then coalesce_blocks a (block_next m a) m else m)"

lemma join_next_spec:
  assumes sep: "separate (us @ (a, z) # ys)" and ch: "chain m a ((a, z) # ys)"
  shows "chain (join_next a m) a (join_right (a, z) ys)"
    and "seg block_size block_next m p us q \<Longrightarrow> seg block_size block_next (join_next a m) p us q"
    and "untouched ((a, z) # ys) m (join_next a m)"
proof -
  have "chain (join_next a m) a (join_right (a, z) ys) \<and>
    (seg block_size block_next m p us q \<longrightarrow> seg block_size block_next (join_next a m) p us q) \<and>
    untouched ((a, z) # ys) m (join_next a m)"
  proof (cases ys)
    case Nil
    then show ?thesis using ch by (simp add: join_next_def)
  next
    case (Cons c bs)
    obtain b w where c: "c = (b, w)" by (cases c)
    have f: "fits (a, z)" "fits (b, w)" "beside (a, z) (b, w)"
      using sep Cons c by (simp_all add: separate_append)
    have l: "block_next m a = b" "a \<noteq> NULL" "b \<noteq> NULL" "block_size m a = z" "block_size m b = w"
      "chain m (block_next m b) bs" using ch Cons c by auto
    note adj = are_adjacent_iff [OF f(1) l(3,4)]
    have a: "apart b a" "apart a b" "\<And>d. d \<in> fst ` set us \<or> d \<in> fst ` set bs \<Longrightarrow> apart d a"
      using beside_apart [OF f] apart_sym separate_apart [OF sep, unfolded Cons] by (blast, blast, simp, blast)
    have b: "d \<in> fst ` set us \<or> d \<in> fst ` set bs \<Longrightarrow> apart d b" for d
      using separate_apart [of "us @ [(a, z)]" b w bs d] sep Cons c by auto
    show ?thesis
    proof (cases "unat a + 8 + unat z = unat b")
      case True
      then have j: "join_next a m = set_next b NULL (set_size b 0 (set_next a (block_next m b)
          (set_size a (z + (w + 8)) m)))"
        using adj l a(1) by (simp add: join_next_def coalesce_blocks_def Let_def heap_block_simps)
      have "untouched ((a, z) # ys) m (join_next a m)"
        unfolding j using header_extent [OF f(1)] header_extent [OF f(2)] Cons c
        by (auto intro!: untouched_header [of _ _ _ "(b, w)" b] untouched_header [of _ _ _ "(a, z)" a])
      then show ?thesis using True l a b Cons c j by (auto simp: heap_block_simps add.assoc)
    next
      case False
      then show ?thesis using ch adj l Cons c by (simp add: join_next_def)
    qed
  qed
  then show "chain (join_next a m) a (join_right (a, z) ys)"
    "seg block_size block_next m p us q \<Longrightarrow> seg block_size block_next (join_next a m) p us q"
    "untouched ((a, z) # ys) m (join_next a m)" by blast+
qed

lemma kfree_loop_finds:
  assumes "chain m p bs"
  shows "kfree_loop m f prev p =
    Some (last (prev # map fst (takeWhile (\<lambda>c. fst c < f) bs)),
      case dropWhile (\<lambda>c. fst c < f) bs of [] \<Rightarrow> NULL | c # _ \<Rightarrow> fst c)"
  using assms
proof (induction bs arbitrary: p prev)
  case Nil
  then show ?case by (subst kfree_loop.simps) simp
next
  case (Cons x xs)
  obtain a z where x: "x = (a, z)" by (cases x)
  then have "p = a" "a \<noteq> NULL" "chain m (block_next m a) xs" using Cons.prems by auto
  then show ?case using Cons.IH [of "block_next m a" a] x by (subst kfree_loop.simps) simp
qed

lemma relink_block:
  assumes sep: "separate (us @ (p, v) # (f, z) # ys)" and seg: "seg block_size block_next m h (us @ [(p, v)]) r"
    and size: "block_size m f = z" and ys: "chain m q ys"
  defines "m' \<equiv> set_next f q (set_next p f m)"
  shows "seg block_size block_next m' h (us @ [(p, v)]) f" "chain m' f ((f, z) # ys)"
    "untouched [(p, v), (f, z)] m m'"
proof -
  have f: "f \<noteq> NULL" "fits (p, v)" "fits (f, z)" using sep by (simp_all add: separate_append)
  have p: "apart f p" "\<And>d. d \<in> fst ` set us \<or> d \<in> fst ` set ys \<Longrightarrow> apart d p"
    using separate_apart [OF sep] by auto
  have af: "apart p f" "\<And>d. d \<in> fst ` set us \<or> d \<in> fst ` set ys \<Longrightarrow> apart d f"
    using separate_apart [of "us @ [(p, v)]" f z ys] sep by auto
  have "seg block_size block_next (set_next p f m) h (us @ [(p, v)]) f"
    using seg p(2) by (intro heap_blocks.seg_relink) auto
  then show "seg block_size block_next m' h (us @ [(p, v)]) f"
    unfolding m'_def using af by (subst heap_blocks.seg_put) auto
  show "chain m' f ((f, z) # ys)"
    unfolding m'_def using f size ys p af by (simp add: heap_block_simps)
  show "untouched [(p, v), (f, z)] m m'"
    unfolding m'_def using header_extent [OF f(2)] header_extent [OF f(3)]
    by (auto intro!: untouched_header(2) [of _ _ _ "(f, z)" f] untouched_header(2) [of _ _ _ "(p, v)" p])
qed

lemma join_next_linked:
  assumes "block_next m a = b" "b \<noteq> NULL"
  shows "(if are_adjacent a b m then coalesce_blocks a b m else m) = join_next a m"
  using assms by (simp add: join_next_def)

lemma join_next_fresh:
  "(if q \<noteq> NULL \<and> are_adjacent f q (set_next f q m) then coalesce_blocks f q (set_next f q m)
    else set_next f q m) = join_next f (set_next f q m)"
  by (simp add: join_next_def heap_block_simps)

text \<open>Linking a block in behind \<open>p\<close> and joining it on both sides, in memory.\<close>

definition link_in :: "u64 \<Rightarrow> u64 \<Rightarrow> u64 \<Rightarrow> mem \<Rightarrow> mem" where
  "link_in p f q m = join_next p (join_next f (set_next f q (set_next p f m)))"

lemma join_right_extent:
  assumes "fits f" "\<forall>y \<in> set ys. fits y" "b \<in> set (join_right f ys)" "extent b x"
  shows "\<exists>c \<in> set (f # ys). extent c x"
proof (cases "(f, ys)" rule: join_right.cases)
  case (2 a z b' w bs)
  show ?thesis
  proof (cases "unat a + 8 + unat z = unat b' \<and> b = (a, z + w + 8)")
    case True
    then have "unat (z + w + 8) = unat z + unat w + 8" using join_fits [of a z b' w] assms(1,2) 2 by auto
    then have "in_range a ((8 + unat z) + (8 + unat w)) x" using assms(4) True by (simp add: ac_simps)
    moreover have "a + of_nat (8 + unat z) = b'"
    proof -
      have "a + of_nat (8 + unat z) = of_nat (unat a + 8 + unat z)" by simp
      then show ?thesis using True by (simp only: of_nat_unat ucast_id)
    qed
    ultimately show ?thesis using range_split 2 by fastforce
  next
    case False
    then show ?thesis using assms(3,4) 2 by (auto split: if_splits)
  qed
qed (use assms in auto)

lemma link_in_spec:
  assumes sep: "separate (us @ (p, v) # (f, z) # ys)" and seg: "seg block_size block_next m h (us @ [(p, v)]) r"
    and size: "block_size m f = z" and ys: "chain m q ys"
  shows "chain (link_in p f q m) h (us @ join_right (p, v) (join_right (f, z) ys))"
    and "block_next (join_next f (set_next f q (set_next p f m))) p = f"
    and "untouched ((p, v) # (f, z) # ys) m (link_in p f q m)"
proof -
  let ?m = "set_next f q (set_next p f m)"
  note l = relink_block [OF sep seg size ys]
  have "separate ((us @ [(p, v)]) @ (f, z) # ys)" using sep by simp
  note j = join_next_spec [OF this l(2)]
  have "seg block_size block_next (join_next f ?m) h (us @ [(p, v)]) f" using j(2) l(1) by blast
  then have u: "seg block_size block_next (join_next f ?m) h us p"
    and p: "chain (join_next f ?m) p ((p, v) # join_right (f, z) ys)" using j(1) by auto
  have sep': "separate (us @ (p, v) # join_right (f, z) ys)"
    using join_right_separate [of "us @ [(p, v)]" "(f, z)" ys "[]"] sep by simp
  note k = join_next_spec [OF sep' p]
  show "chain (link_in p f q m) h (us @ join_right (p, v) (join_right (f, z) ys))"
    using k(1) k(2) [OF u] by (auto simp: link_in_def)
  show "block_next (join_next f ?m) p = f" using p by (cases ys) (auto split: if_splits)
  have "fits (f, z)" "\<forall>y \<in> set ys. fits y" using separate_fits [OF sep] by (auto simp del: fits.simps)
  then have "untouched ((p, v) # (f, z) # ys) (join_next f ?m) (link_in p f q m)"
    using k(3) join_right_extent [of "(f, z)" ys] unfolding link_in_def untouched_def by fastforce
  moreover have "untouched ((p, v) # (f, z) # ys) m ?m" "untouched ((p, v) # (f, z) # ys) ?m (join_next f ?m)"
    by (rule untouched_mono [OF l(3)], simp) (rule untouched_mono [OF j(3)], auto)
  ultimately show "untouched ((p, v) # (f, z) # ys) m (link_in p f q m)" using untouched_trans by blast
qed

lemma kfree_link_in:
  fixes s :: "'a kheap_scheme" and f :: u64
  defines "m \<equiv> set_next f NULL (vmem s)"
  assumes "free_block_list s \<noteq> NULL" "block_next m (free_block_list s) \<noteq> NULL"
    and "kfree_loop m f (free_block_list s) (block_next m (free_block_list s)) = Some (p, q)"
    and "block_next (join_next f (set_next f q (set_next p f m))) p = f" "f \<noteq> NULL"
  shows "kfree (f + 8) s = Inr (s\<lparr>vmem := link_in p f q m\<rparr>)"
proof -
  let ?m = "set_next f q (set_next p f m)"
  have "kfree (f + 8) s =
    (let m3 = (if q \<noteq> NULL \<and> are_adjacent f q ?m then coalesce_blocks f q ?m else ?m)
     in Inr (s\<lparr>vmem := if are_adjacent p f m3 then coalesce_blocks p f m3 else m3\<rparr>))"
    using assms(2-4) by (simp add: kfree_def m_def [symmetric] Let_def)
  then show ?thesis
    unfolding join_next_fresh link_in_def join_next_linked [OF assms(5,6)] Let_def .
qed

lemma chain_start: "chain m q ys \<Longrightarrow> q = (case ys of [] \<Rightarrow> NULL | c # _ \<Rightarrow> fst c)"
  by (cases ys) auto

lemma kfree_many:
  fixes s :: "'a kheap_scheme"
  assumes ch: "chain (vmem s) (free_block_list s) ((h, w) # bs)" and many: "bs \<noteq> []"
    and sep: "separate ((f, z) # (h, w) # bs)" and size: "block_size (vmem s) f = z"
  shows "\<exists>t. kfree (f + 8) s = Inr t \<and> chain (vmem t) (free_block_list t) (free_into (f, z) ((h, w) # bs)) \<and>
    same_kernel s t \<and> untouched ((f, z) # (h, w) # bs) (vmem s) (vmem t)"
proof -
  let ?m = "set_next f NULL (vmem s)" and ?xs = "takeWhile (\<lambda>c. fst c < f) bs" and ?ys = "dropWhile (\<lambda>c. fst c < f) bs"
  let ?q = "case ?ys of [] \<Rightarrow> NULL | c # _ \<Rightarrow> fst c"
  obtain us p v where us: "(h, w) # ?xs = us @ [(p, v)]" by (metis list.distinct(1) prod.exhaust rev_exhaust)
  have bs: "(h, w) # bs = us @ (p, v) # ?ys" using us takeWhile_dropWhile_id [of "\<lambda>c. fst c < f" bs]
    by (metis append.assoc append_Cons append_Nil)
  have sep': "separate (us @ (p, v) # (f, z) # ?ys)"
    using sep unfolding bs by (simp add: separate_move [of "us @ [(p, v)]", simplified] del: fits.simps)
  have f: "f \<noteq> NULL" "\<forall>b \<in> fst ` set ((h, w) # bs). apart b f"
    using sep separate_apart [of "[]" f z "(h, w) # bs"] by simp_all
  then have ch': "chain ?m (free_block_list s) ((h, w) # bs)" and sz: "block_size ?m f = z"
    using ch size by (auto simp: heap_block_simps)
  then have hd: "free_block_list s = h" "h \<noteq> NULL" "chain ?m (block_next ?m h) bs" by auto
  have nx: "block_next ?m h \<noteq> NULL" using hd(3) many by (cases bs) auto
  have both: "seg block_size block_next ?m (free_block_list s) (us @ [(p, v)]) (block_next ?m p)"
    "chain ?m (block_next ?m p) ?ys" using ch' unfolding bs by auto
  note seg = both(1) and ys = both(2) [unfolded chain_start [OF both(2)]]
  have "last (h # map fst ?xs) = p" using arg_cong [OF us, of "\<lambda>l. last (map fst l)"] by simp
  then have k: "kfree (f + 8) s = Inr (s\<lparr>vmem := link_in p f ?q ?m\<rparr>)"
    using kfree_loop_finds [OF hd(3), of f h] hd(1,2) nx link_in_spec(2) [OF sep' seg sz ys] f(1)
    by (subst kfree_link_in) simp_all
  have "free_into (f, z) ((h, w) # bs) = put_back (us @ [(p, v)]) (f, z) ?ys"
    using many us by (cases bs) (simp_all only: free_into.simps fst_conv)
  then have "chain (link_in p f ?q ?m) (free_block_list s) (free_into (f, z) ((h, w) # bs))"
    using link_in_spec(1) [OF sep' seg sz ys] by (simp add: put_back_def)
  moreover have "untouched ((f, z) # (h, w) # bs) ?m (link_in p f ?q ?m)"
    by (rule untouched_mono [OF link_in_spec(3) [OF sep' seg sz ys]]) (auto simp: bs)
  moreover have "untouched ((f, z) # (h, w) # bs) (vmem s) ?m"
    using sep header_extent [of f z] by (intro untouched_header(2) [of _ _ _ "(f, z)"]) auto
  ultimately show ?thesis using k untouched_trans by fastforce
qed

text \<open>With one free block, the freed block goes on either side of it.\<close>

lemma kfree_pair:
  fixes m :: mem
  assumes "separate [(a, z), (b, w)]" "block_size m a = z" "block_size m b = w" "block_next m b = NULL"
  defines "n \<equiv> join_next a (set_next a b m)"
  shows "chain n a (join_right (a, z) [(b, w)])" "untouched [(a, z), (b, w)] m n"
    "(if are_adjacent a b (set_next a b m) then coalesce_blocks a b (set_next a b m) else set_next a b m) = n"
proof -
  have ap: "a \<noteq> NULL" "b \<noteq> NULL" "apart b a" "fits (a, z)"
    using assms(1) separate_apart [of "[]" a z "[(b, w)]" b] by simp_all
  then have ch: "chain (set_next a b m) a [(a, z), (b, w)]" using assms(2-4) by (simp add: heap_block_simps)
  have "separate ([] @ (a, z) # [(b, w)])" using assms(1) by simp
  note j = join_next_spec [OF this ch]
  show "chain n a (join_right (a, z) [(b, w)])" unfolding n_def by (rule j(1))
  have "untouched [(a, z), (b, w)] m (set_next a b m)"
    using header_extent [OF ap(4)] by (intro untouched_header(2) [of _ _ _ "(a, z)"]) auto
  then show "untouched [(a, z), (b, w)] m n" unfolding n_def using j(3) untouched_trans by blast
  show "(if are_adjacent a b (set_next a b m) then coalesce_blocks a b (set_next a b m) else set_next a b m) = n"
    unfolding n_def using ap(2) by (intro join_next_linked) (simp_all add: heap_block_simps)
qed

lemma kfree_one:
  fixes s :: "'a kheap_scheme"
  assumes ch: "chain (vmem s) (free_block_list s) [(p, v)]" and sep: "separate [(f, z), (p, v)]"
    and size: "block_size (vmem s) f = z"
  shows "\<exists>t. kfree (f + 8) s = Inr t \<and> chain (vmem t) (free_block_list t) (free_into (f, z) [(p, v)]) \<and>
    same_kernel s t \<and> untouched [(f, z), (p, v)] (vmem s) (vmem t)"
proof -
  let ?m = "set_next f NULL (vmem s)"
  have l: "free_block_list s = p" "p \<noteq> NULL" "block_next (vmem s) p = NULL" "block_size (vmem s) p = v"
    using ch by simp_all
  have f: "apart p f" "apart f p" "fits (f, z)" using sep separate_apart [of "[]" f z "[(p, v)]" p] apart_sym by simp_all
  have m: "block_size ?m f = z" "block_next ?m f = NULL" "block_size ?m p = v" "block_next ?m p = NULL"
    using l f size by (simp_all add: heap_block_simps)
  have un: "untouched [(f, z), (p, v)] (vmem s) ?m"
    using header_extent [OF f(3)] by (intro untouched_header(2) [of _ _ _ "(f, z)"]) auto
  show ?thesis
  proof (cases "p < f")
    case True
    have "separate [(p, v), (f, z)]" using sep beside_sym by (auto simp del: fits.simps)
    note j = kfree_pair [OF this m(3,1,2)]
    have "kfree (f + 8) s = Inr (s\<lparr>vmem := join_next p (set_next p f ?m), free_block_list := p\<rparr>)"
      using True l m(4) j(3) by (simp add: kfree_def Let_def)
    moreover have "untouched [(f, z), (p, v)] ?m (join_next p (set_next p f ?m))"
      by (rule untouched_mono [OF j(2)]) auto
    ultimately show ?thesis using True j(1) untouched_trans [OF un] by (simp add: put_back_def)
  next
    case False
    note j = kfree_pair [OF sep m(1,3,4)]
    have "kfree (f + 8) s = Inr (s\<lparr>vmem := join_next f (set_next f p ?m), free_block_list := f\<rparr>)"
      using False l m(4) j(3) by (simp add: kfree_def Let_def)
    then show ?thesis using False j(1,2) untouched_trans [OF un] by (simp add: put_back_def)
  qed
qed

text \<open>\<open>kfree\<close> on any free list without overlaps.\<close>

lemma kfree_into:
  fixes s :: "'a kheap_scheme"
  assumes "chain (vmem s) (free_block_list s) bs" "separate ((f, z) # bs)" "block_size (vmem s) f = z"
  shows "\<exists>t. kfree (f + 8) s = Inr t \<and> chain (vmem t) (free_block_list t) (free_into (f, z) bs) \<and>
    same_kernel s t \<and> untouched ((f, z) # bs) (vmem s) (vmem t)"
proof (cases bs)
  case Nil
  have "untouched [(f, z)] (vmem s) (set_next f NULL (vmem s))"
    using assms(2) header_extent [of f z] by (intro untouched_header(2) [of _ _ _ "(f, z)"]) auto
  then show ?thesis using assms Nil by (simp add: kfree_def heap_block_simps)
next
  case (Cons b cs)
  then show ?thesis
    using kfree_one [of s "fst b" "snd b" f z] kfree_many [of s "fst b" "snd b" cs f z] assms by (cases cs) auto
qed

end
