(* ===== verification/Free_List.thy ===== *)
theory Free_List
  imports Kheap
begin

text \<open>
  The free list as the comment in \<^verbatim>\<open>kernel/kmalloc.c\<close> describes it, ordered by address: \<open>heap_inv\<close> is
  that invariant, and the theorems say what \<open>kmalloc\<close> and \<open>kfree\<close> do to such a list, where they keep
  the order and no two free blocks touching, and where they do not.
\<close>

section \<open>Ordered free lists\<close>

definition spaced :: "(u64 \<times> u64) list \<Rightarrow> bool" where
  "spaced bs \<longleftrightarrow> (\<forall>b \<in> set bs. fits b) \<and> sorted_wrt below bs"

definition heap_inv :: "(u64 \<times> u64) list \<Rightarrow> 'a kheap_scheme \<Rightarrow> bool" where
  "heap_inv bs s \<longleftrightarrow> chain (vmem s) (free_block_list s) bs \<and> spaced bs"

lemma spaced_append:
  "spaced (xs @ ys) \<longleftrightarrow> spaced xs \<and> spaced ys \<and> (\<forall>x \<in> set xs. \<forall>y \<in> set ys. below x y)"
  by (auto simp: spaced_def sorted_wrt_append)

lemma spaced_Cons:
  "spaced (x # xs) \<longleftrightarrow> fits x \<and> spaced xs \<and> (\<forall>y \<in> set xs. below x y)"
  by (auto simp: spaced_def)

lemma spaced_separate: "spaced bs \<Longrightarrow> separate bs"
  by (induction bs) (auto simp: spaced_def beside_def)

lemma heap_inv_separate: "heap_inv bs s \<Longrightarrow> separate bs"
  by (simp add: heap_inv_def spaced_separate)

lemma spaced_apart:
  "spaced (xs @ (a, z) # ys) \<Longrightarrow> b \<in> fst ` set xs \<or> b \<in> fst ` set ys \<Longrightarrow> apart b a"
  by (rule separate_apart [OF spaced_separate])

lemma remainder_spaced:
  assumes "spaced (xs @ (a, z) # ys)" "8 \<le> unat sz" "sz \<le> z"
  shows "spaced (xs @ remainder sz (a, z) @ ys)"
    and "16 < z - sz \<Longrightarrow> spaced (xs @ (a, sz) # remainder sz (a, z) @ ys)"
proof -
  have fa: "fits (a, z)" using assms(1) by (simp add: spaced_append spaced_Cons)
  have "spaced (xs @ remainder sz (a, z) @ ys) \<and>
      (16 < z - sz \<longrightarrow> spaced (xs @ (a, sz) # remainder sz (a, z) @ ys))"
  proof (cases "16 < z - sz")
    case True
    note rf = rem_block_facts [OF fa assms(2) True assms(3)]
    have "fits (a + 8 + sz, z - sz - 8)" "fits (a, sz)" "below (a, sz) (a + 8 + sz, z - sz - 8)"
      using rf fa assms(2) by (auto simp: unat_eq_zero [symmetric] simp del: unat_eq_zero)
    moreover have "below (b, w) (a, z) \<Longrightarrow> below (b, w) (a + 8 + sz, z - sz - 8) \<and> below (b, w) (a, sz)"
      "below (a, z) (b, w) \<Longrightarrow> below (a + 8 + sz, z - sz - 8) (b, w) \<and> below (a, sz) (b, w)" for b w
      using rf by auto
    ultimately show ?thesis
      using assms(1) True
      by (auto simp: remainder_def spaced_append spaced_Cons simp del: fits.simps below.simps)
  next
    case False
    then show ?thesis using assms(1) by (simp add: remainder_def spaced_append spaced_Cons)
  qed
  then show "spaced (xs @ remainder sz (a, z) @ ys)"
    "16 < z - sz \<Longrightarrow> spaced (xs @ (a, sz) # remainder sz (a, z) @ ys)" by simp_all
qed

text \<open>Allocation from the block \<open>(a, z)\<close> behind the blocks \<open>xs\<close>, all of them too small.\<close>

lemma kmalloc_ordered:
  fixes s :: "'a kheap_scheme"
  assumes "heap_inv (xs @ (a, z) # ys) s" "\<forall>(b, w) \<in> set xs. w < sz" "sz \<le> z" "8 \<le> unat sz"
    "sz \<le> mmu_total_memory s"
  shows "\<exists>t. kmalloc sz s = Inr (a + 8, t) \<and> heap_inv (xs @ remainder sz (a, z) @ ys) t \<and>
    block_size (vmem t) a = granted sz z \<and> heap_end t = heap_end s"
proof -
  have "chain (vmem s) (free_block_list s) (xs @ (a, z) # ys)" "spaced (xs @ (a, z) # ys)"
    using assms(1) by (simp_all add: heap_inv_def)
  then show ?thesis
    using kmalloc_from [OF _ spaced_separate assms(2-5)] remainder_spaced(1) [OF _ assms(4,3)] same_kernel_fields(1)
    unfolding heap_inv_def by blast
qed

lemma join_right_spaced:
  assumes "spaced (xs @ f # ys)" shows "spaced (xs @ join_right f ys)"
proof (cases ys)
  case (Cons c bs)
  obtain a z b w where f: "f = (a, z)" "c = (b, w)" by fastforce
  show ?thesis
  proof (cases "unat a + 8 + unat z = unat b")
    case True
    have "fits (a, z)" "fits (b, w)" using assms Cons f by (simp_all add: spaced_append spaced_Cons)
    note j = join_fits [OF this True]
    have "below (b, w) d \<Longrightarrow> below (a, z + w + 8) d" "below d (a, z) \<Longrightarrow> below d (a, z + w + 8)" for d
      using True j(2) by (cases d; auto)+
    then show ?thesis
      using assms Cons f True j(1)
      by (auto simp: spaced_append spaced_Cons simp del: fits.simps below.simps)
  next
    case False
    then show ?thesis using assms Cons f by simp
  qed
next
  case Nil
  then show ?thesis using assms by (cases f) simp
qed

lemma put_back_spaced:
  assumes "spaced (xs @ f # ys)" shows "spaced (put_back xs f ys)"
proof (cases xs rule: rev_cases)
  case Nil
  then show ?thesis using join_right_spaced [of "[]" f ys] assms by (simp add: put_back_def)
next
  case (snoc us p)
  have "spaced ((us @ [p]) @ join_right f ys)"
    using join_right_spaced [of "us @ [p]" f ys] assms snoc by simp
  then show ?thesis using join_right_spaced [of us p "join_right f ys"] snoc by (simp add: put_back_def)
qed

text \<open>On an ordered list, \<open>free_into\<close> finds the place in the order, except below the head.\<close>

lemma free_into_ordered:
  assumes "spaced (xs @ (f, z) # ys)" "xs \<noteq> [] \<or> length ys \<le> 1"
  shows "free_into (f, z) (xs @ ys) = put_back xs (f, z) ys"
proof -
  have lo: "fst x < f" if "x \<in> set xs" for x
    using assms(1) that by (cases x) (auto simp: spaced_append spaced_Cons word_less_nat_alt)
  have hi: "\<not> fst y < f" if "y \<in> set ys" for y
    using assms(1) that by (cases y) (auto simp: spaced_append spaced_Cons word_less_nat_alt)
  show ?thesis
  proof (cases xs)
    case Nil
    then show ?thesis using assms(2) hi by (cases ys) (auto simp: put_back_def)
  next
    case (Cons h us)
    have split: "takeWhile (\<lambda>c. fst c < f) (us @ ys) = us" "dropWhile (\<lambda>c. fst c < f) (us @ ys) = ys"
      using Cons lo hi by (cases ys; simp add: takeWhile_append2 dropWhile_append2)+
    show ?thesis
    proof (cases "us @ ys")
      case Nil
      then show ?thesis using Cons lo by simp
    next
      case (Cons b bs)
      then show ?thesis using \<open>xs = h # us\<close> split by simp
    qed
  qed
qed

lemma kfree_put_back:
  fixes s :: "'a kheap_scheme"
  assumes inv: "heap_inv (xs @ ys) s" and sp: "spaced (xs @ (f, z) # ys)"
    and size: "block_size (vmem s) f = z" and ends: "xs \<noteq> [] \<or> length ys \<le> 1"
  shows "\<exists>t. kfree (f + 8) s = Inr t \<and> heap_inv (put_back xs (f, z) ys) t"
proof -
  have "separate ((f, z) # xs @ ys)" using spaced_separate [OF sp] by (simp only: separate_move)
  then show ?thesis
    using kfree_into [OF _ _ size, of "xs @ ys"] inv put_back_spaced [OF sp]
    unfolding heap_inv_def free_into_ordered [OF sp ends] by blast
qed

section \<open>Coalesced lists\<close>

text \<open>No two blocks of the list touch.\<close>

fun gap :: "u64 \<times> u64 \<Rightarrow> u64 \<times> u64 \<Rightarrow> bool" where
  "gap (a, z) (b, w) \<longleftrightarrow> unat a + 8 + unat z < unat b"

definition coalesced :: "(u64 \<times> u64) list \<Rightarrow> bool" where
  "coalesced bs \<longleftrightarrow> sorted_wrt gap bs"

lemma coalesced_append:
  "coalesced (xs @ ys) \<longleftrightarrow> coalesced xs \<and> coalesced ys \<and> (\<forall>x \<in> set xs. \<forall>y \<in> set ys. gap x y)"
  by (simp add: coalesced_def sorted_wrt_append)

lemma coalesced_Cons: "coalesced (x # xs) \<longleftrightarrow> coalesced xs \<and> (\<forall>y \<in> set xs. gap x y)"
  by (auto simp: coalesced_def)

text \<open>A block with nothing adjacent behind it is left alone by \<open>join_right\<close>.\<close>

lemma join_right_gap: "coalesced (f # ys) \<Longrightarrow> join_right f ys = f # ys"
  by (cases "(f, ys)" rule: join_right.cases) (auto simp: coalesced_Cons)

lemma gap_below: "gap x y \<Longrightarrow> below y w \<Longrightarrow> gap x w"
  by (cases x; cases y; cases w) auto

lemma below_gap: "below x y \<Longrightarrow> gap y w \<Longrightarrow> gap x w"
  by (cases x; cases y; cases w) auto

lemma below_cases: "below x y \<Longrightarrow> gap x y \<or> unat (fst x) + 8 + unat (snd x) = unat (fst y)"
  by (cases x; cases y) auto

lemma join_right_coalesced:
  assumes "spaced (f # ys)" "coalesced ys"
  shows "coalesced (join_right f ys)"
proof (cases ys)
  case Nil
  then show ?thesis by (cases f) (simp add: coalesced_def)
next
  case (Cons c bs)
  obtain a z b w where f: "f = (a, z)" "c = (b, w)" by fastforce
  show ?thesis
  proof (cases "unat a + 8 + unat z = unat b")
    case True
    have "fits (a, z)" "fits (b, w)" using assms Cons f by (simp_all add: spaced_Cons)
    note j = join_fits [OF this True]
    have "gap (b, w) d \<Longrightarrow> gap (a, z + w + 8) d" for d using True j(2) by (cases d) auto
    then show ?thesis using assms(2) Cons f True by (auto simp: coalesced_Cons simp del: gap.simps)
  next
    case False
    then have "gap f c" using assms(1) Cons f below_cases [of f c] by (auto simp: spaced_Cons)
    moreover have "\<forall>d \<in> set bs. gap c d" using assms(2) Cons by (simp add: coalesced_Cons)
    moreover have "below f c" using assms(1) Cons by (simp add: spaced_Cons)
    ultimately show ?thesis
      using assms(2) Cons f False below_gap by (auto simp: coalesced_Cons simp del: gap.simps below.simps)
  qed
qed

lemma join_right_first: "x \<in> set (join_right f ys) \<Longrightarrow> fst x = fst f \<or> x \<in> set ys"
  by (cases "(f, ys)" rule: join_right.cases) (auto split: if_splits)

lemma put_back_coalesced:
  assumes "spaced (xs @ f # ys)" "coalesced (xs @ ys)"
  shows "coalesced (put_back xs f ys)"
proof (cases xs rule: rev_cases)
  case Nil
  then show ?thesis using assms join_right_coalesced by (simp add: put_back_def)
next
  case (snoc us p)
  let ?l = "join_right f ys"
  have sp: "spaced (p # ?l)" "spaced (f # ys)" "below p f" "\<forall>x \<in> set us. gap x p"
    using assms snoc join_right_spaced [of "us @ [p]" f ys]
    by (auto simp: spaced_append spaced_Cons coalesced_append coalesced_Cons simp del: below.simps)
  have c: "coalesced (join_right p ?l)"
    using sp assms snoc by (intro join_right_coalesced) (auto simp: coalesced_append coalesced_Cons)
  have "gap x y" if x: "x \<in> set us" and y: "y \<in> set (join_right p ?l)" for x y
  proof (cases "fst y = fst p")
    case True
    then show ?thesis using sp(4) x by (cases x; cases y; cases p) fastforce
  next
    case False
    then have "below p y" using y join_right_first [of y p ?l] sp(1) by (auto simp: spaced_Cons)
    then show ?thesis using sp(4) x gap_below by blast
  qed
  then show ?thesis using c assms snoc by (simp add: put_back_def coalesced_append)
qed

section \<open>Memory with a given free list\<close>

fun put_blocks :: "(u64 \<times> u64) list \<Rightarrow> mem \<Rightarrow> mem" where
  "put_blocks [] m = m"
| "put_blocks ((a, z) # bs) m =
     set_next a (case bs of [] \<Rightarrow> NULL | (b, w) # _ \<Rightarrow> b) (set_size a z (put_blocks bs m))"

definition sample_heap :: "(u64 \<times> u64) list \<Rightarrow> u64 \<times> u64 \<Rightarrow> kheap" where
  "sample_heap bs f = mmu.extend (sample_mmu\<lparr>total_memory := 0x100000,
       vmem := put_blocks bs (set_size (fst f) (snd f) (\<lambda>_. 0))\<rparr>)
     \<lparr>free_block_list = (case bs of [] \<Rightarrow> NULL | (b, w) # _ \<Rightarrow> b),
      heap_start = 0x10000, heap_end = 0x20000\<rparr>"

lemma sample_heap_fields [simp]:
  "vmem (sample_heap bs f) = put_blocks bs (set_size (fst f) (snd f) (\<lambda>_. 0))"
  "free_block_list (sample_heap bs f) = (case bs of [] \<Rightarrow> NULL | (b, w) # _ \<Rightarrow> b)"
  "mmu_total_memory (sample_heap bs f) = 0x100000" "heap_end (sample_heap bs f) = 0x20000"
  by (simp_all add: sample_heap_def mmu.defs mmu_total_memory_def get_total_memory_def)

lemma put_blocks_size: "\<forall>b \<in> fst ` set bs. apart a b \<Longrightarrow> block_size (put_blocks bs m) a = block_size m a"
  by (induction bs m rule: put_blocks.induct) (auto simp: heap_block_simps)

lemma put_blocks_chain:
  "spaced bs \<Longrightarrow> chain (put_blocks bs m) (case bs of [] \<Rightarrow> NULL | (b, w) # _ \<Rightarrow> b) bs"
proof (induction bs m rule: put_blocks.induct)
  case (2 a z bs m)
  have "b \<in> fst ` set bs \<Longrightarrow> apart b a" for b using 2(2) spaced_apart [of "[]" a z bs b] by simp
  then show ?case using 2 by (auto simp: heap_block_simps spaced_Cons)
qed simp

lemma sample_heap_inv: "spaced bs \<Longrightarrow> heap_inv bs (sample_heap bs f)"
  using put_blocks_chain by (simp add: heap_inv_def)

lemma sample_heap_size:
  assumes "spaced (xs @ f # ys)"
  shows "block_size (vmem (sample_heap (xs @ ys) f)) (fst f) = snd f"
proof -
  have "apart (fst f) b" if "b \<in> fst ` set (xs @ ys)" for b
    using spaced_apart [of xs "fst f" "snd f" ys b] assms that apart_sym by auto
  then show ?thesis by (simp add: put_blocks_size heap_block_simps)
qed

section \<open>Properties of the heap\<close>

text \<open>
  C4: \<open>kmalloc\<close> is first fit.  On a well-formed free list, a request of at least 8 bytes goes to the
  first block that is large enough; the pointer returned lies behind that block's size field.
  The block leaves the list, or what is left of it takes its place when it can hold more than a
  header, the list stays ordered and linked, and the block handed out overlaps no free block.
\<close>

theorem kmalloc_first_fit:
  fixes s :: "'a kheap_scheme"
  assumes "heap_inv (xs @ (a, z) # ys) s" "\<forall>(b, w) \<in> set xs. w < sz" "sz \<le> z" "8 \<le> unat sz"
    and "sz \<le> mmu_total_memory s"
  shows "\<exists>t g. kmalloc sz s = Inr (a + 8, t) \<and> heap_inv (xs @ remainder sz (a, z) @ ys) t \<and>
    block_size (vmem t) a = g \<and> sz \<le> g \<and> spaced (xs @ (a, g) # remainder sz (a, z) @ ys)"
proof -
  have "spaced (xs @ (a, z) # ys)" using assms(1) by (simp add: heap_inv_def)
  then have "spaced (xs @ (a, granted sz z) # remainder sz (a, z) @ ys)"
    using remainder_spaced(2) [OF _ assms(4,3)] by (simp add: remainder_def granted_def)
  moreover have "sz \<le> granted sz z" using assms(3) by (simp add: granted_def)
  ultimately show ?thesis using kmalloc_ordered [OF assms] by blast
qed

lemma sample_blocks:
  "spaced [(0x10000, 16), (0x11000, 100), (0x12000, 200)]" "spaced [(0x10000, 100), (0x11000, 50)]"
  by (simp_all add: spaced_def)

theorem kmalloc_first_fit_witness:
  "\<exists>t. kmalloc 32 (sample_heap [(0x10000, 16), (0x11000, 100), (0x12000, 200)] (0x20000, 0)) =
       Inr (0x11008, t) \<and> heap_inv [(0x10000, 16), (0x11028, 60), (0x12000, 200)] t"
  using kmalloc_first_fit [of "[(0x10000, 16)]" "0x11000" 100 "[(0x12000, 200)]"
      "sample_heap [(0x10000, 16), (0x11000, 100), (0x12000, 200)] (0x20000, 0)" 32]
    sample_heap_inv [OF sample_blocks(1), of "(0x20000, 0)"]
  by (auto simp: remainder_def)

text \<open>
  C7: \<open>kfree\<close> puts a block back at its place in the address order and joins it with the free blocks
  it touches on either side, and a list without adjacent blocks stays one.  The block must not
  lie below the head of a list with two or more blocks.
\<close>

theorem kfree_puts_back:
  fixes s :: "'a kheap_scheme"
  assumes "heap_inv (xs @ ys) s" "spaced (xs @ (f, z) # ys)" "block_size (vmem s) f = z"
    and "xs \<noteq> [] \<or> length ys \<le> 1"
  shows "\<exists>t. kfree (f + 8) s = Inr t \<and> heap_inv (put_back xs (f, z) ys) t \<and>
    (coalesced (xs @ ys) \<longrightarrow> coalesced (put_back xs (f, z) ys))"
  using kfree_put_back [OF assms] put_back_coalesced [OF assms(2)] by blast

theorem kfree_puts_back_witness:
  "\<exists>t. kfree 0x11008 (sample_heap [(0x10000, 0xFF8), (0x11078, 200), (0x12000, 200)] (0x11000, 0x70)) = Inr t \<and>
     heap_inv [(0x10000, 0x1140), (0x12000, 200)] t"
proof -
  have "spaced ([(0x10000, 0xFF8)] @ (0x11000, 0x70) # [(0x11078, 200), (0x12000, 200)])"
    "spaced [(0x10000, 0xFF8), (0x11078, 200), (0x12000, 200)]"
    by (simp_all add: spaced_def)
  note sample_heap_size [OF this(1), simplified fst_conv snd_conv]
    sample_heap_inv [OF this(2), of "(0x11000, 0x70)"] this(1)
  moreover have "put_back [(0x10000, 0xFF8)] (0x11000, 0x70) [(0x11078, 200), (0x12000, 200)] =
      [(0x10000, 0x1140), (0x12000, 200)]"
    by (simp add: put_back_def)
  ultimately show ?thesis
    using kfree_puts_back [of "[(0x10000, 0xFF8)]" "[(0x11078, 200), (0x12000, 200)]"
        "sample_heap [(0x10000, 0xFF8), (0x11078, 200), (0x12000, 200)] (0x11000, 0x70)"
        "0x11000" "0x70"] by auto
qed

lemma two_blocks: "\<not> length bs \<le> 1 \<Longrightarrow> \<exists>h c cs. bs = h # c # cs"
  by (cases bs; cases "tl bs") auto

text \<open>A block below the head of a list of two or more blocks ends up behind the head.\<close>

lemma free_into_below:
  assumes "spaced ((f, z) # h # c # bs)"
  shows "free_into (f, z) (h # c # bs) = h # (f, z) # c # bs" "\<not> spaced (h # (f, z) # c # bs)"
proof -
  obtain a v b w where hc: "h = (a, v)" "c = (b, w)" by fastforce
  have o: "below (f, z) (a, v)" "below (f, z) (b, w)" "below (a, v) (b, w)"
    using assms by (simp_all add: hc spaced_Cons)
  have "\<not> b < f" using o(2) by (simp add: word_less_nat_alt)
  then show "free_into (f, z) (h # c # bs) = h # (f, z) # c # bs" using o by (simp add: hc put_back_def)
  show "\<not> spaced (h # (f, z) # c # bs)" using o(1) by (auto simp: hc spaced_Cons)
qed

text \<open>
  C34: Allocating and freeing again, on a list without adjacent blocks: \<open>kfree\<close> of what \<open>kmalloc\<close>
  returned gives back the list from before, block by block, unless the block came from the head
  of the list and left at least two free blocks behind.  In that case the list is not restored:
  the block is linked in behind the new head, out of order and joined with nothing.
\<close>

theorem kmalloc_kfree_restores:
  fixes s :: "'a kheap_scheme"
  assumes "heap_inv (xs @ (a, z) # ys) s" "\<forall>(b, w) \<in> set xs. w < sz" "sz \<le> z" "8 \<le> unat sz"
    and "sz \<le> mmu_total_memory s" "coalesced (xs @ (a, z) # ys)"
  shows "\<exists>t u. kmalloc sz s = Inr (a + 8, t) \<and> kfree (a + 8) t = Inr u \<and>
    (if xs \<noteq> [] \<or> length (remainder sz (a, z) @ ys) \<le> 1 then heap_inv (xs @ (a, z) # ys) u
     else \<exists>h c bs. remainder sz (a, z) @ ys = h # c # bs \<and>
       chain (vmem u) (free_block_list u) (h # (a, granted sz z) # c # bs) \<and>
       \<not> spaced (h # (a, granted sz z) # c # bs))"
proof -
  let ?g = "granted sz z" and ?r = "remainder sz (a, z)"
  obtain t where t: "kmalloc sz s = Inr (a + 8, t)" "heap_inv (xs @ ?r @ ys) t" "block_size (vmem t) a = ?g"
    using kmalloc_ordered [OF assms(1-5)] by auto
  have sp: "spaced (xs @ (a, z) # ys)" using assms(1) by (simp add: heap_inv_def)
  then have sg: "spaced (xs @ (a, ?g) # ?r @ ys)"
    using remainder_spaced(2) [OF _ assms(4,3)] by (simp add: remainder_def granted_def)
  show ?thesis
  proof (cases "xs \<noteq> [] \<or> length (?r @ ys) \<le> 1")
    case True
    then obtain u where u: "kfree (a + 8) t = Inr u" "heap_inv (put_back xs (a, ?g) (?r @ ys)) u"
      using kfree_put_back [OF t(2) sg t(3)] by blast
    have "coalesced ((a, z) # ys)" using assms(6) by (simp add: coalesced_append)
    moreover have "fits (a, z)" using sp by (simp add: spaced_append spaced_Cons)
    ultimately have "join_right (a, ?g) (?r @ ys) = (a, z) # ys"
      using rem_block_facts(1) [OF _ assms(4) _ assms(3)] join_right_gap [of "(a, z)" ys]
      by (simp add: remainder_def granted_def)
    then have "put_back xs (a, ?g) (?r @ ys) = xs @ (a, z) # ys"
      using assms(6) by (cases xs rule: rev_cases)
        (simp_all add: put_back_def join_right_gap coalesced_append)
    then show ?thesis using t(1) u True by (simp only: if_True) blast
  next
    case False
    then obtain h c bs where r: "xs = []" "?r @ ys = h # c # bs"
      using two_blocks [of "?r @ ys"] by blast
    then have sg': "spaced ((a, ?g) # h # c # bs)" using sg by simp
    have "chain (vmem t) (free_block_list t) (h # c # bs)" using t(2) r by (simp add: heap_inv_def)
    then obtain u where "kfree (a + 8) t = Inr u" "chain (vmem u) (free_block_list u) (h # (a, ?g) # c # bs)"
      using kfree_into [OF _ spaced_separate [OF sg'] t(3)] free_into_below(1) [OF sg'] by auto
    then show ?thesis
      using t(1) free_into_below(2) [OF sg'] r(2) False by (simp only: if_False) blast
  qed
qed

text \<open>Once from the middle of a list, and once from its head with another block behind it.\<close>

theorem kmalloc_kfree_restores_witness:
  "(\<exists>t u. kmalloc 32 (sample_heap [(0x10000, 16), (0x11000, 100), (0x12000, 200)] (0x20000, 0)) =
       Inr (0x11008, t) \<and> kfree 0x11008 t = Inr u \<and>
     heap_inv [(0x10000, 16), (0x11000, 100), (0x12000, 200)] u) \<and>
   (\<exists>t u. kmalloc 32 (sample_heap [(0x10000, 100), (0x11000, 50)] (0x20000, 0)) =
       Inr (0x10008, t) \<and> kfree 0x10008 t = Inr u \<and>
     chain (vmem u) (free_block_list u) [(0x10028, 60), (0x10000, 32), (0x11000, 50)])"
  using kmalloc_kfree_restores [of "[(0x10000, 16)]" "0x11000" 100 "[(0x12000, 200)]"
      "sample_heap [(0x10000, 16), (0x11000, 100), (0x12000, 200)] (0x20000, 0)" 32]
    kmalloc_kfree_restores [of "[]" "0x10000" 100 "[(0x11000, 50)]"
      "sample_heap [(0x10000, 100), (0x11000, 50)] (0x20000, 0)" 32]
    sample_heap_inv [OF sample_blocks(1), of "(0x20000, 0)"] sample_heap_inv [OF sample_blocks(2), of "(0x20000, 0)"]
  by (simp add: coalesced_def remainder_def granted_def) blast

text \<open>
  C38: A block freed below the head of a list with two or more blocks is linked in behind the
  head: the list is no longer ordered by address, and the block is not joined with the head
  even when they touch.
\<close>

theorem kfree_below_head_unordered:
  fixes s :: "'a kheap_scheme"
  assumes "heap_inv ((h, v) # (b, w) # bs) s" "spaced ((f, z) # (h, v) # (b, w) # bs)"
    and "block_size (vmem s) f = z"
  shows "\<exists>t. kfree (f + 8) s = Inr t \<and>
    chain (vmem t) (free_block_list t) ((h, v) # (f, z) # (b, w) # bs) \<and>
    \<not> spaced ((h, v) # (f, z) # (b, w) # bs)"
  using kfree_into [OF _ spaced_separate [OF assms(2)] assms(3)] assms(1) free_into_below [OF assms(2)]
  by (auto simp: heap_inv_def simp del: free_into.simps)

theorem kfree_below_head_unordered_witness:
  "\<exists>t. kfree 0x10008 (sample_heap [(0x10028, 32), (0x12000, 200)] (0x10000, 32)) = Inr t \<and>
     chain (vmem t) (free_block_list t) [(0x10028, 32), (0x10000, 32), (0x12000, 200)]"
proof -
  have "spaced ([] @ (0x10000, 32) # [(0x10028, 32), (0x12000, 200)])"
    "spaced [(0x10028, 32), (0x12000, 200)]"
    by (simp_all add: spaced_def)
  note sample_heap_size [OF this(1), simplified fst_conv snd_conv append_Nil]
    sample_heap_inv [OF this(2), of "(0x10000, 32)"] this(1)
  then show ?thesis
    using kfree_below_head_unordered [of "0x10028" 32 "0x12000" 200 "[]"
      "sample_heap [(0x10028, 32), (0x12000, 200)] (0x10000, 32)" "0x10000" 32] by auto
qed

text \<open>
  A request for more than the total memory is refused: \<open>kmalloc\<close> prints a message, returns
  \<open>NULL\<close> and changes nothing beyond the console.
\<close>

theorem kmalloc_refuses_too_large:
  fixes s :: "'a kheap_scheme"
  assumes "mmu_total_memory s < sz"
  shows "\<exists>t. kmalloc sz s = Inr (NULL, t) \<and> machine.more t = machine.more s \<and> hw_trace t = hw_trace s"
proof -
  let ?fmt = "''kmalloc: You'' @ [CHR 0x27] @
    ''re asking for too much (%dKiB). Go jerk off and get some sleep.''"
  obtain t where "printk ?fmt [Slot (sz div 1024)] s = Inr t" "hw_trace t = hw_trace s"
    "machine.more t = machine.more s"
    by (rule printk_returns [of "[Slot (sz div 1024)]" ?fmt s]) simp_all
  then show ?thesis using assms by (simp add: kmalloc_def)
qed

lemma heap_inv_console:
  fixes s t :: "'a kheap_scheme"
  assumes "machine.more t = machine.more s" shows "heap_inv bs t = heap_inv bs s"
  using assms by (cases s; cases t) (simp add: heap_inv_def)

theorem kmalloc_refuses_too_large_witness:
  "\<exists>t. kmalloc 0x100001 (sample_heap [(0x10000, 100), (0x11000, 50)] (0x20000, 0)) = Inr (NULL, t) \<and>
     heap_inv [(0x10000, 100), (0x11000, 50)] t"
proof -
  let ?s = "sample_heap [(0x10000, 100), (0x11000, 50)] (0x20000, 0)"
  obtain t where t: "kmalloc 0x100001 ?s = Inr (NULL, t)" "machine.more t = machine.more ?s"
    using kmalloc_refuses_too_large [of ?s "0x100001"] by auto
  then show ?thesis
    using heap_inv_console [OF t(2)] sample_heap_inv [OF sample_blocks(2)] by blast
qed

end
