(* ===== verification/Heap_Growth.thy ===== *)
theory Heap_Growth
  imports Free_List
begin

text \<open>
  The heap on top of the page allocator and the page tables: \<open>sbrk\<close> takes a frame per page and maps
  it, which takes up to three more frames for page tables; \<open>kmalloc\<close> calls it when no free block
  is large enough.  What these calls leave alone, that they succeed while there are frames, and
  what \<open>kmalloc\<close> does on a heap that has to grow.
\<close>

section \<open>What allocating and mapping pages changes\<close>

definition free_frames :: "'a palloc_scheme \<Rightarrow> nat" where
  "free_frames s = card ({..<managed s} - used_frames s)"

text \<open>
  \<open>paged n s t\<close>: \<open>t\<close> is \<open>s\<close> after taking at most \<open>n\<close> frames and changing page tables.  Of the memory
  behind \<open>vmem\<close> only the bitmap, at most 128 KiB, may differ.
\<close>

definition paged :: "nat \<Rightarrow> 'a mmu_scheme \<Rightarrow> 'a mmu_scheme \<Rightarrow> bool" where
  "paged n s t \<longleftrightarrow> palloc_inv t \<and> free_frames s \<le> free_frames t + n \<and> frames t = frames s \<and>
     (\<forall>x. \<not> in_range (frames s) 131072 x \<longrightarrow> vmem t x = vmem s x) \<and>
     current_pml4 t = current_pml4 s \<and> total_memory t = total_memory s \<and> mmu.more t = mmu.more s"

lemma paged_trans: "paged n s t \<Longrightarrow> paged k t u \<Longrightarrow> paged (n + k) s u"
  by (auto simp: paged_def)

lemma paged_refl: "palloc_inv s \<Longrightarrow> paged n s s"
  by (simp add: paged_def)

lemma paged_inv: "paged n s t \<Longrightarrow> palloc_inv t"
  by (simp add: paged_def)

lemma pmem_frame [simp]:
  "palloc_inv (pml_store p e s) = palloc_inv s" "managed (pml_store p e s) = managed s"
  "used_frames (pml_store p e s) = used_frames s" "free_frames (pml_store p e s) = free_frames s"
  by (simp_all add: pml_store_def palloc_inv_def managed_def frame_count_def used_frames_def frame_bit_def
      free_frames_def)

lemma pml_store_paged: "palloc_inv t \<Longrightarrow> paged n s t \<Longrightarrow> paged n s (pml_store p e t)"
  by (simp add: paged_def) (simp add: pml_store_def)

lemma frame_set_outside:
  assumes "f < 2 ^ 20" "\<not> in_range (frames s) 131072 x"
  shows "vmem (frame_set (of_nat (f * 4096)) s) x = vmem s x"
proof -
  have "unat (of_nat (f * 4096) :: u64) = f * 4096" using assms(1) by (simp del: of_nat_mult)
  then have "drop_bit 15 (of_nat (f * 4096) :: u64) = of_nat (f div 8)"
    unfolding frame_byte by (simp del: of_nat_mult)
  moreover have "in_range (frames s) 131072 (frames s + of_nat (f div 8))" using assms(1) by simp
  ultimately show ?thesis using assms(2) by (auto simp: frame_set_def Let_def simp del: of_nat_mult)
qed

lemma page_alloc_paged:
  fixes s :: "'a mmu_scheme"
  assumes "palloc_inv s" "0 < free_frames s"
  shows "\<exists>e t. page_alloc 0 flags s = Inr (e, t) \<and> paged 1 s t"
proof -
  have zero: "pml_address 0 = 0" by (simp add: pml_address_def)
  have "\<not> {..<managed s} \<subseteq> used_frames s"
    using assms(2) unfolding free_frames_def by (metis Diff_eq_empty_iff card.empty less_irrefl)
  then obtain f e t where f: "f < managed s" "f \<notin> used_frames s" "page_alloc 0 flags s = Inr (e, t)"
    "used_frames t = insert f (used_frames s)" "palloc_inv t" "managed t = managed s"
    by (cases rule: page_alloc_cases [OF assms(1) zero, of flags]) (blast, (rule that; assumption))
  obtain g where g: "find (\<lambda>f. \<not> frame_bit s f) [0..<managed s] = Some g"
    and t: "t = (frame_set (of_nat (g * 4096)) s)\<lparr>unavailable_memory := unavailable_memory s + 1\<rparr>"
    using f(3) page_alloc_find [OF assms(1) zero, of flags] by (auto split: option.splits)
  have "g < managed s" using g by (auto simp: find_Some_iff)
  then have "g < 2 ^ 20" using managed_bound [OF assms(1)] by blast
  moreover have "card ({..<managed s} - used_frames s) = Suc (card ({..<managed t} - used_frames t))"
    using f card_Suc_Diff1 [of "{..<managed s} - used_frames s" f] by (simp add: Diff_insert [symmetric])
  moreover have "current_pml4 t = current_pml4 s" "total_memory t = total_memory s"
    "mmu.more t = mmu.more s" "frames t = frames s"
    unfolding t by (simp_all add: frame_set_def Let_def)
  ultimately have "paged 1 s t"
    using f(5) frame_set_outside [of g s] unfolding paged_def free_frames_def t by simp
  then show ?thesis using f(3) by blast
qed

lemma next_table_paged:
  fixes s :: "'a mmu_scheme"
  assumes "palloc_inv s" "0 < free_frames s"
  shows "\<exists>tb t. next_table table idx s = Inr (tb, t) \<and> paged 1 s t"
proof (cases "pml_present (pml_load (entry_at table idx) s)")
  case True
  then show ?thesis using assms(1) by (simp add: next_table_def Let_def paged_refl)
next
  case False
  obtain e t where "page_alloc 0 PML_FLAG_WRITABLE s = Inr (e, t)" "paged 1 s t"
    using page_alloc_paged [OF assms] by blast
  then show ?thesis using False pml_store_paged paged_inv by (fastforce simp: next_table_def Let_def)
qed

lemma descend_paged:
  fixes s :: "'a mmu_scheme"
  assumes "palloc_inv s" "length is \<le> free_frames s"
  shows "\<exists>tb t. descend is page_addr table s = Inr (tb, t) \<and> paged (length is) s t"
  using assms
proof (induction "is" arbitrary: s table)
  case Nil
  then show ?case by (simp add: paged_refl)
next
  case (Cons i "is")
  let ?idx = "drop_bit (27 - i * 9) page_addr AND PML_ENTRY_MASK"
  obtain tb t where t: "next_table table ?idx s = Inr (tb, t)" "paged 1 s t"
    using next_table_paged [of s table ?idx] Cons.prems by fastforce
  have "length is \<le> free_frames t" using t(2) Cons.prems(2) by (simp add: paged_def)
  from Cons.IH [OF paged_inv [OF t(2)] this] obtain tb' u where
    "descend is page_addr tb t = Inr (tb', u)" "paged (length is) t u" by blast
  then show ?case using t paged_trans [OF t(2)] by (fastforce simp: Let_def)
qed

lemma map_addr_paged:
  fixes s :: "'a mmu_scheme"
  assumes "palloc_inv s" "3 \<le> free_frames s" "va AND PAGE_LOW_MASK = 0" "pa AND PAGE_LOW_MASK = 0"
  shows "\<exists>t. map_addr va pa flags s = Inr t \<and> paged 3 s t"
proof -
  obtain tb t where "descend [0, 1, 2] (drop_bit PAGE_SHIFT va) (current_pml4 s) s = Inr (tb, t)"
    "paged 3 s t"
    using descend_paged [OF assms(1), of "[0, 1, 2]" "drop_bit PAGE_SHIFT va" "current_pml4 s"] assms(2)
    by (auto simp: numeral_3_eq_3 simp del: descend.simps)
  then show ?thesis
    using assms(3,4) paged_inv by (auto simp: map_addr_def map_addr_in_def Let_def intro!: pml_store_paged)
qed

section \<open>Growing the heap\<close>

lemma page_aligned: "push_bit 12 x AND PAGE_LOW_MASK = (0 :: u64)"
  by (simp add: masks(4) flip: take_bit_eq_mask) (simp add: take_bit_push_bit)

text \<open>The state with the heap's end moved by \<open>n\<close> pages.\<close>

definition moved_end :: "nat \<Rightarrow> 'a kheap_scheme \<Rightarrow> 'a kheap_scheme" where
  "moved_end n s = s\<lparr>heap_end := heap_end s + of_nat (n * 4096)\<rparr>"

lemma moved_end_0 [simp]: "moved_end 0 s = s"
  by (simp add: moved_end_def)

lemma moved_end_frames [simp]: "free_frames (moved_end n s) = free_frames s"
  by (simp add: moved_end_def free_frames_def managed_def frame_count_def used_frames_def frame_bit_def)

lemma paged_moved_end:
  fixes s t :: "'a kheap_scheme"
  assumes "paged n s t" shows "paged n (moved_end k s) (moved_end k t)"
proof -
  have "mmu.more t = mmu.more s" using assms by (simp add: paged_def)
  then have "mmu.more (moved_end k t) = mmu.more (moved_end k s)"
    by (cases s; cases t) (simp add: moved_end_def)
  then show ?thesis using assms by (simp add: paged_def) (simp add: moved_end_def palloc_inv_def frame_count_def)
qed

lemma paged_heap:
  fixes s t :: "'a kheap_scheme"
  assumes "paged n s t"
  shows "heap_end t = heap_end s" "free_block_list t = free_block_list s" "heap_start t = heap_start s"
proof -
  have "mmu.more t = mmu.more s" using assms by (simp add: paged_def)
  then show "heap_end t = heap_end s" "free_block_list t = free_block_list s" "heap_start t = heap_start s"
    by (cases s; cases t; simp)+
qed

lemma moved_end_Suc: "moved_end n (t\<lparr>heap_end := heap_end t + PAGE_SIZE\<rparr>) = moved_end (Suc n) t"
  by (simp add: moved_end_def algebra_simps)

lemma moved_end_1: "t\<lparr>heap_end := heap_end t + PAGE_SIZE\<rparr> = moved_end 1 t"
  by (simp add: moved_end_def)

lemma aligned_iff: "(a :: u64) AND PAGE_LOW_MASK = 0 \<longleftrightarrow> unat a mod 4096 = 0"
proof -
  have "a AND PAGE_LOW_MASK = take_bit 12 a" by (simp only: masks(4) take_bit_eq_mask)
  moreover have "unat (take_bit 12 a) = unat a mod 4096"
    by (simp only: unsigned_take_bit_eq) (simp add: take_bit_eq_mod)
  ultimately show ?thesis by (simp add: word_unat_eq_iff)
qed

lemma aligned_step: "a AND PAGE_LOW_MASK = 0 \<Longrightarrow> (a + PAGE_SIZE) AND PAGE_LOW_MASK = (0 :: u64)"
proof -
  assume "a AND PAGE_LOW_MASK = 0"
  moreover have "unat (a + PAGE_SIZE) mod 4096 = (unat a + 4096) mod 4096"
    unfolding unat_word_ariths(1) by (subst mod_mod_cancel) simp_all
  ultimately show ?thesis by (simp add: aligned_iff)
qed

lemma sbrk_loop_grows:
  fixes s :: "'a kheap_scheme"
  assumes "palloc_inv s" "4 * n \<le> free_frames s" "heap_end s AND PAGE_LOW_MASK = 0"
  shows "\<exists>t. sbrk_loop n s = Inr t \<and> paged (4 * n) (moved_end n s) t"
  using assms
proof (induction n arbitrary: s)
  case 0
  then show ?case by (simp add: paged_refl)
next
  case (Suc n)
  obtain e t where t: "page_alloc 0 PML_FLAG_WRITABLE s = Inr (e, t)" "paged 1 s t"
    using page_alloc_paged [of s] Suc.prems by fastforce
  have he: "heap_end t = heap_end s" using paged_heap [OF t(2)] by simp
  have "3 \<le> free_frames t" using t(2) Suc.prems(2) by (simp add: paged_def)
  then obtain u where u: "map_addr (heap_end t) (push_bit PAGE_SHIFT (pml_address e)) PML_FLAG_WRITABLE t = Inr u"
    "paged 3 t u"
    using map_addr_paged [of t "heap_end t" "push_bit PAGE_SHIFT (pml_address e)" PML_FLAG_WRITABLE]
      paged_inv [OF t(2)] Suc.prems(3) he page_aligned by fastforce
  have "paged 4 s u" using paged_trans [OF t(2) u(2)] by simp
  then have p: "paged 4 (moved_end 1 s) (moved_end 1 u)" by (rule paged_moved_end)
  have hu: "heap_end u = heap_end s" using paged_heap [OF \<open>paged 4 s u\<close>] by simp
  have "4 * n \<le> free_frames (moved_end 1 u)" using p Suc.prems(2) by (simp add: paged_def)
  moreover have "heap_end (moved_end 1 u) AND PAGE_LOW_MASK = 0"
    using aligned_step [OF Suc.prems(3)] hu by (simp add: moved_end_def)
  ultimately obtain v where v: "sbrk_loop n (moved_end 1 u) = Inr v"
    "paged (4 * n) (moved_end (Suc n) u) v"
    using Suc.IH [OF paged_inv [OF p]] unfolding moved_end_1 [symmetric] moved_end_Suc by blast
  have "sbrk_loop (Suc n) s = Inr v"
    using t(1) u(1) v(1) unfolding moved_end_1 [symmetric] by (simp add: Let_def)
  moreover have "paged (4 * Suc n) (moved_end (Suc n) s) v"
    using paged_trans [OF paged_moved_end [OF \<open>paged 4 s u\<close>] v(2)] by simp
  ultimately show ?case by blast
qed

lemma pages_of_incr:
  fixes incr :: u64
  assumes "unat incr + 4095 < 2 ^ 64"
  shows "unat (((incr + PAGE_LOW_MASK) AND NOT PAGE_LOW_MASK) div PAGE_SIZE) = pages_for (unat incr)"
proof -
  have "(4096 :: u64) = 2 ^ 12" by simp
  then have "((incr + PAGE_LOW_MASK) AND NOT PAGE_LOW_MASK) div PAGE_SIZE =
      drop_bit 12 ((incr + PAGE_LOW_MASK) AND NOT (mask 12))"
    by (simp only: drop_bit_eq_div masks(4))
  also have "\<dots> = drop_bit 12 (incr + PAGE_LOW_MASK)"
    by (rule bit_eqI) (auto simp: bit_simps dest: bit_imp_le_length)
  also have "unat \<dots> = unat (incr + PAGE_LOW_MASK) div 4096"
    by (simp only: unat_drop_bit_eq) (simp add: drop_bit_eq_div)
  also have "unat (incr + PAGE_LOW_MASK) = unat incr + 4095"
    using assms by (simp add: unat_word_ariths(1))
  finally show ?thesis by (simp add: pages_for_def)
qed

lemma sbrk_grows:
  fixes s :: "'a kheap_scheme"
  assumes "palloc_inv s" "4 * pages_for (unat incr) \<le> free_frames s" "heap_end s AND PAGE_LOW_MASK = 0"
    and "incr \<noteq> 0" "unat incr + 4095 < 2 ^ 64"
  shows "\<exists>t. sbrk incr s = Inr (heap_end s, t) \<and>
    paged (4 * pages_for (unat incr)) (moved_end (pages_for (unat incr)) s) t"
  using sbrk_loop_grows [OF assms(1-3)] assms(4) pages_of_incr [OF assms(5)]
  by (auto simp: sbrk_def Let_def)

section \<open>Allocation from a heap that grows\<close>

text \<open>The state in which \<open>kmalloc\<close> continues after taking the first block from \<open>sbrk\<close>.\<close>

definition first_block :: "u64 \<Rightarrow> 'a kheap_scheme \<Rightarrow> 'a kheap_scheme" where
  "first_block p s = s\<lparr>free_block_list := p,
     vmem := set_next p NULL (set_size p (heap_end s - p) (vmem s))\<rparr>"

lemma kmalloc_empty:
  assumes "free_block_list s = NULL" "sbrk (sz + 8) s = Inr (p, u)" "p \<noteq> NULL"
    and "mmu_total_memory u = mmu_total_memory s" "sz \<le> mmu_total_memory s"
  shows "kmalloc sz s = kmalloc sz (first_block p u)"
proof -
  have "mmu_total_memory (first_block p u) = mmu_total_memory s"
    using assms(4) by (simp add: first_block_def mmu_total_memory_def get_total_memory_def)
  then have "\<not> mmu_total_memory (first_block p u) < sz" "\<not> mmu_total_memory s < sz"
    "free_block_list (first_block p u) = p"
    using assms(5) by (simp_all add: first_block_def)
  then show ?thesis
    using assms(1-3) by (simp add: kmalloc_def [of sz] first_block_def [symmetric] Let_def)
qed

lemma first_block_inv:
  assumes "fits (p, heap_end s - p)"
  shows "heap_inv [(p, heap_end s - p)] (first_block p s)"
  using assms by (simp add: heap_inv_def spaced_def first_block_def heap_block_simps)

lemma size_with_header:
  fixes sz :: u64
  assumes "pages_for (unat sz + 8) * 4096 < 2 ^ 64"
  shows "unat (sz + 8) = unat sz + 8" "unat sz + 8 + 4095 < 2 ^ 64" "sz + 8 \<noteq> 0"
    "unat sz + 8 \<le> pages_for (unat sz + 8) * 4096"
proof -
  show a: "unat sz + 8 \<le> pages_for (unat sz + 8) * 4096"
    using less_pages_for [of "pages_for (unat sz + 8)" "unat sz + 8"] by simp
  then show u: "unat (sz + 8) = unat sz + 8" using assms by (simp add: unat_word_ariths(1))
  have "unat sz + 8 + 4095 < pages_for (unat sz + 8) * 4096 + 4096" using a by simp
  moreover have "pages_for (unat sz + 8) < 2 ^ 52" using assms by simp
  then have "pages_for (unat sz + 8) * 4096 + 4096 \<le> 2 ^ 64" by simp
  ultimately show "unat sz + 8 + 4095 < 2 ^ 64" by (rule less_le_trans)
  show "sz + 8 \<noteq> 0" using u by (metis add_is_0 unat_0 zero_neq_numeral)
qed

text \<open>
  C35: \<open>sbrk\<close> succeeds as long as there are four unused frames for every page it has to add, one for
  the page and up to three for page tables.  It returns the old end of the heap, moves the end
  by whole pages that cover the request, and leaves the free list and all memory outside the
  frame bitmap alone.
\<close>

theorem sbrk_adds_pages:
  fixes s :: "'a kheap_scheme"
  assumes "palloc_inv s" "4 * pages_for (unat incr) \<le> free_frames s" "heap_end s AND PAGE_LOW_MASK = 0"
    and "incr \<noteq> 0" "unat incr + 4095 < 2 ^ 64"
  shows "\<exists>t. sbrk incr s = Inr (heap_end s, t) \<and>
    heap_end t = heap_end s + of_nat (pages_for (unat incr) * 4096) \<and>
    free_block_list t = free_block_list s \<and> palloc_inv t \<and>
    (\<forall>x. \<not> in_range (frames s) 131072 x \<longrightarrow> vmem t x = vmem s x)"
proof -
  obtain t where t: "sbrk incr s = Inr (heap_end s, t)"
    "paged (4 * pages_for (unat incr)) (moved_end (pages_for (unat incr)) s) t"
    using sbrk_grows [OF assms] by blast
  moreover have "\<forall>x. \<not> in_range (frames s) 131072 x \<longrightarrow> vmem t x = vmem s x"
    using t(2) by (simp add: paged_def) (simp add: moved_end_def)
  moreover have "heap_end t = heap_end s + of_nat (pages_for (unat incr) * 4096)"
    "free_block_list t = free_block_list s" "palloc_inv t"
    using paged_heap [OF t(2)] paged_inv [OF t(2)] by (simp_all add: moved_end_def)
  ultimately show ?thesis by blast
qed

text \<open>Page accounting does not look at memory outside the bitmap.\<close>

lemma frames_cong:
  fixes s t :: "'a kheap_scheme"
  assumes "palloc_inv s" "same_kernel s t" "untouched [(p, z)] (vmem s) (vmem t)"
    and "disjoint_ranges p (8 + unat z) (frames s) 131072"
  shows "palloc_inv t" "free_frames t = free_frames s" "frames t = frames s"
proof -
  have t: "t = s\<lparr>vmem := vmem t, free_block_list := free_block_list t\<rparr>" using assms(2) by (simp add: same_kernel_def)
  have f: "frames t = frames s" "frame_count t = frame_count s" "palloc_inv t = palloc_inv s"
    by (subst t, simp add: frame_count_def palloc_inv_def)+
  then show "palloc_inv t" "frames t = frames s" using assms(1) by simp_all
  have m: "managed t = managed s" using f(2) by (simp add: managed_def)
  have "frame_bit t i = frame_bit s i" if "i < managed s" for i
  proof -
    have "i < 2 ^ 20" using that managed_bound [OF assms(1)] by blast
    then have "in_range (frames s) 131072 (frames s + of_nat (i div 8))" by simp
    then have "vmem t (frames s + of_nat (i div 8)) = vmem s (frames s + of_nat (i div 8))"
      using assms(3,4) by (auto simp: untouched_def disjoint_ranges_def)
    then show ?thesis using f(1) by (simp add: frame_bit_def)
  qed
  then have "{..<managed t} - used_frames t = {..<managed s} - used_frames s"
    using m f(2) by (auto simp: used_frames_def managed_def)
  then show "free_frames t = free_frames s" by (simp add: free_frames_def)
qed

text \<open>An allocation on an empty free list.\<close>

lemma kmalloc_first_block:
  fixes s :: "'a kheap_scheme" and sz :: u64
  defines "n \<equiv> pages_for (unat sz + 8)"
  assumes "palloc_inv s" "4 * n \<le> free_frames s" "heap_end s AND PAGE_LOW_MASK = 0" "heap_end s \<noteq> 0"
    and "unat (heap_end s) + 8 + n * 4096 \<le> 2 ^ 64" "8 \<le> unat sz" "sz \<le> mmu_total_memory s"
    and "free_block_list s = NULL"
  obtains t where "kmalloc sz s = Inr (heap_end s + 8, t)"
    "heap_inv (remainder sz (heap_end s, of_nat (n * 4096))) t"
    "block_size (vmem t) (heap_end s) = granted sz (of_nat (n * 4096))"
    "heap_end t = heap_end s + of_nat (n * 4096)" "mmu_total_memory t = mmu_total_memory s"
    "disjoint_ranges (heap_end s) (8 + n * 4096) (frames s) 131072 \<Longrightarrow>
      palloc_inv t \<and> free_frames s \<le> free_frames t + 4 * n \<and> frames t = frames s"
proof -
  let ?p = "heap_end s" and ?z = "of_nat (n * 4096) :: u64"
  have lt: "n * 4096 < 2 ^ 64" using assms(6) by linarith
  note h = size_with_header [of sz, folded n_def, OF lt]
  have z: "unat ?z = n * 4096" using lt by (simp del: of_nat_mult)
  obtain u where u: "sbrk (sz + 8) s = Inr (?p, u)" "paged (4 * n) (moved_end n s) u"
    using sbrk_grows [of s "sz + 8"] assms(2-4) h n_def by auto
  have he: "heap_end u = ?p + ?z" "mmu_total_memory u = mmu_total_memory s" "frames u = frames s"
    using paged_heap [OF u(2)] u(2)
    by (simp_all add: moved_end_def paged_def mmu_total_memory_def get_total_memory_def)
  have more: "free_frames s \<le> free_frames u + 4 * n" using u(2) by (simp add: paged_def)
  let ?u = "first_block ?p u"
  have fits: "fits (?p, ?z)" using assms(5,6,7) z h(4) by (simp del: of_nat_mult)
  then have inv: "heap_inv ([] @ [(?p, ?z)]) ?u" using first_block_inv [of ?p u] he(1) by simp
  have le: "sz \<le> ?z" using h(4) z by (simp add: word_le_nat_alt del: of_nat_mult)
  have tm: "mmu_total_memory ?u = mmu_total_memory s"
    using he(2) by (simp add: first_block_def mmu_total_memory_def get_total_memory_def)
  obtain t where t: "kmalloc sz ?u = Inr (?p + 8, t)" "chain (vmem t) (free_block_list t) (remainder sz (?p, ?z))"
    "block_size (vmem t) ?p = granted sz ?z" "same_kernel ?u t" "untouched [(?p, ?z)] (vmem ?u) (vmem t)"
    using kmalloc_from [of ?u "[]" ?p ?z "[]" sz] inv heap_inv_separate [OF inv] le tm assms(7,8)
    by (auto simp: heap_inv_def)
  have "spaced (remainder sz (?p, ?z))"
    using remainder_spaced(1) [of "[]" ?p ?z "[]" sz] inv assms(7) le by (simp add: heap_inv_def)
  moreover have "kmalloc sz s = Inr (?p + 8, t)"
    using kmalloc_empty [OF assms(9) u(1) assms(5) he(2) assms(8)] t(1) by simp
  moreover have "palloc_inv t \<and> free_frames s \<le> free_frames t + 4 * n \<and> frames t = frames s"
    if d: "disjoint_ranges ?p (8 + n * 4096) (frames s) 131072"
  proof -
    have "untouched [(?p, ?z)] (vmem u) (vmem ?u)"
      unfolding first_block_def using header_extent [OF fits] by (simp, intro untouched_header [of _ _ _ "(?p, ?z)"]) simp_all
    moreover have "same_kernel u ?u" by (simp add: first_block_def)
    ultimately have "palloc_inv ?u" "free_frames ?u = free_frames u" "frames ?u = frames u"
      using frames_cong [OF paged_inv [OF u(2)]] d he(3) z by (metis)+
    then show ?thesis using frames_cong [OF _ t(4,5)] d he(3) more z by metis
  qed
  moreover have "heap_end t = ?p + ?z" "mmu_total_memory t = mmu_total_memory s"
    using same_kernel_fields [OF t(4)] tm he(1) by (simp_all add: first_block_def)
  ultimately show ?thesis using that t(2,3) by (simp add: heap_inv_def)
qed

text \<open>
  C37: The first allocation makes one free block of the pages it gets from \<open>sbrk\<close> and allocates from
  it.  The block's size counts its own header as payload: what is left of it ends 8 bytes
  behind the end of the heap.
\<close>

theorem kmalloc_first_block_overruns:
  fixes s :: "'a kheap_scheme" and sz :: u64
  defines "n \<equiv> pages_for (unat sz + 8)"
  assumes "palloc_inv s" "4 * n \<le> free_frames s" "heap_end s AND PAGE_LOW_MASK = 0" "heap_end s \<noteq> 0"
    and "unat (heap_end s) + 8 + n * 4096 \<le> 2 ^ 64" "8 \<le> unat sz" "sz \<le> mmu_total_memory s"
    and "free_block_list s = NULL"
  shows "\<exists>t. kmalloc sz s = Inr (heap_end s + 8, t) \<and>
    heap_inv (remainder sz (heap_end s, of_nat (n * 4096))) t \<and>
    heap_end t = heap_end s + of_nat (n * 4096) \<and>
    (\<forall>(b, w) \<in> set (remainder sz (heap_end s, of_nat (n * 4096))). b + 8 + w = heap_end t + 8)"
proof -
  obtain t where "kmalloc sz s = Inr (heap_end s + 8, t)"
    "heap_inv (remainder sz (heap_end s, of_nat (n * 4096))) t" "heap_end t = heap_end s + of_nat (n * 4096)"
    using kmalloc_first_block [OF assms(2-9) [unfolded n_def]] unfolding n_def by blast
  then show ?thesis by (auto simp: remainder_def)
qed

lemma seg_cong:
  assumes "\<forall>a \<in> fst ` set bs. \<forall>x. in_range a 16 x \<longrightarrow> m x = m' x"
  shows "seg block_size block_next m p bs q = seg block_size block_next m' p bs q"
proof -
  have "block_size m a = block_size m' a" "block_next m a = block_next m' a" if "a \<in> fst ` set bs" for a
    unfolding block_size_def block_next_def
    using assms that header_parts(1,2) [of a] by (auto intro!: load64_cong)
  then show ?thesis by (induction bs arbitrary: p) auto
qed

text \<open>
  C36: When the free list is not empty and every block on it is too small, \<open>kmalloc\<close> starts a block
  of its own at the end of the heap: the free list is unchanged, and the new block has the size
  asked for.  It lies behind all free blocks exactly when none of them reaches beyond the end of
  the heap, which the block that the first allocation leaves does; \<open>kmalloc\<close> does not check.  An
  empty list takes another path.  The headers of the list must lie outside the bitmap and below
  the end of the heap.
\<close>

theorem kmalloc_extends_heap:
  fixes s :: "'a kheap_scheme" and sz :: u64
  defines "n \<equiv> pages_for (unat sz + 8)"
  assumes "palloc_inv s" "4 * n \<le> free_frames s" "heap_end s AND PAGE_LOW_MASK = 0"
    and "unat (heap_end s) + n * 4096 \<le> 2 ^ 64" "8 \<le> unat sz" "sz \<le> mmu_total_memory s"
    and "heap_inv bs s" "bs \<noteq> []" "\<forall>(b, w) \<in> set bs. w < sz"
    and "\<forall>(b, w) \<in> set bs. disjoint_ranges b 16 (frames s) 131072 \<and> unat b + 16 \<le> unat (heap_end s)"
  shows "\<exists>t. kmalloc sz s = Inr (heap_end s + 8, t) \<and> heap_inv bs t \<and>
    block_size (vmem t) (heap_end s) = sz \<and>
    (spaced (bs @ [(heap_end s, sz)]) \<longleftrightarrow> (\<forall>(b, w) \<in> set bs. unat b + 8 + unat w \<le> unat (heap_end s)))"
proof -
  let ?p = "heap_end s"
  obtain h v bs' where bs: "bs = (h, v) # bs'" using assms(9) by (metis list.exhaust prod.exhaust)
  have head: "free_block_list s = h" "h \<noteq> NULL" "block_size (vmem s) h = v"
    "chain (vmem s) (block_next (vmem s) h) bs'" "\<not> sz \<le> v"
    using assms(8,10) bs by (auto simp: heap_inv_def)
  have "dropWhile (\<lambda>(a, z). z < sz) bs' = []" using assms(10) bs by auto
  then have loop: "first_fit_loop (vmem s) sz h (block_next (vmem s) h) = Some None"
    using first_fit_loop_finds [OF head(4), of sz h] by (simp del: dropWhile_eq_Nil_conv)
  have "unat ?p \<noteq> 0" using assms(11) bs by auto
  then have lt: "n * 4096 < 2 ^ 64" using assms(5) by linarith
  note hd = size_with_header [of sz, folded n_def, OF lt]
  obtain u where u: "sbrk (sz + 8) s = Inr (?p, u)" "paged (4 * n) (moved_end n s) u"
    using sbrk_grows [of s "sz + 8"] assms(2-4) hd n_def by auto
  let ?t = "u\<lparr>vmem := set_next ?p NULL (set_size ?p sz (vmem u))\<rparr>"
  have "\<not> mmu_total_memory s < sz" using assms(7) by simp
  then have k: "kmalloc sz s = Inr (?p + 8, ?t)"
    using head loop u(1) by (simp add: kmalloc_def Let_def)
  have fits: "fits (?p, sz)" using \<open>unat ?p \<noteq> 0\<close> assms(5,6) hd(4) by auto
  have sp: "spaced (bs @ [(?p, sz)]) \<longleftrightarrow> (\<forall>(b, w) \<in> set bs. unat b + 8 + unat w \<le> unat ?p)"
    using fits assms(8) by (auto simp: heap_inv_def spaced_append spaced_Cons spaced_def [of "[]"] simp del: fits.simps)
  have "vmem u x = vmem s x" if "a \<in> fst ` set bs" "in_range a 16 x" for a x
    using u(2) assms(11) that by (fastforce simp: paged_def disjoint_ranges_def moved_end_def)
  then have "chain (vmem u) h bs"
    using assms(8) head(1) seg_cong [of bs "vmem u" "vmem s"] by (simp add: heap_inv_def)
  moreover have "free_block_list ?t = h" using paged_heap [OF u(2)] head(1) by (simp add: moved_end_def)
  moreover have "\<forall>a \<in> fst ` set bs. apart a ?p"
    using assms(11) fits unfolding apart_def by (auto intro!: disjoint_ranges_below)
  ultimately have "heap_inv bs ?t" using assms(8) by (simp add: heap_inv_def heap_block_simps)
  then show ?thesis using k sp by (simp add: heap_block_simps)
qed

section \<open>Concrete heaps\<close>

lemma sample_heap_frames:
  assumes "vmem (sample_heap bs f) KERNEL_HEAP_START = 0" "vmem (sample_heap bs f) (KERNEL_HEAP_START + 1) = 0"
  shows "palloc_inv (sample_heap bs f)" "free_frames (sample_heap bs f) = 16"
    "frames (sample_heap bs f) = KERNEL_HEAP_START"
proof -
  have n: "nframes (sample_heap bs f) = 16" "frames (sample_heap bs f) = KERNEL_HEAP_START"
    by (simp_all add: sample_heap_def sample_mmu_def mmu.defs palloc.defs)
  then show "palloc_inv (sample_heap bs f)" "frames (sample_heap bs f) = KERNEL_HEAP_START"
    by (simp_all add: palloc_inv_def frame_count_def)
  have "used_frames (sample_heap bs f) = {}"
  proof -
    have "\<not> frame_bit (sample_heap bs f) g" if "g < 16" for g
    proof -
      have "g div 8 = 0 \<or> g div 8 = 1" using that by linarith
      then show ?thesis using assms n(2) by (auto simp: frame_bit_def)
    qed
    then show ?thesis using n(1) by (auto simp: used_frames_def frame_count_def)
  qed
  then show "free_frames (sample_heap bs f) = 16"
    using n(1) by (simp add: free_frames_def managed_def frame_count_def)
qed

lemma sample_heap_bitmap:
  "vmem (sample_heap [] (0x30000, 0)) KERNEL_HEAP_START = 0"
  "vmem (sample_heap [] (0x30000, 0)) (KERNEL_HEAP_START + 1) = 0"
  "vmem (sample_heap [(0x10000, 16)] (0x30000, 0)) KERNEL_HEAP_START = 0"
  "vmem (sample_heap [(0x10000, 16)] (0x30000, 0)) (KERNEL_HEAP_START + 1) = 0"
  "vmem (sample_heap [(0x1FF00, 0x100)] (0x30000, 0)) KERNEL_HEAP_START = 0"
  "vmem (sample_heap [(0x1FF00, 0x100)] (0x30000, 0)) (KERNEL_HEAP_START + 1) = 0"
  by (simp_all add: set_size_def set_next_def store64_apply in_range_def)

lemmas sample_heap_empty = sample_heap_frames [OF sample_heap_bitmap(1,2)]
lemmas sample_heap_one = sample_heap_frames [OF sample_heap_bitmap(3,4)]
lemmas sample_heap_over = sample_heap_frames [OF sample_heap_bitmap(5,6)]

theorem sbrk_adds_pages_witness:
  "\<exists>t. sbrk 5000 (sample_heap [] (0x30000, 0)) = Inr (0x20000, t) \<and> heap_end t = 0x22000"
proof -
  have "pages_for (unat (5000 :: u64)) = 2" by (simp add: pages_for_def)
  then show ?thesis
    using sbrk_adds_pages [of "sample_heap [] (0x30000, 0)" 5000] sample_heap_empty
    by (simp del: sample_heap_fields(1)) blast
qed

theorem kmalloc_first_block_overruns_witness:
  "\<exists>t. kmalloc 100 (sample_heap [] (0x30000, 0)) = Inr (0x20008, t) \<and> heap_inv [(0x2006C, 3988)] t \<and>
     heap_end t = 0x21000 \<and> (0x2006C :: u64) + 8 + 3988 = heap_end t + 8"
proof -
  have "pages_for (unat (100 :: u64) + 8) = 1" by (simp add: pages_for_def)
  then show ?thesis
    using kmalloc_first_block_overruns [of "sample_heap [] (0x30000, 0)" 100] sample_heap_empty
    by (simp add: remainder_def del: sample_heap_fields(1))
qed

text \<open>A block that ends before the end of the heap, and one that reaches 8 bytes beyond it.\<close>

theorem kmalloc_extends_heap_witness:
  "(\<exists>t. kmalloc 100 (sample_heap [(0x10000, 16)] (0x30000, 0)) = Inr (0x20008, t) \<and>
     heap_inv [(0x10000, 16)] t \<and> spaced [(0x10000, 16), (0x20000, 100)]) \<and>
   (\<exists>t. kmalloc 600 (sample_heap [(0x1FF00, 0x100)] (0x30000, 0)) = Inr (0x20008, t) \<and>
     heap_inv [(0x1FF00, 0x100)] t \<and> \<not> spaced [(0x1FF00, 0x100), (0x20000, 600)])"
proof -
  have "pages_for (unat (100 :: u64) + 8) = 1" "pages_for (unat (600 :: u64) + 8) = 1"
    by (simp_all add: pages_for_def)
  moreover have "heap_inv [(0x10000, 16)] (sample_heap [(0x10000, 16)] (0x30000, 0))"
    "heap_inv [(0x1FF00, 0x100)] (sample_heap [(0x1FF00, 0x100)] (0x30000, 0))"
    by (rule sample_heap_inv, simp add: spaced_def)+
  moreover have "disjoint_ranges 0x10000 16 KERNEL_HEAP_START 131072" "disjoint_ranges 0x1FF00 16 KERNEL_HEAP_START 131072"
    by (rule disjoint_ranges_below; simp)+
  ultimately show ?thesis
    using kmalloc_extends_heap [of "sample_heap [(0x10000, 16)] (0x30000, 0)" 100 "[(0x10000, 16)]"] sample_heap_one
      kmalloc_extends_heap [of "sample_heap [(0x1FF00, 0x100)] (0x30000, 0)" 600 "[(0x1FF00, 0x100)]"] sample_heap_over
    by (simp del: sample_heap_fields(1)) blast
qed

end
