(* ===== verification/Heap_Safety.thy ===== *)
theory Heap_Safety
  imports Heap_Growth
begin

text \<open>
  What a client of the heap may rely on: any sequence of allocations of at least 8 bytes served from
  the free list, releases of allocated blocks in any order and writes into allocated blocks keeps the allocated
  blocks apart and their contents as written.  The locale \<open>block_allocator\<close> has the contract of
  allocator and client, and is interpreted on \<open>kmalloc\<close> and \<open>kfree\<close>.  At the end: how two
  allocations come to overlap once the heap has to grow.
\<close>

section \<open>Clients of an allocator\<close>

datatype ('n, 'b, 'a, 'v) client_op = Alloc 'n | Release 'b | Put 'a 'v

text \<open>
  A client's run on the allocated blocks, the bytes it has written into them, and the allocator's
  state.  It gives \<open>None\<close> when the client releases or writes what it was not given, asks for what
  the contract does not promise to serve, or when the allocator refuses.
\<close>

fun run_client :: "('n \<Rightarrow> 's \<Rightarrow> bool) \<Rightarrow> ('n \<Rightarrow> 's \<Rightarrow> ('b \<times> 's) option) \<Rightarrow> ('b \<Rightarrow> 's \<Rightarrow> 's option) \<Rightarrow> ('b \<Rightarrow> 'a \<Rightarrow> bool) \<Rightarrow>
    ('a \<Rightarrow> 'v \<Rightarrow> 's \<Rightarrow> 's) \<Rightarrow> ('n, 'b, 'a, 'v) client_op list \<Rightarrow> 'b list \<times> ('a \<Rightarrow> 'v option) \<times> 's \<Rightarrow>
    ('b list \<times> ('a \<Rightarrow> 'v option) \<times> 's) option" where
  "run_client served alloc release owns put [] c = Some c"
| "run_client served alloc release owns put (Alloc n # ops) (live, g, s) =
     (if served n s then
        case alloc n s of None \<Rightarrow> None
        | Some (b, t) \<Rightarrow>
            run_client served alloc release owns put ops (b # live, \<lambda>x. if owns b x then None else g x, t)
      else None)"
| "run_client served alloc release owns put (Release b # ops) (live, g, s) =
     (if b \<in> set live then
        case release b s of None \<Rightarrow> None
        | Some t \<Rightarrow>
            run_client served alloc release owns put ops (remove1 b live, \<lambda>x. if owns b x then None else g x, t)
      else None)"
| "run_client served alloc release owns put (Put x v # ops) (live, g, s) =
     (if \<exists>b \<in> set live. owns b x then
        run_client served alloc release owns put ops (live, g(x \<mapsto> v), put x v s)
      else None)"

text \<open>
  The contract.  \<open>inv live s\<close> says that exactly the blocks \<open>live\<close> are allocated, \<open>served n s\<close> that a
  request \<open>n\<close> is one the allocator promises to serve; the operations leave the bytes of the other allocated blocks alone.
\<close>

locale block_allocator =
  fixes served :: "'n \<Rightarrow> 's \<Rightarrow> bool" and alloc :: "'n \<Rightarrow> 's \<Rightarrow> ('b \<times> 's) option" and release :: "'b \<Rightarrow> 's \<Rightarrow> 's option"
    and owns :: "'b \<Rightarrow> 'a \<Rightarrow> bool" and put :: "'a \<Rightarrow> 'v \<Rightarrow> 's \<Rightarrow> 's" and contents :: "'s \<Rightarrow> 'a \<Rightarrow> 'v"
    and inv :: "'b list \<Rightarrow> 's \<Rightarrow> bool"
  assumes alloc_ok: "inv live s \<Longrightarrow> served n s \<Longrightarrow> \<exists>b t. alloc n s = Some (b, t)"
    and alloc_inv: "inv live s \<Longrightarrow> served n s \<Longrightarrow> alloc n s = Some (b, t) \<Longrightarrow> inv (b # live) t"
    and alloc_keeps: "inv live s \<Longrightarrow> served n s \<Longrightarrow> alloc n s = Some (b, t) \<Longrightarrow> c \<in> set live \<Longrightarrow> owns c x \<Longrightarrow>
      contents t x = contents s x"
    and release_ok: "inv live s \<Longrightarrow> b \<in> set live \<Longrightarrow> \<exists>t. release b s = Some t \<and> inv (remove1 b live) t"
    and release_keeps: "inv live s \<Longrightarrow> b \<in> set live \<Longrightarrow> release b s = Some t \<Longrightarrow>
      c \<in> set (remove1 b live) \<Longrightarrow> owns c x \<Longrightarrow> contents t x = contents s x"
    and put_inv: "inv live s \<Longrightarrow> b \<in> set live \<Longrightarrow> owns b x \<Longrightarrow> inv live (put x v s)"
    and put_contents: "contents (put x v s) = (contents s)(x := v)"
    and apart: "inv live s \<Longrightarrow> b \<in> set live \<Longrightarrow> c \<in> set (remove1 b live) \<Longrightarrow> owns b x \<Longrightarrow> \<not> owns c x"
begin

text \<open>What the client has written lies in its blocks and is there.\<close>

lemma run_client_ok:
  "run_client served alloc release owns put ops (live, g, s) = Some (live', g', s') \<Longrightarrow> inv live s \<Longrightarrow>
     \<forall>x v. g x = Some v \<longrightarrow> (\<exists>b \<in> set live. owns b x) \<and> contents s x = v \<Longrightarrow>
     inv live' s' \<and> (\<forall>x v. g' x = Some v \<longrightarrow> (\<exists>b \<in> set live'. owns b x) \<and> contents s' x = v)"
proof (induction ops arbitrary: live g s)
  case (Cons op ops)
  show ?case
  proof (cases op)
    case (Alloc n)
    then obtain b t where sv: "served n s" and t: "alloc n s = Some (b, t)"
      "run_client served alloc release owns put ops (b # live, \<lambda>x. if owns b x then None else g x, t) =
        Some (live', g', s')" using Cons.prems(1) by (auto split: option.splits if_splits)
    show ?thesis
      by (rule Cons.IH [OF t(2) alloc_inv [OF Cons.prems(2) sv t(1)]])
        (use Cons.prems(3) alloc_keeps [OF Cons.prems(2) sv t(1)] in \<open>auto split: if_splits\<close>)
  next
    case (Release b)
    then obtain t where b: "b \<in> set live" and t: "release b s = Some t"
      "run_client served alloc release owns put ops (remove1 b live, \<lambda>x. if owns b x then None else g x, t) =
        Some (live', g', s')" using Cons.prems(1) by (auto split: option.splits if_splits)
    have inv: "inv (remove1 b live) t" using release_ok [OF Cons.prems(2) b] t(1) by auto
    have "(\<exists>c \<in> set (remove1 b live). owns c x) \<and> contents t x = v" if "\<not> owns b x" "g x = Some v" for x v
    proof -
      obtain c where c: "c \<in> set live" "owns c x" "contents s x = v" using Cons.prems(3) \<open>g x = Some v\<close> by blast
      then have "c \<in> set (remove1 b live)" using \<open>\<not> owns b x\<close> by (metis in_set_remove1)
      then show ?thesis using c release_keeps [OF Cons.prems(2) b t(1)] by auto
    qed
    then show ?thesis using Cons.IH [OF t(2) inv] by (auto split: if_splits)
  next
    case (Put x v)
    then obtain b where b: "b \<in> set live" "owns b x"
      and r: "run_client served alloc release owns put ops (live, g(x \<mapsto> v), put x v s) = Some (live', g', s')"
      using Cons.prems(1) by (auto split: if_splits)
    show ?thesis
      by (rule Cons.IH [OF r put_inv [OF Cons.prems(2) b]]) (use Cons.prems(3) b put_contents in auto)
  qed
qed simp

end

section \<open>The kernel heap as an allocator\<close>

text \<open>
  The blocks \<open>live\<close> are allocated: they overlap neither each other nor the blocks of the free list, in
  whatever order that is, and their size fields hold their sizes.
\<close>

definition heap_live :: "(u64 \<times> u64) list \<Rightarrow> 'a kheap_scheme \<Rightarrow> bool" where
  "heap_live live s \<longleftrightarrow>
     (\<exists>bs. chain (vmem s) (free_block_list s) bs \<and> separate (bs @ live)) \<and>
     (\<forall>(a, z) \<in> set live. block_size (vmem s) a = z)"

text \<open>The bytes a client may use of a block.\<close>

fun payload :: "u64 \<times> u64 \<Rightarrow> u64 \<Rightarrow> bool" where
  "payload (a, z) x = in_range (a + 8) (unat z) x"

text \<open>The search of \<open>kmalloc\<close> would find a block.\<close>

definition has_room :: "u64 \<Rightarrow> 'a kheap_scheme \<Rightarrow> bool" where
  "has_room sz s = (case first_fit_loop (vmem s) sz NULL (free_block_list s) of
     Some (Some _) \<Rightarrow> True | _ \<Rightarrow> False)"

text \<open>
  What the client may ask for: at least 8 bytes, not more than the machine has, and the free list
  has a block for it.  A smaller request can destroy the list (\<open>kmalloc_small_request\<close> below), one
  the list has no block for makes the heap grow.
\<close>

definition heap_served :: "u64 \<Rightarrow> 'a kheap_scheme \<Rightarrow> bool" where
  "heap_served sz s \<longleftrightarrow> 8 \<le> sz \<and> sz \<le> mmu_total_memory s \<and> has_room sz s"

text \<open>\<open>kmalloc\<close> for any request, with the block the pointer it returns belongs to.\<close>

definition heap_alloc :: "u64 \<Rightarrow> 'a kheap_scheme \<Rightarrow> ((u64 \<times> u64) \<times> 'a kheap_scheme) option" where
  "heap_alloc sz s =
     (case kmalloc sz s of
        Inr (p, t) \<Rightarrow> if p = NULL then None else Some ((p - 8, block_size (vmem t) (p - 8)), t)
      | Inl _ \<Rightarrow> None)"

definition heap_release :: "u64 \<times> u64 \<Rightarrow> 'a kheap_scheme \<Rightarrow> 'a kheap_scheme option" where
  "heap_release b s = (case kfree (fst b + 8) s of Inr t \<Rightarrow> Some t | Inl _ \<Rightarrow> None)"

definition heap_put :: "u64 \<Rightarrow> u8 \<Rightarrow> 'a kheap_scheme \<Rightarrow> 'a kheap_scheme" where
  "heap_put x v s = s\<lparr>vmem := (vmem s)(x := v)\<rparr>"

lemma payload_extent: "payload (a, z) x \<Longrightarrow> fits (a, z) \<Longrightarrow> extent (a, z) x \<and> \<not> in_range a 8 x"
proof -
  assume x: "payload (a, z) x" and f: "fits (a, z)"
  have lt: "unat a + 8 < 2 ^ 64" "8 + unat z \<le> 2 ^ 64" using f by auto
  have "unat (a + 8) = unat a + 8" using lt(1) by (simp add: unat_word_ariths(1))
  moreover have "disjoint_ranges a 8 (a + 8) (unat z)"
    using disjoint_ranges_offset [of 8 8 "unat z" a] lt(2) by simp
  ultimately show ?thesis
    using x f inside_range [of "a + 8" "unat z" x a "8 + unat z"] by (auto simp: disjoint_ranges_def)
qed

lemma payload_in_block: "payload b x \<Longrightarrow> fits b \<Longrightarrow> extent b x"
  using payload_extent by (metis prod.exhaust)

lemma live_untouched:
  assumes "separate (bs @ live)" "untouched bs m m'" "c \<in> set live" "extent c x"
  shows "m' x = m x"
proof -
  have "\<not> extent b x" if b: "b \<in> set bs" for b
  proof -
    have "fits b" "fits c" "beside b c"
      using separate_fits [OF assms(1)] assms(1,3) b by (auto simp: separate_append simp del: fits.simps)
    then show ?thesis using beside_extent assms(4) by blast
  qed
  then show ?thesis using assms(2) by (auto simp: untouched_def)
qed

lemma live_sizes:
  assumes "separate (bs @ live)" "untouched bs m m'" "(a, z) \<in> set live"
  shows "block_size m' a = block_size m a"
  unfolding block_size_def
proof (rule load64_cong)
  fix x assume "in_range a 8 x"
  then have "extent (a, z) x" by (auto elim: in_range_mono)
  then show "m' x = m x" by (rule live_untouched [OF assms])
qed

lemma has_room_iff:
  assumes "chain (vmem s) (free_block_list s) bs"
  shows "has_room sz s \<longleftrightarrow> (\<exists>(a, z) \<in> set bs. sz \<le> z)"
proof (cases "dropWhile (\<lambda>(a, z). z < sz) bs")
  case Nil
  then have "\<forall>(a, z) \<in> set bs. z < sz" by (simp only: dropWhile_eq_Nil_conv)
  then show ?thesis unfolding has_room_def first_fit_loop_finds [OF assms] Nil by auto
next
  case (Cons b cs)
  have "b \<in> set bs" using set_dropWhileD [of b "\<lambda>(a, z). z < sz" bs] by (simp add: Cons)
  moreover have "\<not> (\<lambda>(a, z). z < sz) b" using Cons by (simp add: dropWhile_eq_Cons_conv)
  ultimately show ?thesis
    unfolding has_room_def first_fit_loop_finds [OF assms] Cons by (auto simp: not_less split: prod.splits)
qed

lemma first_fit_split:
  assumes "\<exists>(a, z) \<in> set bs. (sz :: u64) \<le> z"
  obtains xs a z ys where "bs = xs @ (a, z) # ys" "\<forall>(b, w) \<in> set xs. w < sz" "sz \<le> z"
proof -
  obtain xs y ys where "bs = xs @ y # ys" "(\<lambda>(a, z). sz \<le> z) y" "\<forall>x \<in> set xs. \<not> (\<lambda>(a, z). sz \<le> z) x"
    using split_list_first_prop [of bs "\<lambda>(a, z). sz \<le> z"] assms by blast
  then show ?thesis by (intro that [of xs "fst y" "snd y" ys]) (auto simp: case_prod_unfold)
qed

lemma kmalloc_live:
  fixes s :: "'a kheap_scheme"
  assumes "heap_live live s" "8 \<le> sz" "sz \<le> mmu_total_memory s" "has_room sz s"
  shows "\<exists>a g t. kmalloc sz s = Inr (a + 8, t) \<and> a + 8 \<noteq> NULL \<and> block_size (vmem t) a = g \<and> sz \<le> g \<and>
    heap_live ((a, g) # live) t \<and> mmu_total_memory t = mmu_total_memory s \<and>
    (\<forall>c \<in> set live. \<forall>x. extent c x \<longrightarrow> vmem t x = vmem s x)"
proof -
  obtain bs where bs: "chain (vmem s) (free_block_list s) bs" "separate (bs @ live)"
    and sizes: "\<forall>(a, z) \<in> set live. block_size (vmem s) a = z" using assms(1) by (auto simp: heap_live_def)
  obtain xs a z ys where split: "bs = xs @ (a, z) # ys" "\<forall>(b, w) \<in> set xs. w < sz" "sz \<le> z"
    using first_fit_split assms(4) has_room_iff [OF bs(1)] by metis
  have 8: "8 \<le> unat sz" using assms(2) by (simp add: word_le_nat_alt)
  have "separate (xs @ (a, z) # ys)" using bs(2) unfolding split(1) by (simp add: separate_append)
  from kmalloc_from [OF bs(1) [unfolded split(1)] this split(2,3) 8 assms(3)]
  obtain t where t: "kmalloc sz s = Inr (a + 8, t)"
    "chain (vmem t) (free_block_list t) (xs @ remainder sz (a, z) @ ys)"
    "block_size (vmem t) a = granted sz z" "same_kernel s t" "untouched bs (vmem s) (vmem t)"
    unfolding split(1) by blast
  have "separate (xs @ (a, granted sz z) # remainder sz (a, z) @ ys @ live)"
    using remainder_separate [of xs a z "ys @ live" sz] bs(2) 8 split by simp
  then have "separate ((xs @ remainder sz (a, z) @ ys) @ (a, granted sz z) # live)"
    by (simp only: separate_move) (simp add: separate_move del: fits.simps)
  moreover have "\<forall>(b, w) \<in> set live. block_size (vmem t) b = w"
    using sizes live_sizes [OF bs(2) t(5)] by auto
  ultimately have "heap_live ((a, granted sz z) # live) t"
    unfolding heap_live_def using t(2,3) by (intro conjI exI) (assumption+, simp)
  moreover have "sz \<le> granted sz z" using split(3) by (simp add: granted_def)
  moreover have "a + 8 \<noteq> NULL"
  proof -
    have "fits (a, z)" using separate_fits [OF bs(2)] split(1) by (simp del: fits.simps)
    then have "unat (a + 8) = unat a + 8" by (simp add: unat_word_ariths(1))
    then show ?thesis by (metis add_is_0 unat_0 zero_neq_numeral)
  qed
  ultimately show ?thesis
    using t(1,3) same_kernel_fields(2) [OF t(4)] live_untouched [OF bs(2) t(5)] by blast
qed

lemma kfree_live:
  fixes s :: "'a kheap_scheme"
  assumes "heap_live live s" "(a, z) \<in> set live"
  shows "\<exists>t. kfree (a + 8) s = Inr t \<and> heap_live (remove1 (a, z) live) t \<and> mmu_total_memory t = mmu_total_memory s \<and>
    (\<forall>c \<in> set (remove1 (a, z) live). \<forall>x. extent c x \<longrightarrow> vmem t x = vmem s x)"
proof -
  obtain us ws where live: "live = us @ (a, z) # ws" "remove1 (a, z) live = us @ ws"
    using split_list_first [OF assms(2)] by (auto simp: remove1_append)
  let ?ls = "us @ ws"
  obtain bs where bs: "chain (vmem s) (free_block_list s) bs" "separate (bs @ live)"
    and sizes: "\<forall>(a, z) \<in> set live. block_size (vmem s) a = z" using assms(1) by (auto simp: heap_live_def)
  have sep: "separate (((a, z) # bs) @ ?ls)"
    using bs(2) separate_move [of "bs @ us" "(a, z)" ws] unfolding live(1) by simp
  then have "separate ((a, z) # bs)" by (simp add: separate_append)
  moreover have "block_size (vmem s) a = z" using sizes assms(2) by auto
  ultimately obtain t where t: "kfree (a + 8) s = Inr t" "chain (vmem t) (free_block_list t) (free_into (a, z) bs)"
    "same_kernel s t" "untouched ((a, z) # bs) (vmem s) (vmem t)" using kfree_into [OF bs(1)] by blast
  have "separate (free_into (a, z) bs @ ?ls)" using sep by (intro free_into_separate) simp
  moreover have "\<forall>(b, w) \<in> set ?ls. block_size (vmem t) b = w"
  proof -
    have "block_size (vmem t) b = w" if "(b, w) \<in> set ?ls" for b w
      using live_sizes [OF sep t(4) that] bspec [OF sizes [unfolded live(1)], of "(b, w)"] that by auto
    then show ?thesis by blast
  qed
  ultimately have "heap_live ?ls t" using t(2) unfolding heap_live_def by blast
  then show ?thesis
    unfolding live(2) using t(1) same_kernel_fields(2) [OF t(3)] live_untouched [OF sep t(4)] by blast
qed

lemma put_live:
  fixes s :: "'a kheap_scheme"
  assumes "heap_live live s" "c \<in> set live" "payload c x"
  shows "heap_live live (heap_put x v s)"
proof -
  obtain a z where c: "c = (a, z)" by (cases c)
  obtain bs where bs: "chain (vmem s) (free_block_list s) bs" "separate (bs @ live)"
    and sizes: "\<forall>(a, z) \<in> set live. block_size (vmem s) a = z" using assms(1) by (auto simp: heap_live_def)
  have fits: "fits c" using separate_fits [OF bs(2)] assms(2) by simp
  have x: "extent c x" "\<not> in_range a 8 x" using payload_extent assms(3) fits unfolding c by blast+
  let ?m = "(vmem s)(x := v)"
  obtain us ws where live: "live = us @ c # ws" using split_list [OF assms(2)] by blast
  then have sep: "separate (c # bs @ us @ ws)"
    using bs(2) separate_move [of "bs @ us" c ws] by simp
  have un: "\<not> extent d x" if "d \<in> set (bs @ us @ ws)" for d
  proof -
    have "beside c d" "fits d" using sep that separate_fits [OF sep, of d] by auto
    then show ?thesis using beside_extent fits x(1) by blast
  qed
  have "\<not> in_range b 16 x" if b: "b \<in> fst ` set bs" for b
  proof -
    obtain w where "(b, w) \<in> set bs" using b by auto
    then show ?thesis using un [of "(b, w)"] separate_fits [OF bs(2), of "(b, w)"] header_extent by auto
  qed
  then have "chain ?m (free_block_list s) bs" using bs(1) seg_cong [of bs ?m "vmem s"] by auto
  moreover have "block_size ?m b = w" if "(b, w) \<in> set live" for b w
  proof (cases "(b, w) = c")
    case True
    then have "block_size ?m b = block_size (vmem s) b"
      using x(2) unfolding c block_size_def by (intro load64_cong) auto
    then show ?thesis using sizes that by auto
  next
    case False
    then have "(b, w) \<in> set (bs @ us @ ws)" using that live by auto
    then have "\<not> in_range b 8 x" using un in_range_mono [of b 8 x "8 + unat w"] by fastforce
    then have "block_size ?m b = block_size (vmem s) b"
      unfolding block_size_def by (intro load64_cong) auto
    then show ?thesis using sizes that by auto
  qed
  ultimately show ?thesis using bs(2) by (auto simp: heap_live_def heap_put_def)
qed

lemma heap_live_fits: "heap_live live s \<Longrightarrow> c \<in> set live \<Longrightarrow> fits c"
  using separate_fits unfolding heap_live_def by (metis UnCI set_append)

lemma live_apart:
  assumes "heap_live live s" "b \<in> set live" "c \<in> set (remove1 b live)" "payload b x"
  shows "\<not> payload c x"
proof -
  obtain us ws where live: "live = us @ b # ws" "remove1 b live = us @ ws"
    using split_list_first [OF assms(2)] by (auto simp: remove1_append)
  obtain bs where "separate (bs @ live)" using assms(1) by (auto simp: heap_live_def)
  then have sep: "separate (b # us @ ws)"
    unfolding live(1) separate_append [of bs] separate_move [of us b ws, symmetric] by blast
  then have "fits b" "fits c" "beside b c" using assms(3) live(2) separate_fits [OF sep, of c] by auto
  then show ?thesis using beside_extent payload_in_block assms(4) by blast
qed

lemma heap_alloc_live:
  fixes s :: "'a kheap_scheme"
  assumes "heap_live live s" "heap_served sz s"
  shows "\<exists>b t. heap_alloc sz s = Some (b, t) \<and> heap_live (b # live) t \<and>
    (\<forall>c \<in> set live. \<forall>x. extent c x \<longrightarrow> vmem t x = vmem s x)"
proof -
  obtain a g t where "kmalloc sz s = Inr (a + 8, t)" "a + 8 \<noteq> NULL" "block_size (vmem t) a = g"
    "heap_live ((a, g) # live) t" "\<forall>c \<in> set live. \<forall>x. extent c x \<longrightarrow> vmem t x = vmem s x"
    using kmalloc_live [OF assms(1)] assms(2) unfolding heap_served_def by blast
  then show ?thesis by (intro exI [of _ "(a, g)"] exI [of _ t]) (simp add: heap_alloc_def)
qed

interpretation kernel_heap: block_allocator heap_served heap_alloc heap_release payload heap_put vmem heap_live
proof unfold_locales
  fix live :: "(u64 \<times> u64) list" and s t :: "'a kheap_scheme" and n :: u64 and b c :: "u64 \<times> u64" and x :: u64 and v :: u8
  assume inv: "heap_live live s"
  {
    assume served: "heap_served n s"
    from heap_alloc_live [OF inv this] obtain b' u where
      u: "heap_alloc n s = Some (b', u)" "heap_live (b' # live) u"
      "\<forall>c \<in> set live. \<forall>x. extent c x \<longrightarrow> vmem u x = vmem s x" by blast
    then show "\<exists>b t. heap_alloc n s = Some (b, t)" by blast
    assume al: "heap_alloc n s = Some (b, t)"
    then show "heap_live (b # live) t" using u(1,2) by simp
    have fits: "c \<in> set live \<Longrightarrow> fits c" by (rule heap_live_fits [OF inv])
    assume "c \<in> set live" "payload c x"
    then show "vmem t x = vmem s x" using u(1,3) al fits payload_in_block by auto
  next
    assume b: "b \<in> set live"
    obtain u where u: "kfree (fst b + 8) s = Inr u" "heap_live (remove1 b live) u"
      "\<forall>c \<in> set (remove1 b live). \<forall>x. extent c x \<longrightarrow> vmem u x = vmem s x"
      using kfree_live [OF inv, of "fst b" "snd b"] b by auto
    then show "\<exists>t. heap_release b s = Some t \<and> heap_live (remove1 b live) t" by (simp add: heap_release_def)
    have fits: "c \<in> set (remove1 b live) \<Longrightarrow> fits c" by (rule heap_live_fits [OF u(2)])
    assume "heap_release b s = Some t" "c \<in> set (remove1 b live)" "payload c x"
    then show "vmem t x = vmem s x" using u fits payload_in_block by (auto simp: heap_release_def)
  next
    assume "b \<in> set live" "payload b x"
    then show "heap_live live (heap_put x v s)" using put_live inv by blast
  next
    assume "b \<in> set live" "c \<in> set (remove1 b live)" "payload b x"
    then show "\<not> payload c x" using live_apart inv by blast
  }
qed (simp add: heap_put_def)

section \<open>Properties\<close>

text \<open>
  C13: Allocated memory belongs to the client.  On any free list whose blocks do not overlap, ordered or
  not, let a client perform any sequence of allocations, releases in any order and writes into
  allocated blocks in which every request is for at least 8 bytes, not more than the machine's
  memory, and has a large enough block on the list at that moment.  Then allocated blocks never
  overlap, every byte written into one reads back until the block is released, \<open>kmalloc\<close> serves
  every further such request, and \<open>kfree\<close> returns for every allocated block.  Requests of fewer
  than 8 bytes are outside: \<open>kmalloc\<close> serves them too, but may destroy the free list.
\<close>

theorem heap_contents_kept:
  fixes s :: "'a kheap_scheme"
  assumes "heap_live old s"
    and "run_client heap_served heap_alloc heap_release payload heap_put ops (old, \<lambda>_. None, s) = Some (live, g, t)"
  shows "(\<forall>x v. g x = Some v \<longrightarrow> (\<exists>b \<in> set live. payload b x) \<and> vmem t x = v) \<and>
    (\<forall>b \<in> set live. \<forall>c \<in> set (remove1 b live). \<forall>x. payload b x \<longrightarrow> \<not> payload c x) \<and>
    (\<forall>b \<in> set live. heap_release b t \<noteq> None) \<and>
    (\<forall>sz. heap_served sz t \<longrightarrow> heap_alloc sz t \<noteq> None)"
proof -
  have r: "heap_live live t" "\<forall>x v. g x = Some v \<longrightarrow> (\<exists>b \<in> set live. payload b x) \<and> vmem t x = v"
    using kernel_heap.run_client_ok [OF assms(2,1)] by simp_all
  moreover have "heap_alloc sz t \<noteq> None" if "heap_served sz t" for sz
    using kernel_heap.alloc_ok [OF r(1) that] by auto
  moreover have "heap_release b t \<noteq> None" if "b \<in> set live" for b
    using kernel_heap.release_ok [OF r(1) that] by auto
  ultimately show ?thesis using kernel_heap.apart [OF r(1)] by blast
qed

text \<open>
  A request of 4 bytes on a list of one block: \<open>kmalloc\<close> returns a block, and the list it leaves has an
  empty first block that points to an address no block was ever at.
\<close>

lemma kmalloc_small_request:
  "\<exists>t. kmalloc 4 (sample_heap [(0x11000, 100)] (0x20000, 0)) = Inr (0x11008, t) \<and>
     free_block_list t = 0x1100C \<and> block_size (vmem t) 0x1100C = 0 \<and> block_next (vmem t) 0x1100C = 0x5800000000"
proof -
  let ?s = "sample_heap [(0x11000, 100)] (0x20000, 0)"
  have size: "block_size (vmem ?s) 0x11000 = 100"
    by (simp add: block_size_def set_size_def set_next_def mem_eval)
  have "kmalloc 4 ?s = (let (nxt, m) = split_block 0x11000 4 (vmem ?s) in Inr (0x11008, ?s\<lparr>free_block_list := nxt, vmem := m\<rparr>))"
    using size unfolding kmalloc_def by (simp add: Let_def)
  moreover have "fst (split_block 0x11000 4 (vmem ?s)) = 0x1100C"
    using size by (simp add: split_block_def Let_def)
  moreover have "block_size (snd (split_block 0x11000 4 (vmem ?s))) 0x1100C = 0"
    "block_next (snd (split_block 0x11000 4 (vmem ?s))) 0x1100C = 0x5800000000"
    using size by (simp_all add: split_block_def Let_def block_size_def block_next_def set_size_def set_next_def mem_eval)
  ultimately show ?thesis by (simp add: case_prod_unfold)
qed

lemma heap_inv_live: "heap_inv bs s \<Longrightarrow> heap_live [] s"
  using spaced_separate by (auto simp: heap_inv_def heap_live_def)

lemma heap_alloc_ordered:
  fixes s :: "'a kheap_scheme"
  assumes "heap_inv (xs @ (a, z) # ys) s" "\<forall>(b, w) \<in> set xs. w < sz" "sz \<le> z" "8 \<le> sz" "sz \<le> mmu_total_memory s"
  shows "heap_served sz s"
    and "\<exists>t. heap_alloc sz s = Some ((a, granted sz z), t) \<and> heap_inv (xs @ remainder sz (a, z) @ ys) t"
proof -
  have "has_room sz s"
    using has_room_iff [of s "xs @ (a, z) # ys" sz] assms(1,3) by (auto simp: heap_inv_def)
  then show served: "heap_served sz s" using assms(4,5) by (simp add: heap_served_def)
  have "8 \<le> unat sz" using assms(4) by (simp add: word_le_nat_alt)
  from kmalloc_ordered [OF assms(1-3) this assms(5)]
  obtain t where t: "kmalloc sz s = Inr (a + 8, t)" "heap_inv (xs @ remainder sz (a, z) @ ys) t"
    "block_size (vmem t) a = granted sz z" by blast
  moreover have "a + 8 \<noteq> NULL"
    using heap_alloc_live [OF heap_inv_live [OF assms(1)] served] t(1) by (auto simp: heap_alloc_def split: if_splits)
  ultimately show "\<exists>t. heap_alloc sz s = Some ((a, granted sz z), t) \<and> heap_inv (xs @ remainder sz (a, z) @ ys) t"
    by (simp add: heap_alloc_def)
qed

theorem heap_contents_kept_witness:
  "\<exists>t. run_client heap_served heap_alloc heap_release payload heap_put [Alloc 32, Put 0x11008 7]
       ([], \<lambda>_. None, sample_heap [(0x10000, 16), (0x11000, 100), (0x12000, 200)] (0x20000, 0)) =
         Some ([(0x11000, 32)], [0x11008 \<mapsto> 7], t) \<and> vmem t 0x11008 = 7 \<and> heap_release (0x11000, 32) t \<noteq> None"
proof -
  let ?s = "sample_heap [(0x10000, 16), (0x11000, 100), (0x12000, 200)] (0x20000, 0)"
  have inv: "heap_inv ([(0x10000, 16)] @ (0x11000, 100) # [(0x12000, 200)]) ?s"
    using sample_heap_inv [OF sample_blocks(1)] by simp
  obtain t where "heap_served 32 ?s" "heap_alloc 32 ?s = Some ((0x11000, 32), t)"
    using heap_alloc_ordered [OF inv, of 32] by (auto simp: granted_def)
  then have "run_client heap_served heap_alloc heap_release payload heap_put [Alloc 32, Put 0x11008 7] ([], \<lambda>_. None, ?s) =
      Some ([(0x11000, 32)], [0x11008 \<mapsto> 7], heap_put 0x11008 7 t)"
    by (simp add: in_range_def fun_eq_iff)
  then show ?thesis
    using heap_contents_kept [OF heap_inv_live [OF inv], of "[Alloc 32, Put 0x11008 7]"] by fastforce
qed

text \<open>
  C33: Two allocations overlap once the heap has grown twice.  The first allocation leaves a free
  block that is recorded as reaching 8 bytes beyond the end of the heap; when a second allocation
  takes that block, the header of the third, which starts at the end of the heap, lies inside the
  second one's payload and overwrites its last 8 bytes with a size.
\<close>

theorem kmalloc_overlapping_blocks:
  fixes s :: "'a kheap_scheme" and sz sz' :: u64
  defines "n \<equiv> pages_for (unat sz + 8)" and "k \<equiv> pages_for (unat sz' + 8)"
  assumes "palloc_inv s" "4 * n + 4 * k \<le> free_frames s" "heap_end s AND PAGE_LOW_MASK = 0" "heap_end s \<noteq> 0"
    and "unat (heap_end s) + 8 + (n + k) * 4096 \<le> 2 ^ 64" "free_block_list s = NULL"
    and "disjoint_ranges (heap_end s) (8 + n * 4096) (frames s) 131072"
    and "8 \<le> unat sz" "sz \<le> mmu_total_memory s" "8 \<le> unat sz'" "sz' \<le> mmu_total_memory s"
    and "remainder sz (heap_end s, of_nat (n * 4096)) = [(b, w)]" "w \<le> mmu_total_memory s"
  shows "\<exists>t u v. kmalloc sz s = Inr (heap_end s + 8, t) \<and> kmalloc w t = Inr (b + 8, u) \<and>
    kmalloc sz' u = Inr (heap_end u + 8, v) \<and> (\<forall>x. in_range (heap_end u) 8 x \<longrightarrow> payload (b, w) x) \<and>
    block_size (vmem v) (heap_end u) = granted sz' (of_nat (k * 4096))"
proof -
  let ?p = "heap_end s" and ?z = "of_nat (n * 4096) :: u64"
  have le: "unat ?p + 8 + n * 4096 \<le> 2 ^ 64" "4 * n \<le> free_frames s" using assms(4,7) by (auto simp: algebra_simps)
  have z: "unat ?z = n * 4096" using le(1) by (simp del: of_nat_mult)
  obtain t where t: "kmalloc sz s = Inr (?p + 8, t)" "heap_inv [(b, w)] t" "heap_end t = ?p + ?z"
    "mmu_total_memory t = mmu_total_memory s"
    "palloc_inv t" "free_frames s \<le> free_frames t + 4 * n" "frames t = frames s"
    using kmalloc_first_block [OF assms(3) le(2) [unfolded n_def] assms(5,6) le(1) [unfolded n_def] assms(10,11,8)]
      assms(9,14) unfolding n_def by metis
  have big: "16 < ?z - sz" "b = ?p + 8 + sz" "w = ?z - sz - 8"
    using assms(14) by (auto simp: remainder_def simp del: of_nat_mult split: if_splits)
  have "fits (?p, ?z)" using assms(6) le(1) z less_pages_for [of n "unat sz + 8"] assms(10)
    by (simp add: n_def del: of_nat_mult)
  moreover have "sz \<le> ?z" using less_pages_for [of n "unat sz + 8"] z by (simp add: n_def word_le_nat_alt del: of_nat_mult)
  ultimately have r: "unat b = unat ?p + 8 + unat sz" "unat w = n * 4096 - unat sz - 8" "unat sz + 16 < n * 4096"
    using rem_block_facts [of ?p ?z sz] assms(10) big z by simp_all
  have w8: "8 \<le> unat w" using r by linarith
  obtain u where u: "kmalloc w t = Inr (b + 8, u)" "chain (vmem u) (free_block_list u) []"
    "same_kernel t u" "untouched [(b, w)] (vmem t) (vmem u)"
    using kmalloc_from [of t "[]" b w "[]" w] t(2,4) heap_inv_separate [OF t(2)] w8 assms(15)
    by (auto simp: heap_inv_def remainder_def)
  have hu: "heap_end u = ?p + ?z" "mmu_total_memory u = mmu_total_memory s"
    using same_kernel_fields [OF u(3)] t(3,4) by simp_all
  have pu: "unat (heap_end u) = unat ?p + n * 4096"
    using hu(1) le(1) z by (simp add: unat_word_ariths(1) del: of_nat_mult)
  have "disjoint_ranges b (8 + unat w) (frames t) 131072"
    using assms(9) t(7) r le(1) inside_range [of b "8 + unat w" _ ?p "8 + n * 4096"]
    unfolding disjoint_ranges_def by auto
  then have fu: "palloc_inv u" "free_frames u = free_frames t" using frames_cong [OF t(5) u(3,4)] by simp_all
  have au: "heap_end u AND PAGE_LOW_MASK = 0" using assms(5) pu by (simp add: aligned_iff)
  have "unat ?p \<noteq> 0" using assms(6) by (simp only: unat_eq_zero not_False_eq_True)
  then have "heap_end u \<noteq> 0" using pu by (metis add_is_0 unat_0)
  moreover have "4 * k \<le> free_frames u" "unat (heap_end u) + 8 + k * 4096 \<le> 2 ^ 64"
    using fu(2) t(6) assms(4,6,7) pu by (auto simp: algebra_simps)
  ultimately obtain v where v: "kmalloc sz' u = Inr (heap_end u + 8, v)"
    "block_size (vmem v) (heap_end u) = granted sz' (of_nat (k * 4096))"
    using kmalloc_first_block [OF fu(1) _ au _ _ assms(12)] u(2) hu(2) assms(13) unfolding k_def
    by (metis seg.simps(1))
  have "unat (b + 8) = unat b + 8" using r le(1) by (simp add: unat_word_ariths(1))
  then have "payload (b, w) x" if "in_range (heap_end u) 8 x" for x
    using inside_range [OF that, of "b + 8" "unat w"] r le(1) pu by simp
  then show ?thesis using t(1) u(1) v by blast
qed

theorem kmalloc_overlapping_blocks_witness:
  "\<exists>t u v. kmalloc 100 (sample_heap [] (0x30000, 0)) = Inr (0x20008, t) \<and> kmalloc 3988 t = Inr (0x20074, u) \<and>
     kmalloc 16 u = Inr (heap_end u + 8, v) \<and> (\<forall>x. in_range (heap_end u) 8 x \<longrightarrow> payload (0x2006C, 3988) x)"
proof -
  have "pages_for (unat (100 :: u64) + 8) = 1" "pages_for (unat (16 :: u64) + 8) = 1" by (simp_all add: pages_for_def)
  moreover have "disjoint_ranges 0x20000 4104 KERNEL_HEAP_START 131072" by (rule disjoint_ranges_below) simp_all
  ultimately show ?thesis
    using kmalloc_overlapping_blocks [of "sample_heap [] (0x30000, 0)" 100 16 "0x2006C" 3988] sample_heap_empty
    by (simp add: remainder_def del: sample_heap_fields(1)) blast
qed

end
