(* ===== verification/Mmu_Init.thy ===== *)
theory Mmu_Init
  imports Heap_Growth
begin

text \<open>
  Setting up paging, \<open>mmu_init\<close> of \<^verbatim>\<open>src/arch/x86_64/mm/mm.c\<close>, and its page fault handler.
  The linker decides where the page tables of the kernel lie; their addresses are the record
  \<open>table_layout\<close>, a parameter.  So is the address of the function's own parameter \<open>kernel_end\<close>,
  which the code takes.
\<close>

section \<open>The static page tables\<close>

abbreviation KERNEL_PML_ACCESS :: u64 where "KERNEL_PML_ACCESS \<equiv> 0x03"
abbreviation USER_PML_ACCESS :: u64 where "USER_PML_ACCESS \<equiv> 0x07"
abbreviation LARGE_PAGE_BIT :: u64 where "LARGE_PAGE_BIT \<equiv> 0x80"
abbreviation LARGE_PAGE_SIZE :: u64 where "LARGE_PAGE_SIZE \<equiv> 0x200000"

record table_layout =
  high_base_pml4 :: u64
  high_base_pml3 :: u64
  high_base_pml2s :: u64
  low_base_pml4s :: u64
  low_base_pml2s :: u64
  heap_base_pml3 :: u64
  heap_base_pml2 :: u64
  heap_base_pml1 :: u64

text \<open>Row \<open>i\<close> of an array of tables with 512 entries each.\<close>

definition row :: "u64 \<Rightarrow> nat \<Rightarrow> u64" where
  "row table i = table + of_nat (i * 4096)"

definition put_entry :: "u64 \<Rightarrow> nat \<Rightarrow> u64 \<Rightarrow> 'a mmu_scheme \<Rightarrow> 'a mmu_scheme" where
  "put_entry table idx e s = pml_store (entry_at table (of_nat idx)) e s"

section \<open>Initialisation\<close>

definition map_high :: "table_layout \<Rightarrow> 'a mmu_scheme \<Rightarrow> 'a mmu_scheme" where
  "map_high L s =
     fold (\<lambda>i s.
         let s = put_entry (high_base_pml3 L) i (row (high_base_pml2s L) i OR KERNEL_PML_ACCESS) s
         in fold (\<lambda>j. put_entry (row (high_base_pml2s L) i) j
              ((push_bit 30 (of_nat i) + push_bit 21 (of_nat j)) OR LARGE_PAGE_BIT OR KERNEL_PML_ACCESS))
              [0..<512] s)
       [0..<64] s"

text \<open>There are 32 tables for the low map; the loop may ask for more.\<close>

definition map_low :: "table_layout \<Rightarrow> u64 \<Rightarrow> 'a mmu_scheme \<Rightarrow> 'a mmu_scheme result" where
  "map_low L pml2_count s =
     (if 32 < pml2_count then Inl OutOfBounds
      else Inr (fold (\<lambda>j s.
         let s = put_entry (row (low_base_pml4s L) 1) j (row (low_base_pml2s L) j OR KERNEL_PML_ACCESS) s
         in fold (\<lambda>i. put_entry (row (low_base_pml2s L) j) i
              ((LARGE_PAGE_SIZE * of_nat j + PAGE_SIZE * of_nat i) OR KERNEL_PML_ACCESS))
              [0..<512] s)
       [0..<unat pml2_count] s))"

text \<open>\<open>heap_base_pml1\<close> has \<open>3 * 512\<close> entries.\<close>

definition map_metadata :: "table_layout \<Rightarrow> u64 \<Rightarrow> u64 \<Rightarrow> 'a mmu_scheme \<Rightarrow> 'a mmu_scheme result" where
  "map_metadata L first_free_page metadata_pages s =
     (if 1536 < metadata_pages then Inl OutOfBounds
      else Inr (fold (\<lambda>i. put_entry (heap_base_pml1 L) i
             ((first_free_page + push_bit 12 (of_nat i)) OR KERNEL_PML_ACCESS))
           [0..<unat metadata_pages] s))"

definition low_pml2_count :: "u64 \<Rightarrow> u64" where
  "low_pml2_count kernel_end_addr =
     (let end_pml1r = (kernel_end_addr + PAGE_LOW_MASK) AND PAGE_SIZE_MASK;
          low_pages = drop_bit PAGE_SHIFT end_pml1r;
          low_pages = (low_pages + PAGE_LOW_MASK) AND NOT PAGE_LOW_MASK
      in drop_bit 9 (low_pages + PML_ENTRY_MASK))"

definition mmu_init ::
  "table_layout \<Rightarrow> u64 \<Rightarrow> u64 \<Rightarrow> u64 \<Rightarrow> 'a kheap_scheme \<Rightarrow> 'a kheap_scheme result" where
  "mmu_init L kernel_end_addr memsize kernel_end s =
     (let s = s\<lparr>current_pml4 := high_base_pml4 L\<rparr>;
          s = put_entry (high_base_pml4 L) 511 (high_base_pml3 L OR KERNEL_PML_ACCESS) s;
          s = put_entry (high_base_pml4 L) 510 (heap_base_pml3 L OR KERNEL_PML_ACCESS) s;
          s = map_high L s;
          s = put_entry (row (low_base_pml4s L) 0) 0 (row (low_base_pml4s L) 1 OR USER_PML_ACCESS) s
      in rbind (map_low L (low_pml2_count kernel_end_addr) s) (\<lambda>s.
        let s = put_entry (row (low_base_pml2s L) 0) 0 0 s;
            s = put_entry (high_base_pml4 L) 0 (row (low_base_pml4s L) 0 OR USER_PML_ACCESS) s;
            s = mmu_set_directory (high_base_pml4 L) (current_pml4 s) s;
            s = s\<lparr>current_pml4 := mmu_to_virt (current_pml4 s)\<rparr>;
            s = put_entry (heap_base_pml3 L) 0 (heap_base_pml2 L OR KERNEL_PML_ACCESS) s;
            s = put_entry (heap_base_pml2 L) 0 (row (heap_base_pml1 L) 0 OR KERNEL_PML_ACCESS) s;
            s = put_entry (heap_base_pml2 L) 1 (row (heap_base_pml1 L) 1 OR KERNEL_PML_ACCESS) s;
            s = put_entry (heap_base_pml2 L) 2 (row (heap_base_pml1 L) 2 OR KERNEL_PML_ACCESS) s;
            first_free_page = (kernel_end + PAGE_LOW_MASK) AND PAGE_SIZE_MASK;
            metadata_bytes = metadata_size memsize;
            metadata_pages = drop_bit PAGE_SHIFT ((metadata_bytes + PAGE_LOW_MASK) AND PAGE_SIZE_MASK)
        in rbind (map_metadata L first_free_page metadata_pages s) (\<lambda>s.
           rbind (page_allocator_init first_free_page memsize s) (\<lambda>s.
           rbind (kheap_allocator_init (KERNEL_HEAP_START + metadata_pages * PAGE_SIZE) s) (\<lambda>s.
             Inr (irq_set_handler 0x0E Page_fault_handler s))))))"

section \<open>Page faults\<close>

text \<open>The saved registers a handler gets, \<^verbatim>\<open>src/include/arch/x86_64/regs.h\<close>.\<close>

record regs =
  r15 :: u64  r14 :: u64  r13 :: u64  r12 :: u64
  r11 :: u64  r10 :: u64  r9 :: u64  r8 :: u64
  rbp :: u64  rdi :: u64  rsi :: u64  rdx :: u64  rcx :: u64  rbx :: u64  rax :: u64
  int_no :: u64  err_code :: u64
  rip :: u64  cs :: u64  rflags :: u64  rsp :: u64  ss :: u64

text \<open>The bits of the error code, in the order of \<open>struct page_fault_err\<close>.\<close>

definition err_present :: "u64 \<Rightarrow> bool" where "err_present e = bit e 0"
definition err_write :: "u64 \<Rightarrow> bool" where "err_write e = bit e 1"
definition err_user :: "u64 \<Rightarrow> bool" where "err_user e = bit e 2"
definition err_reserved_set :: "u64 \<Rightarrow> bool" where "err_reserved_set e = bit e 3"
definition err_instruction_fetch :: "u64 \<Rightarrow> bool" where "err_instruction_fetch e = bit e 4"
definition err_prot_key_viol :: "u64 \<Rightarrow> bool" where "err_prot_key_viol e = bit e 5"
definition err_shadow_stack_acc :: "u64 \<Rightarrow> bool" where "err_shadow_stack_acc e = bit e 6"
definition err_sgx_viol :: "u64 \<Rightarrow> bool" where "err_sgx_viol e = bit e 15"

definition print_if :: "bool \<Rightarrow> string \<Rightarrow> 'a console_scheme \<Rightarrow> 'a console_scheme result" where
  "print_if b msg s = (if b then printk msg [] s else Inr s)"

text \<open>
  What the handler prints, and the handler.  It does not return: \<open>abort\<close> halts the processor with
  interrupts off, and the outcome is the state in which it halts.
\<close>

definition page_fault_report :: "u64 \<Rightarrow> regs \<Rightarrow> 'a console_scheme \<Rightarrow> 'a console_scheme result" where
  "page_fault_report fault_addr r s =
     (let err = err_code r
      in rbind (printk (''Page fault at address 0x%x'' @ [CHR 0x0A]) [Slot fault_addr] s) (\<lambda>s.
         rbind (printk ''Cause: '' [] s) (\<lambda>s.
         rbind (print_if (\<not> err_present err) ''page is not present '' s) (\<lambda>s.
         rbind (print_if (err_reserved_set err) ''reserved bit set '' s) (\<lambda>s.
         rbind (print_if (err_prot_key_viol err) ''protection-key violation '' s) (\<lambda>s.
         rbind (print_if (err_shadow_stack_acc err) ''shadow-stack access '' s) (\<lambda>s.
         rbind (print_if (err_sgx_viol err) ''SGX violation'' s) (\<lambda>s.
         rbind (printk [CHR 0x0A] [] s) (\<lambda>s.
         rbind (printk ''On: '' [] s) (\<lambda>s.
         rbind (if err_instruction_fetch err then printk ''instruction fetch'' [] s
                else rbind (printk ''Data '' [] s) (\<lambda>s.
                  if err_write err then printk ''write'' [] s else printk ''read'' [] s)) (\<lambda>s.
         rbind (printk [CHR 0x0A] [] s) (\<lambda>s.
         rbind (printk ''Blame: '' [] s) (\<lambda>s.
           if err_user err then printk ''user'' [] s else printk ''kernel'' [] s)))))))))))))"

definition page_fault_handler :: "u64 \<Rightarrow> regs \<Rightarrow> 'a console_scheme \<Rightarrow> (fault \<times> 'a console_scheme) result" where
  "page_fault_handler cr2 r s =
     (let fault_addr = get_cr2 cr2
      in rbind (page_fault_report fault_addr r s) (\<lambda>s. Inr (Aborted, s)))"

section \<open>Tables and their entries\<close>

text \<open>The tables the code uses, by name, and where the layout puts them.\<close>

datatype table = H4 | H3 | H2 nat | L3 | L2 | L1 nat | K3 | K2 | K1 nat

fun table_at :: "table_layout \<Rightarrow> table \<Rightarrow> u64" where
  "table_at L H4 = high_base_pml4 L"
| "table_at L H3 = high_base_pml3 L"
| "table_at L (H2 i) = row (high_base_pml2s L) i"
| "table_at L L3 = row (low_base_pml4s L) 0"
| "table_at L L2 = row (low_base_pml4s L) 1"
| "table_at L (L1 i) = row (low_base_pml2s L) i"
| "table_at L K3 = heap_base_pml3 L"
| "table_at L K2 = heap_base_pml2 L"
| "table_at L (K1 i) = row (heap_base_pml1 L) i"

fun is_table :: "table \<Rightarrow> bool" where
  "is_table (H2 i) \<longleftrightarrow> i < 64"
| "is_table (L1 i) \<longleftrightarrow> i < 32"
| "is_table (K1 i) \<longleftrightarrow> i < 3"
| "is_table _ \<longleftrightarrow> True"

text \<open>The tables are different pages within the first 512 GiB.\<close>

definition layout_ok :: "table_layout \<Rightarrow> bool" where
  "layout_ok L \<longleftrightarrow> inj_on (table_at L) {T. is_table T} \<and>
     (\<forall>T. is_table T \<longrightarrow> take_bit 12 (table_at L T) = 0 \<and> take_bit 39 (table_at L T) = table_at L T)"

definition cell :: "table_layout \<Rightarrow> 'a mmu_scheme \<Rightarrow> table \<Rightarrow> nat \<Rightarrow> u64" where
  "cell L s T i = pmem s (table_at L T + 8 * of_nat i)"

lemma layout_okD:
  assumes "layout_ok L" "is_table T"
  shows "take_bit 12 (table_at L T) = 0" "take_bit 39 (table_at L T) = table_at L T"
    "is_table T' \<Longrightarrow> table_at L T = table_at L T' \<longleftrightarrow> T = T'"
  using assms by (auto simp: layout_ok_def inj_on_eq_iff)

lemma unat_small [simp]: "i < 512 \<Longrightarrow> unat (of_nat i :: u64) = i"
  by simp

lemma entry_inj:
  fixes P Q :: u64
  assumes "take_bit 12 P = 0" "take_bit 12 Q = 0" "i < 512" "j < 512"
  shows "P + 8 * of_nat i = Q + 8 * of_nat j \<longleftrightarrow> P = Q \<and> i = j"
proof
  assume eq: "P + 8 * of_nat i = Q + 8 * of_nat j"
  have part: "drop_bit 12 (R + 8 * of_nat k) = drop_bit 12 R \<and>
      unat (take_bit 12 (R + 8 * of_nat k)) = 8 * k" if "take_bit 12 R = 0" "k < 512" for R :: u64 and k
  proof -
    have "R + 8 * of_nat k = R OR push_bit 3 (of_nat k)" using entry_or [OF that(1)] that(2) by simp
    moreover have "bit k m \<Longrightarrow> m < 9" for m
      using that(2) bit_take_bit_iff [of 9 k m] by (simp add: take_bit_nat_eq_self)
    then have "drop_bit 12 (push_bit 3 (of_nat k :: u64)) = 0"
      "take_bit 12 (push_bit 3 (of_nat k :: u64)) = push_bit 3 (of_nat k)"
      by (auto intro!: bit_word_eqI simp: bit_simps) (fastforce+)?
    moreover have "unat (push_bit 3 (of_nat k :: u64)) = 8 * k"
      using that(2) by (simp add: push_bit_eq_mult unat_word_ariths(2))
    ultimately show ?thesis using that(1) by simp
  qed
  have "i = j" using part [OF assms(1,3)] part [OF assms(2,4)] eq by simp
  then show "P = Q \<and> i = j" using eq by simp
qed simp

text \<open>Reading after a write, after a loop that fills a table, and after the loops of \<open>mmu_init\<close>.\<close>

lemma cell_put:
  assumes "layout_ok L" "is_table T" "is_table T'" "i < 512" "j < 512"
  shows "cell L (put_entry (table_at L T') j e s) T i = (if T = T' \<and> i = j then e else cell L s T i)"
proof -
  note ok = layout_okD [OF assms(1)]
  have "entry_at (table_at L T') (of_nat j) AND PHYS_MASK = table_at L T' + 8 * of_nat j"
    using entry_phys [OF ok(1) [OF assms(3)], of "of_nat j"] ok(2) [OF assms(3)] assms(5) by simp
  moreover have "table_at L T + 8 * of_nat i = table_at L T' + 8 * of_nat j \<longleftrightarrow> T = T' \<and> i = j"
    using entry_inj [OF ok(1) [OF assms(2)] ok(1) [OF assms(3)] assms(4,5)] ok(3) assms(2,3) by auto
  ultimately show ?thesis by (simp add: cell_def put_entry_def pml_store_def)
qed

lemma cell_fill:
  assumes "layout_ok L" "is_table T" "is_table T'" "i < 512" "n \<le> 512"
  shows "cell L (fold (\<lambda>j. put_entry (table_at L T') j (f j)) [0..<n] s) T i =
    (if T = T' \<and> i < n then f i else cell L s T i)"
  using assms(5) by (induction n) (auto simp: cell_put [OF assms(1-4)])

text \<open>The loops that fill table \<open>U\<close> with links to the tables \<open>R j\<close> and each of those.\<close>

definition fill_rows :: "table_layout \<Rightarrow> table \<Rightarrow> (nat \<Rightarrow> table) \<Rightarrow> (nat \<Rightarrow> u64) \<Rightarrow> (nat \<Rightarrow> nat \<Rightarrow> u64) \<Rightarrow> nat \<Rightarrow>
    'a mmu_scheme \<Rightarrow> 'a mmu_scheme" where
  "fill_rows L U R f g n s =
     fold (\<lambda>j s. fold (\<lambda>k. put_entry (table_at L (R j)) k (g j k)) [0..<512]
         (put_entry (table_at L U) j (f j) s)) [0..<n] s"

lemma cell_fill_row:
  assumes "layout_ok L" "is_table T" "i < 512" "is_table U" "is_table (R n)" "n < 512" "R n \<noteq> U"
  shows "cell L (fill_rows L U R f g (Suc n) s) T i =
    (if T = R n then g n i else if T = U \<and> i = n then f n else cell L (fill_rows L U R f g n s) T i)"
  using assms by (simp add: fill_rows_def cell_fill [OF assms(1,2,5,3)] cell_put [OF assms(1,2,4,3,6)])

lemma cell_fill_rows:
  assumes "layout_ok L" "i < 512" "is_table U" "\<And>j. j < n \<Longrightarrow> is_table (R j)" "n \<le> 512"
    and "inj R" "U \<notin> range R"
  shows "cell L (fill_rows L U R f g n s) U i = (if i < n then f i else cell L s U i)"
    and "is_table (R j) \<Longrightarrow> cell L (fill_rows L U R f g n s) (R j) i = (if j < n then g j i else cell L s (R j) i)"
    and "is_table T \<Longrightarrow> T \<noteq> U \<Longrightarrow> T \<notin> range R \<Longrightarrow> cell L (fill_rows L U R f g n s) T i = cell L s T i"
proof -
  have step: "is_table T \<Longrightarrow> m < n \<Longrightarrow> cell L (fill_rows L U R f g (Suc m) s) T i =
    (if T = R m then g m i else if T = U \<and> i = m then f m else cell L (fill_rows L U R f g m s) T i)" for T m
    using assms by (intro cell_fill_row) auto
  have "m \<le> n \<Longrightarrow> cell L (fill_rows L U R f g m s) U i = (if i < m then f i else cell L s U i)" for m
  proof (induction m)
    case (Suc m)
    then show ?case using step [OF assms(3), of m] assms(7) by (auto simp: less_Suc_eq)
  qed (simp add: fill_rows_def)
  then show "cell L (fill_rows L U R f g n s) U i = (if i < n then f i else cell L s U i)" by simp
  show "cell L (fill_rows L U R f g n s) (R j) i = (if j < n then g j i else cell L s (R j) i)"
    if "is_table (R j)"
  proof -
    have "m \<le> n \<Longrightarrow> cell L (fill_rows L U R f g m s) (R j) i = (if j < m then g j i else cell L s (R j) i)" for m
    proof (induction m)
      case (Suc m)
      then show ?case using step [OF that, of m] assms(6,7) by (auto simp: less_Suc_eq inj_eq)
    qed (simp add: fill_rows_def)
    then show ?thesis by simp
  qed
  show "cell L (fill_rows L U R f g n s) T i = cell L s T i" if T: "is_table T" "T \<noteq> U" "T \<notin> range R"
  proof -
    have "m \<le> n \<Longrightarrow> cell L (fill_rows L U R f g m s) T i = cell L s T i" for m
    proof (induction m)
      case (Suc m)
      then show ?case using step [OF T(1), of m] T by auto
    qed (simp add: fill_rows_def)
    then show ?thesis by simp
  qed
qed

lemma cell_metadata:
  assumes "layout_ok L" "is_table T" "i < 512" "n \<le> 1536"
  shows "cell L (fold (\<lambda>i. put_entry (heap_base_pml1 L) i (f i)) [0..<n] s) T i =
    (case T of K1 k \<Rightarrow> if k * 512 + i < n then f (k * 512 + i) else cell L s T i | _ \<Rightarrow> cell L s T i)"
  using assms(4)
proof (induction n)
  case 0
  then show ?case by (simp split: table.split)
next
  case (Suc n)
  have "heap_base_pml1 L + 8 * of_nat n =
      heap_base_pml1 L + of_nat (n div 512 * 4096) + (8 * of_nat (n mod 512) :: u64)"
  proof -
    have "8 * n = n div 512 * 4096 + 8 * (n mod 512)" using div_mult_mod_eq [of n 512] by linarith
    from arg_cong [OF this, of "of_nat :: nat \<Rightarrow> u64"] show ?thesis by simp
  qed
  then have put: "put_entry (heap_base_pml1 L) n e u = put_entry (table_at L (K1 (n div 512))) (n mod 512) e u"
    for e and u :: "'a mmu_scheme" by (simp add: put_entry_def entry_at_def row_def add.assoc)
  have k: "is_table (K1 (n div 512))" using Suc.prems by auto
  have new: "cell L (put_entry (heap_base_pml1 L) n e u) T i =
      (if T = K1 (n div 512) \<and> i = n mod 512 then e else cell L u T i)" for e and u :: "'a mmu_scheme"
    unfolding put by (rule cell_put [OF assms(1,2) k assms(3)]) simp
  have at: "k = n div 512 \<and> i = n mod 512 \<longleftrightarrow> k * 512 + i = n" for k
  proof -
    have "(k * 512 + i) div 512 = k" "(k * 512 + i) mod 512 = i" using assms(3) by simp_all
    then show ?thesis using div_mult_mod_eq [of n 512] by metis
  qed
  have step: "cell L (fold (\<lambda>i. put_entry (heap_base_pml1 L) i (f i)) [0..<Suc n] s) T i =
      (if T = K1 (n div 512) \<and> i = n mod 512 then f n
       else cell L (fold (\<lambda>i. put_entry (heap_base_pml1 L) i (f i)) [0..<n] s) T i)"
    by (simp add: new)
  show ?case
  proof (cases T)
    case (K1 k)
    then show ?thesis using step Suc at [of k] by (auto simp: less_Suc_eq)
  qed (use step Suc in simp_all)
qed

section \<open>The tables after initialisation\<close>

text \<open>Entry \<open>i\<close> of every table, with \<open>c\<close> low tables and \<open>n\<close> pages of metadata starting at \<open>ff\<close>.\<close>

fun boot_cell :: "table_layout \<Rightarrow> nat \<Rightarrow> u64 \<Rightarrow> nat \<Rightarrow> table \<Rightarrow> nat \<Rightarrow> u64" where
  "boot_cell L c ff n H4 i =
     (if i = 511 then table_at L H3 OR 3 else if i = 510 then table_at L K3 OR 3
      else if i = 0 then table_at L L3 OR 7 else 0)"
| "boot_cell L c ff n H3 i = (if i < 64 then table_at L (H2 i) OR 3 else 0)"
| "boot_cell L c ff n (H2 k) i = (push_bit 30 (of_nat k) + push_bit 21 (of_nat i)) OR 0x80 OR 3"
| "boot_cell L c ff n L3 i = (if i = 0 then table_at L L2 OR 7 else 0)"
| "boot_cell L c ff n L2 i = (if i < c then table_at L (L1 i) OR 3 else 0)"
| "boot_cell L c ff n (L1 k) i =
     (if k < c \<and> \<not> (k = 0 \<and> i = 0) then (0x200000 * of_nat k + 0x1000 * of_nat i) OR 3 else 0)"
| "boot_cell L c ff n K3 i = (if i = 0 then table_at L K2 OR 3 else 0)"
| "boot_cell L c ff n K2 i = (if i < 3 then table_at L (K1 i) OR 3 else 0)"
| "boot_cell L c ff n (K1 k) i =
     (if k * 512 + i < n then (ff + push_bit 12 (of_nat (k * 512 + i))) OR 3 else 0)"

lemma map_high_rows:
  "map_high L s = fill_rows L H3 H2 (\<lambda>i. table_at L (H2 i) OR 3)
     (\<lambda>i j. (push_bit 30 (of_nat i) + push_bit 21 (of_nat j)) OR 0x80 OR 3) 64 s"
  by (simp add: map_high_def fill_rows_def Let_def)

lemma map_low_rows:
  "map_low L c s = (if 32 < c then Inl OutOfBounds
     else Inr (fill_rows L L2 L1 (\<lambda>i. table_at L (L1 i) OR 3)
       (\<lambda>j i. (0x200000 * of_nat j + 0x1000 * of_nat i) OR 3) (unat c) s))"
  by (simp add: map_low_def fill_rows_def Let_def)

lemma cell_map_high:
  assumes "layout_ok L" "is_table T" "i < 512"
  shows "cell L (map_high L s) T i =
    (case T of H3 \<Rightarrow> if i < 64 then boot_cell L c ff n H3 i else cell L s T i
     | H2 k \<Rightarrow> boot_cell L c ff n T i | _ \<Rightarrow> cell L s T i)"
proof -
  have c: "is_table H3" "\<And>j. j < 64 \<Longrightarrow> is_table (H2 j)" "(64 :: nat) \<le> 512" "inj H2" "H3 \<notin> range H2"
    by (auto simp: inj_def)
  note rows = cell_fill_rows [OF assms(1,3) c]
  show ?thesis using assms(2) by (cases T) (simp_all add: map_high_rows rows image_iff)
qed

lemma cell_map_low:
  assumes "layout_ok L" "is_table T" "i < 512" "n \<le> 32"
  shows "cell L (fill_rows L L2 L1 (\<lambda>i. table_at L (L1 i) OR 3)
       (\<lambda>j i. (0x200000 * of_nat j + 0x1000 * of_nat i) OR 3) n s) T i =
    (case T of L2 \<Rightarrow> if i < n then table_at L (L1 i) OR 3 else cell L s T i
     | L1 k \<Rightarrow> if k < n then (0x200000 * of_nat k + 0x1000 * of_nat i) OR 3 else cell L s T i
     | _ \<Rightarrow> cell L s T i)"
proof -
  have c: "is_table L2" "\<And>j. j < n \<Longrightarrow> is_table (L1 j)" "n \<le> 512" "inj L1" "L2 \<notin> range L1"
    using assms(4) by (auto simp: inj_def)
  note rows = cell_fill_rows [OF assms(1,3) c]
  show ?thesis using assms(2) by (cases T) (simp_all add: rows image_iff)
qed

text \<open>What the steps of \<open>mmu_init\<close> leave alone.\<close>

lemma cell_frame [simp]:
  "cell L (s\<lparr>current_pml4 := x\<rparr>) T i = cell L s T i"
  "cell L (mmu_set_directory h d s) T i = cell L s T i"
  "current_pml4 (put_entry t i e s) = current_pml4 s"
  "current_pml4 (fill_rows L U R f g n s) = current_pml4 s"
proof -
  show p: "current_pml4 (put_entry t i e s) = current_pml4 s" for t i e and s :: "'a mmu_scheme"
    by (simp add: put_entry_def pml_store_def)
  have row: "current_pml4 (fold (\<lambda>k. put_entry t k (h k)) xs s) = current_pml4 s" for t h xs and s :: "'a mmu_scheme"
    by (induction xs arbitrary: s) (simp_all add: p)
  have "current_pml4 (fold (\<lambda>j s. fold (\<lambda>k. put_entry (table_at L (R j)) k (g j k)) [0..<512]
         (put_entry (table_at L U) j (f j) s)) xs s) = current_pml4 s" for xs
    by (induction xs arbitrary: s) (simp_all add: p row del: upt_Suc)
  then show "current_pml4 (fill_rows L U R f g n s) = current_pml4 s" by (simp add: fill_rows_def)
qed (simp_all add: cell_def mmu_set_directory_def Let_def set_cr3_def log_event_def)

lemma reserve_loop_frame:
  fixes s t :: "'a palloc_scheme"
  assumes "reserve_loop a l s = Some (b, t)"
  shows "palloc.more t = palloc.more s"
proof -
  have "palloc.more (frame_set a s) = palloc.more s" for a and s :: "'a palloc_scheme"
    by (simp add: frame_set_def Let_def)
  then have "palloc.more (snd (b, t)) = palloc.more s"
    by (intro reserve_loop.raw_induct [OF _ assms, where P = "\<lambda>a l s y. palloc.more (snd y) = palloc.more s"])
      (auto split: if_splits)
  then show ?thesis by simp
qed

lemma page_allocator_init_returns:
  fixes s :: "'a palloc_scheme"
  assumes "unat memsize < 2 ^ 32" "unat first_free < 2 ^ 40"
  shows "\<exists>t. page_allocator_init first_free memsize s = Inr t \<and> palloc.more t = palloc.more s"
proof -
  define n where "n = unat memsize div 4096"
  let ?limit = "first_free + of_nat (n div 8)"
  obtain s1 where s1: "palloc_inv s1" "page_allocator_init first_free memsize s =
      rbind (of_loop (reserve_loop 0 ?limit s1)) (\<lambda>(unavail, s).
        Inr (s\<lparr>total_memory := (ucast (nframes s) - unavail) * PAGE_SIZE,
               unavailable_memory := unavail * PAGE_SIZE\<rparr>))"
    using page_allocator_init_loop [OF assms(1) n_def] by blast
  have "n div 8 < 2 ^ 20" using assms(1) by (simp add: n_def less_mult_imp_div_less)
  then have "unat ?limit \<le> 2 ^ 64 - 4096"
    using assms(2) unat_add_of_nat [of first_free "Suc (n div 8)" "n div 8"] by simp
  then obtain b u where u: "reserve_loop 0 ?limit s1 = Some (b, u)"
    using reserve_loop_marks [OF s1(1), of ?limit 0] by auto
  then obtain t where t: "page_allocator_init first_free memsize s = Inr t" using s1(2) by simp
  moreover have "palloc.more t = palloc.more s"
    using t reserve_loop_frame unfolding page_allocator_init_def Let_def
    by (auto simp: rbind_eq_Inr of_loop_def split: option.splits) fastforce?
  ultimately show ?thesis by blast
qed

text \<open>The state of the tables when \<open>mmu_init\<close> turns to the allocators.\<close>

definition boot_tables :: "table_layout \<Rightarrow> nat \<Rightarrow> u64 \<Rightarrow> nat \<Rightarrow> 'a mmu_scheme \<Rightarrow> 'a mmu_scheme" where
  "boot_tables L c ff n s =
     (let s = s\<lparr>current_pml4 := high_base_pml4 L\<rparr>;
          s = put_entry (table_at L H4) 511 (table_at L H3 OR 3) s;
          s = put_entry (table_at L H4) 510 (table_at L K3 OR 3) s;
          s = map_high L s;
          s = put_entry (table_at L L3) 0 (table_at L L2 OR 7) s;
          s = fill_rows L L2 L1 (\<lambda>i. table_at L (L1 i) OR 3)
            (\<lambda>j i. (0x200000 * of_nat j + 0x1000 * of_nat i) OR 3) c s;
          s = put_entry (table_at L (L1 0)) 0 0 s;
          s = put_entry (table_at L H4) 0 (table_at L L3 OR 7) s;
          s = mmu_set_directory (high_base_pml4 L) (current_pml4 s) s;
          s = s\<lparr>current_pml4 := mmu_to_virt (current_pml4 s)\<rparr>;
          s = put_entry (table_at L K3) 0 (table_at L K2 OR 3) s;
          s = put_entry (table_at L K2) 0 (table_at L (K1 0) OR 3) s;
          s = put_entry (table_at L K2) 1 (table_at L (K1 1) OR 3) s;
          s = put_entry (table_at L K2) 2 (table_at L (K1 2) OR 3) s
      in fold (\<lambda>i. put_entry (heap_base_pml1 L) i ((ff + push_bit 12 (of_nat i)) OR 3)) [0..<n] s)"

lemma mmu_init_stages:
  assumes "low_pml2_count a \<le> 32" "m \<le> 1536"
    and "ff = (kernel_end + PAGE_LOW_MASK) AND PAGE_SIZE_MASK"
    and "m = drop_bit PAGE_SHIFT ((metadata_size memsize + PAGE_LOW_MASK) AND PAGE_SIZE_MASK)"
  shows "mmu_init L a memsize kernel_end s =
    rbind (page_allocator_init ff memsize (boot_tables L (unat (low_pml2_count a)) ff (unat m) s)) (\<lambda>s.
      rbind (kheap_allocator_init (KERNEL_HEAP_START + m * PAGE_SIZE) s) (\<lambda>s.
        Inr (irq_set_handler 0x0E Page_fault_handler s)))"
proof -
  have "\<not> 32 < low_pml2_count a" "\<not> 1536 < m" using assms(1,2) by simp_all
  then show ?thesis
    unfolding mmu_init_def boot_tables_def Let_def map_low_rows map_metadata_def assms(3,4) [symmetric]
    by (simp only: table_at.simps if_False rbind_simps)
qed

lemma cell_boot_tables:
  assumes "layout_ok L" "is_table T" "i < 512" "c \<le> 32" "n \<le> 1536" "\<And>T i. is_table T \<Longrightarrow> i < 512 \<Longrightarrow> cell L s T i = 0"
  shows "cell L (boot_tables L c ff n s) T i = boot_cell L c ff n T i"
proof -
  note cells = cell_metadata [OF assms(1) _ _ assms(5)] cell_put [OF assms(1)] cell_frame
    cell_map_low [OF assms(1) _ _ assms(4)] cell_map_high [OF assms(1), where c = c and ff = ff and n = n] assms(6)
  have three: "i < 3 \<longleftrightarrow> i = 0 \<or> i = Suc 0 \<or> i = 2" by auto
  show ?thesis
    unfolding boot_tables_def Let_def
    using assms(2,3) by (cases T) (auto simp: cells three simp del: table_at.simps)
qed

lemma current_boot_tables: "current_pml4 (boot_tables L c ff n s) = mmu_to_virt (high_base_pml4 L)"
proof -
  have row: "current_pml4 (fold (\<lambda>k. put_entry t k (h k)) xs s) = current_pml4 s" for t h xs and s :: "'a mmu_scheme"
    by (induction xs arbitrary: s) simp_all
  have "mmu_to_virt (mmu_to_virt x) = mmu_to_virt x" for x by (simp add: mmu_to_virt_def or.assoc)
  then show ?thesis
    by (simp add: boot_tables_def Let_def row map_high_rows mmu_set_directory_def set_cr3_def log_event_def)
qed

lemma page_round:
  fixes x :: u64
  assumes "unat x + 4095 < 2 ^ 64"
  shows "unat ((x + PAGE_LOW_MASK) AND PAGE_SIZE_MASK) = pages_for (unat x) * 4096"
    and "take_bit 12 ((x + PAGE_LOW_MASK) AND PAGE_SIZE_MASK) = 0"
    and "unat (drop_bit 12 ((x + PAGE_LOW_MASK) AND PAGE_SIZE_MASK)) = pages_for (unat x)"
proof -
  have m: "PAGE_SIZE_MASK = NOT (mask 12)" by (simp add: mask_eq_exp_minus_1)
  have eq: "(x + PAGE_LOW_MASK) AND PAGE_SIZE_MASK = push_bit 12 (drop_bit 12 (x + PAGE_LOW_MASK))"
    unfolding m by (rule bit_word_eqI) (auto simp: bit_simps)
  have "unat (drop_bit 12 (x + PAGE_LOW_MASK)) = unat (x + PAGE_LOW_MASK) div 4096"
    by (simp only: unat_drop_bit_eq) (simp add: drop_bit_eq_div)
  also have "\<dots> = pages_for (unat x)" using assms by (simp add: unat_word_ariths(1) pages_for_def)
  finally have d: "unat (drop_bit 12 (x + PAGE_LOW_MASK)) = pages_for (unat x)" .
  show "take_bit 12 ((x + PAGE_LOW_MASK) AND PAGE_SIZE_MASK) = 0"
    unfolding eq by (rule bit_word_eqI) (auto simp: bit_simps)
  have "drop_bit 12 (push_bit 12 (drop_bit 12 (x + PAGE_LOW_MASK))) = drop_bit 12 (x + PAGE_LOW_MASK)"
    by (rule bit_word_eqI) (auto simp: bit_simps dest: bit_imp_le_length)
  then show "unat (drop_bit 12 ((x + PAGE_LOW_MASK) AND PAGE_SIZE_MASK)) = pages_for (unat x)"
    unfolding eq using d by simp
  have "pages_for (unat x) * 4096 \<le> unat x + 4095" by (simp add: pages_for_def)
  then have "pages_for (unat x) * 4096 < 2 ^ 64" using assms by linarith
  then show "unat ((x + PAGE_LOW_MASK) AND PAGE_SIZE_MASK) = pages_for (unat x) * 4096"
    unfolding eq using d by (simp add: push_bit_eq_mult unat_word_ariths(2))
qed

definition metadata_pages :: "u64 \<Rightarrow> nat" where
  "metadata_pages memsize = pages_for (unat memsize div 4096 div 2)"

lemma metadata_round:
  assumes "unat memsize < 2 ^ 32"
  shows "unat (drop_bit 12 ((metadata_size memsize + PAGE_LOW_MASK) AND PAGE_SIZE_MASK)) = metadata_pages memsize"
    and "metadata_pages memsize \<le> 128"
proof -
  have u: "unat (metadata_size memsize) = unat memsize div 4096 div 2"
    by (simp only: metadata_size_def unat_drop_bit_eq) (simp add: drop_bit_eq_div)
  have b: "unat memsize div 4096 div 2 < 2 ^ 19" using assms by (simp add: less_mult_imp_div_less)
  then show "unat (drop_bit 12 ((metadata_size memsize + PAGE_LOW_MASK) AND PAGE_SIZE_MASK)) = metadata_pages memsize"
    using page_round(3) [of "metadata_size memsize"] u by (simp add: metadata_pages_def)
  show "metadata_pages memsize \<le> 128" using b by (simp add: metadata_pages_def pages_for_def)
qed

text \<open>For less than 4 GiB, initialisation returns with these tables in place.\<close>

lemma mmu_init_returns:
  fixes s :: "'a kheap_scheme"
  assumes ok: "layout_ok L" and blank: "\<And>T i. is_table T \<Longrightarrow> i < 512 \<Longrightarrow> cell L s T i = 0"
    and a: "low_pml2_count a \<le> 32" and mem: "unat memsize < 2 ^ 32" and ke: "unat kernel_end < 2 ^ 39"
  shows "\<exists>t. mmu_init L a memsize kernel_end s = Inr t \<and> current_pml4 t = mmu_to_virt (high_base_pml4 L) \<and>
    irq_handlers t 0x0E = Some Page_fault_handler \<and> free_block_list t = NULL \<and>
    heap_end t = KERNEL_HEAP_START + of_nat (metadata_pages memsize * 4096) \<and>
    (\<forall>T i. is_table T \<longrightarrow> i < 512 \<longrightarrow> cell L t T i = boot_cell L (unat (low_pml2_count a))
       ((kernel_end + PAGE_LOW_MASK) AND PAGE_SIZE_MASK) (metadata_pages memsize) T i)"
proof -
  let ?ff = "(kernel_end + PAGE_LOW_MASK) AND PAGE_SIZE_MASK"
  define m where "m = drop_bit PAGE_SHIFT ((metadata_size memsize + PAGE_LOW_MASK) AND PAGE_SIZE_MASK)"
  have m: "unat m = metadata_pages memsize" "unat m \<le> 128"
    using metadata_round [OF mem] by (simp_all add: m_def)
  let ?b = "boot_tables L (unat (low_pml2_count a)) ?ff (unat m) s"
  have "unat kernel_end + 4095 < 2 ^ 64" using ke by simp
  from page_round(1) [OF this] have "unat ?ff \<le> unat kernel_end + 4095" by (simp add: pages_for_def)
  then have "unat ?ff < 2 ^ 40" using ke by simp
  from page_allocator_init_returns [OF mem this, of ?b] obtain u where
    u: "page_allocator_init ?ff memsize ?b = Inr u" "palloc.more u = palloc.more ?b" by blast
  have same: "pmem u = pmem ?b" "current_pml4 u = current_pml4 ?b"
    using u(2) by (cases u; cases ?b; simp)+
  let ?h = "KERNEL_HEAP_START + m * PAGE_SIZE"
  have hm: "m * PAGE_SIZE = of_nat (unat m * 4096)" by simp
  have "unat ?h = unat KERNEL_HEAP_START + unat m * 4096"
    unfolding hm using m(2) unat_add_of_nat [of KERNEL_HEAP_START "Suc (unat m * 4096)" "unat m * 4096"]
    by (simp del: of_nat_mult)
  then have h: "KERNEL_HEAP_START \<le> ?h" "?h AND PAGE_LOW_MASK = 0"
    by (simp_all add: word_le_nat_alt aligned_iff)
  let ?t = "irq_set_handler 0x0E Page_fault_handler
    (u\<lparr>heap_start := ?h, heap_end := ?h, free_block_list := NULL\<rparr>)"
  have "low_pml2_count a \<le> 32" "m \<le> 1536" using a m(2) by (simp_all add: word_le_nat_alt)
  then have "mmu_init L a memsize kernel_end s = Inr ?t"
    using u(1) h by (subst mmu_init_stages [OF _ _ refl m_def]) (simp_all add: kheap_allocator_init_def)
  moreover have "cell L ?t T i = boot_cell L (unat (low_pml2_count a)) ?ff (metadata_pages memsize) T i"
    if "is_table T" "i < 512" for T i
    using cell_boot_tables [OF ok that, of "unat (low_pml2_count a)" "unat m" s ?ff] a m blank same(1)
    by (simp add: cell_def irq_set_handler_def word_le_nat_alt)
  moreover have "current_pml4 ?t = mmu_to_virt (high_base_pml4 L)"
    using same(2) by (simp add: irq_set_handler_def current_boot_tables)
  ultimately show ?thesis using hm m(1) by (simp add: irq_set_handler_def)
qed

section \<open>Translation through the tables\<close>

text \<open>What an entry made of a page address and flags means.\<close>

lemma entry_of_flags:
  fixes x f :: u64
  assumes "take_bit 12 x = 0" "take_bit 52 x = x" "take_bit 12 f = f"
  shows "push_bit 12 (pml_address (x OR f)) = x" "pml_present (x OR f) = bit f 0" "pml_huge (x OR f) = bit f 7"
proof -
  have x: "bit x n \<Longrightarrow> 12 \<le> n \<and> n < 52" and f: "bit f n \<Longrightarrow> n < 12" for n
    using bit_aligned [OF assms(1), of n] bit_take_bit_iff [of 52 x n] bit_take_bit_iff [of 12 f n] assms
    by (auto simp: not_less)
  show "push_bit 12 (pml_address (x OR f)) = x"
  proof (rule bit_word_eqI)
    fix n show "bit (push_bit 12 (pml_address (x OR f))) n = bit x n"
      using x [of n] f [of n] by (cases "12 \<le> n") (auto simp: pml_address_def bit_simps)
  qed
  show "pml_present (x OR f) = bit f 0" "pml_huge (x OR f) = bit f 7"
    using x [of 0] x [of 7] by (auto simp: pml_present_def pml_huge_def bit_simps)
qed

lemma table_entry:
  assumes "layout_ok L" "is_table T" "f \<in> {3, 7}"
  shows "push_bit 12 (pml_address (table_at L T OR f)) = table_at L T" "pml_present (table_at L T OR f)"
    "\<not> pml_huge (table_at L T OR f)"
proof -
  note ok = layout_okD [OF assms(1,2)]
  have "take_bit 52 (table_at L T) = table_at L T"
    using ok(2) take_bit_take_bit [of 52 39 "table_at L T"] by simp
  note e = entry_of_flags [OF ok(1) this]
  have "f = 3 \<or> f = 7" using assms(3) by simp
  then show "push_bit 12 (pml_address (table_at L T OR f)) = table_at L T" "pml_present (table_at L T OR f)"
    "\<not> pml_huge (table_at L T OR f)"
    using e [of 3] e [of 7] by auto
qed

lemma cell_load:
  assumes "layout_ok L" "is_table T"
  shows "pml_load (entry_at (mmu_to_virt (table_at L T)) (walk_index l va)) s = cell L s T (unat (walk_index l va))"
proof -
  note ok = layout_okD [OF assms]
  have "take_bit 12 (mmu_to_virt (table_at L T)) = 0" "take_bit 39 (mmu_to_virt (table_at L T)) = table_at L T"
    using ok by (simp_all add: take_mmu_to_virt)
  from load_entry [OF this(1), of l va s] this(2) show ?thesis by (simp add: cell_def)
qed

lemma follow_entry:
  assumes "layout_ok L" "is_table T" "pml_load p s = table_at L T OR f" "f \<in> {3, 7}"
  shows "pml_load (next_entry l va p s) s = cell L s T (unat (walk_index l va))"
  unfolding next_entry_def assms(3) table_entry(1) [OF assms(1,2,4)] by (rule cell_load [OF assms(1,2)])

lemma unat_walk_index: "unat (walk_index l va) = unat va div 2 ^ (12 + 9 * l) mod 512"
  unfolding walk_index_def
  by (simp only: unsigned_take_bit_eq unat_drop_bit_eq) (simp add: take_bit_eq_mod drop_bit_eq_div)

text \<open>The state \<open>mmu_init\<close> reaches, as far as translation is concerned.\<close>

definition booted :: "table_layout \<Rightarrow> nat \<Rightarrow> u64 \<Rightarrow> nat \<Rightarrow> 'a mmu_scheme \<Rightarrow> bool" where
  "booted L c ff n s \<longleftrightarrow> layout_ok L \<and> c \<le> 32 \<and> n \<le> 1536 \<and> current_pml4 s = mmu_to_virt (table_at L H4) \<and>
     (\<forall>T i. is_table T \<longrightarrow> i < 512 \<longrightarrow> cell L s T i = boot_cell L c ff n T i)"

text \<open>Following an address from the root through tables \<open>U\<close>, \<open>V\<close> and, for small pages, \<open>W\<close>.\<close>

lemma booted_path:
  assumes b: "booted L c ff n s" and t: "is_table U" "is_table V"
    and 4: "boot_cell L c ff n H4 (unat (walk_index 3 va)) = table_at L U OR f" "f \<in> {3, 7}"
    and 3: "boot_cell L c ff n U (unat (walk_index 2 va)) = table_at L V OR g" "g \<in> {3, 7}"
  shows "pml_huge (boot_cell L c ff n V (unat (walk_index 1 va))) \<Longrightarrow>
      pml_present (boot_cell L c ff n V (unat (walk_index 1 va))) \<Longrightarrow>
      mmu_translate va s = push_bit 12 (pml_address (boot_cell L c ff n V (unat (walk_index 1 va)))) OR take_bit 21 va"
    and "is_table W \<Longrightarrow> boot_cell L c ff n V (unat (walk_index 1 va)) = table_at L W OR h \<Longrightarrow> h \<in> {3, 7} \<Longrightarrow>
      mmu_translate va s =
        (let e = boot_cell L c ff n W (unat (walk_index 0 va))
         in if pml_present e then push_bit 12 (pml_address e) OR take_bit 12 va else - 4)"
proof -
  have ok: "layout_ok L" and cur: "current_pml4 s = mmu_to_virt (table_at L H4)"
    and cell: "\<And>T l. is_table T \<Longrightarrow> cell L s T (unat (walk_index l va)) = boot_cell L c ff n T (unat (walk_index l va))"
    using b walk_index_bound by (auto simp: booted_def)
  obtain p4 p3 p2 p1 where path: "path_entries (current_pml4 s) va s = (p4, p3, p2, p1)" by (metis prod.exhaust)
  note p = path_entriesD [OF path]
  have e4: "pml_load p4 s = table_at L U OR f"
    unfolding p(1) cur using cell_load [OF ok, of H4 3 va s] cell [of H4 3] 4(1) by simp
  have e3: "pml_load p3 s = table_at L V OR g"
    unfolding p(2) using follow_entry [OF ok t(1) e4 4(2)] cell [OF t(1)] 3(1) by simp
  have e2: "pml_load p2 s = boot_cell L c ff n V (unat (walk_index 1 va))"
    unfolding p(3) using follow_entry [OF ok t(2) e3 3(2)] cell [OF t(2)] by simp
  note q = table_entry [OF ok t(1) 4(2)] table_entry [OF ok t(2) 3(2)]
  show "mmu_translate va s = push_bit 12 (pml_address (boot_cell L c ff n V (unat (walk_index 1 va)))) OR take_bit 21 va"
    if "pml_huge (boot_cell L c ff n V (unat (walk_index 1 va)))" "pml_present (boot_cell L c ff n V (unat (walk_index 1 va)))"
    unfolding mmu_translate_def translate_path [OF path] e4 e3 e2 using q that by simp
  assume w: "is_table W" "boot_cell L c ff n V (unat (walk_index 1 va)) = table_at L W OR h" "h \<in> {3, 7}"
  have "pml_load p2 s = table_at L W OR h" using e2 w(2) by simp
  then have "pml_load p1 s = boot_cell L c ff n W (unat (walk_index 0 va))"
    unfolding p(4) using follow_entry [OF ok w(1) _ w(3), of p2 s 0 va] cell [OF w(1)] by simp
  then show "mmu_translate va s =
        (let e = boot_cell L c ff n W (unat (walk_index 0 va))
         in if pml_present e then push_bit 12 (pml_address e) OR take_bit 12 va else - 4)"
    unfolding mmu_translate_def translate_path [OF path] e4 e3 e2 w(2) Let_def
    using q table_entry [OF ok w(1,3)] by simp
qed

lemma booted_missing:
  assumes b: "booted L c ff n s" and t: "is_table U"
    and 4: "boot_cell L c ff n H4 (unat (walk_index 3 va)) = table_at L U OR f" "f \<in> {3, 7}"
    and 3: "boot_cell L c ff n U (unat (walk_index 2 va)) = 0"
  shows "mmu_translate va s = - 2"
proof -
  have ok: "layout_ok L" and cur: "current_pml4 s = mmu_to_virt (table_at L H4)"
    and cell: "\<And>T l. is_table T \<Longrightarrow> cell L s T (unat (walk_index l va)) = boot_cell L c ff n T (unat (walk_index l va))"
    using b walk_index_bound by (auto simp: booted_def)
  obtain p4 p3 p2 p1 where path: "path_entries (current_pml4 s) va s = (p4, p3, p2, p1)" by (metis prod.exhaust)
  note p = path_entriesD [OF path]
  have e4: "pml_load p4 s = table_at L U OR f"
    unfolding p(1) cur using cell_load [OF ok, of H4 3 va s] cell [of H4 3] 4(1) by simp
  have "pml_load p3 s = 0"
    unfolding p(2) using follow_entry [OF ok t e4 4(2)] cell [OF t] 3 by simp
  then show ?thesis
    unfolding mmu_translate_def translate_path [OF path] e4
    using table_entry [OF ok t 4(2)] by (simp add: pml_present_def)
qed

lemma high_indices:
  "unat (walk_index 3 (mmu_to_virt p)) = 511" "l \<le> 2 \<Longrightarrow> walk_index l (mmu_to_virt p) = walk_index l p"
proof -
  have "walk_index 3 (mmu_to_virt p) = mask 9"
    unfolding walk_index_def mmu_to_virt_def high_map by (rule bit_word_eqI) (auto simp: bit_simps)
  then show "unat (walk_index 3 (mmu_to_virt p)) = 511" by (simp add: mask_eq_exp_minus_1)
  assume "l \<le> 2"
  then show "walk_index l (mmu_to_virt p) = walk_index l p"
    unfolding walk_index_def mmu_to_virt_def high_map by (auto intro!: bit_word_eqI simp: bit_simps)
qed

text \<open>Addresses split at a page boundary.\<close>

lemma split_address:
  fixes x :: u64
  shows "of_nat (unat x div 2 ^ k * 2 ^ k) = push_bit k (drop_bit k x)"
    "push_bit k (drop_bit k x) OR take_bit k x = x"
proof -
  have d: "drop_bit k x = of_nat (unat x div 2 ^ k)"
    by (simp flip: drop_bit_eq_div unat_drop_bit_eq)
  show "of_nat (unat x div 2 ^ k * 2 ^ k) = push_bit k (drop_bit k x)"
    unfolding push_bit_eq_mult d by simp
  show "push_bit k (drop_bit k x) OR take_bit k x = x" by (rule bit_word_eqI) (auto simp: bit_simps)
qed

lemma split_fits:
  fixes x :: u64
  assumes "unat x < 2 ^ 52" "12 \<le> k"
  shows "take_bit 12 (push_bit k (drop_bit k x)) = 0"
    "take_bit 52 (push_bit k (drop_bit k x)) = push_bit k (drop_bit k x)"
proof -
  show "take_bit 12 (push_bit k (drop_bit k x)) = 0" using assms(2) by (auto intro!: bit_word_eqI simp: bit_simps)
  have "take_bit 52 x = x"
    using assms(1) by (simp add: word_unat_eq_iff unsigned_take_bit_eq take_bit_nat_eq_self)
  then have "bit x n \<Longrightarrow> n < 52" for n using bit_take_bit_iff [of 52 x n] by simp
  then show "take_bit 52 (push_bit k (drop_bit k x)) = push_bit k (drop_bit k x)"
    by (auto intro!: bit_word_eqI simp: bit_simps)
qed

lemma digits_512: "x div 512 * (512 * m) + x mod 512 * m = x * (m :: nat)"
proof -
  have "x div 512 * (512 * m) + x mod 512 * m = (x div 512 * 512 + x mod 512) * m"
    by (simp only: add_mult_distrib mult.assoc)
  then show ?thesis by (simp only: div_mult_mod_eq)
qed

lemma translate_high:
  assumes b: "booted L c ff n s" and p: "unat p < 2 ^ 39"
  shows "mmu_translate (mmu_to_virt p) s = (if unat p < 2 ^ 36 then p else - 2)"
proof -
  let ?va = "mmu_to_virt p" and ?k = "unat p div 2 ^ 30" and ?i = "unat p div 2 ^ 21 mod 512"
  have i2: "unat (walk_index 2 ?va) = ?k" using p by (simp add: high_indices unat_walk_index)
  have i1: "unat (walk_index 1 ?va) = ?i" using high_indices(2) [of 1 p] unat_walk_index [of 1 p] by simp
  have h4: "boot_cell L c ff n H4 (unat (walk_index 3 ?va)) = table_at L H3 OR 3"
    by (simp add: high_indices)
  show ?thesis
  proof (cases "unat p < 2 ^ 36")
    case True
    then have k: "?k < 64" by (simp add: less_mult_imp_div_less)
    have "?k = unat p div 2 ^ 21 div 512" by (simp add: div_mult2_eq [symmetric])
    then have "?k * 2 ^ 30 + ?i * 2 ^ 21 = unat p div 2 ^ 21 * 2 ^ 21"
      using digits_512 [of "unat p div 2097152" 2097152] by simp
    from arg_cong [OF this, of "of_nat :: nat \<Rightarrow> u64"]
    have x: "push_bit 30 (of_nat ?k) + push_bit 21 (of_nat ?i) = push_bit 21 (drop_bit 21 p)"
      unfolding split_address(1) by (simp add: push_bit_eq_mult mult.commute)
    have "unat p < 2 ^ 52" using p by simp
    note e = entry_of_flags [OF split_fits [OF this, of 21], of "0x83"]
    have leaf: "boot_cell L c ff n (H2 ?k) (unat (walk_index 1 ?va)) = push_bit 21 (drop_bit 21 p) OR 0x83"
      unfolding i1 using x by simp
    have h3: "boot_cell L c ff n H3 (unat (walk_index 2 ?va)) = table_at L (H2 ?k) OR 3" using k i2 by simp
    have "take_bit 21 ?va = take_bit 21 p" by (simp add: take_mmu_to_virt)
    then show ?thesis
      using booted_path(1) [OF b _ _ h4 _ h3] leaf e k True split_address(2) [of 21 p]
      by (simp del: boot_cell.simps)
  next
    case False
    then have "64 \<le> ?k" by simp
    then show ?thesis using booted_missing [OF b _ h4] i2 False by simp
  qed
qed

text \<open>A small page through the low tables or the metadata tables.\<close>

lemma page_leaf:
  fixes x va :: u64
  assumes "unat x < 2 ^ 52" "take_bit 12 x = take_bit 12 va"
  shows "(let e = push_bit 12 (drop_bit 12 x) OR 3
    in if pml_present e then push_bit 12 (pml_address e) OR take_bit 12 va else - 4) = x"
  using entry_of_flags [OF split_fits [OF assms(1), of 12], of 3] split_address(2) [of 12 x] assms(2)
  by (simp add: Let_def)

lemma translate_low:
  assumes b: "booted L c ff n s" and va: "unat va < c * 2 ^ 21"
  shows "mmu_translate va s = (if unat va < 4096 then - 4 else va)"
proof -
  let ?k = "unat va div 2 ^ 21" and ?i = "unat va div 2 ^ 12 mod 512"
  have c: "c \<le> 32" using b by (simp add: booted_def)
  then have small: "unat va < 2 ^ 26" using va by simp
  have k: "?k < c" using va by (simp add: less_mult_imp_div_less)
  have i3: "unat (walk_index 3 va) = 0" and i2: "unat (walk_index 2 va) = 0"
    and i1: "unat (walk_index 1 va) = ?k" and i0: "unat (walk_index 0 va) = ?i"
    using small k c by (simp_all add: unat_walk_index)
  have h4: "boot_cell L c ff n H4 (unat (walk_index 3 va)) = table_at L L3 OR 7" using i3 by simp
  have h3: "boot_cell L c ff n L3 (unat (walk_index 2 va)) = table_at L L2 OR 7" using i2 by simp
  have h2: "boot_cell L c ff n L2 (unat (walk_index 1 va)) = table_at L (L1 ?k) OR 3" using i1 k by simp
  note path = booted_path(2) [OF b _ _ h4 _ h3 _ _ h2]
  have kd: "?k = unat va div 2 ^ 12 div 512" by (simp add: div_mult2_eq [symmetric])
  have zero: "?k = 0 \<and> ?i = 0 \<longleftrightarrow> unat va < 4096"
    unfolding kd using div_mult_mod_eq [of "unat va div 4096" 512] by (auto simp: div_eq_0_iff)
  have "?k * 0x200000 + ?i * 0x1000 = unat va div 2 ^ 12 * 2 ^ 12"
    using digits_512 [of "unat va div 4096" 4096] kd by simp
  from arg_cong [OF this, of "of_nat :: nat \<Rightarrow> u64"]
  have "0x200000 * of_nat ?k + 0x1000 * of_nat ?i = push_bit 12 (drop_bit 12 va)"
    unfolding split_address(1) by (simp add: mult.commute)
  then have leaf: "boot_cell L c ff n (L1 ?k) (unat (walk_index 0 va)) =
      (if unat va < 4096 then 0 else push_bit 12 (drop_bit 12 va) OR 3)"
    unfolding i0 boot_cell.simps zero using k by simp
  have "unat va < 2 ^ 52" using small by simp
  then show ?thesis
    using path page_leaf [of va va] k c unfolding leaf by (simp add: pml_present_def del: boot_cell.simps)
qed

lemma heap_region: "KERNEL_HEAP_START = NOT (mask 40)"
  by (simp add: mask_eq_exp_minus_1)

lemma heap_address:
  assumes "unat x < 2 ^ 39"
  shows "KERNEL_HEAP_START + x = x OR NOT (mask 40)" "unat (walk_index 3 (KERNEL_HEAP_START + x)) = 510"
    "l \<le> 2 \<Longrightarrow> walk_index l (KERNEL_HEAP_START + x) = walk_index l x"
    "take_bit 12 (KERNEL_HEAP_START + x) = take_bit 12 x"
proof -
  have "take_bit 39 x = x"
    using assms by (simp add: word_unat_eq_iff unsigned_take_bit_eq take_bit_nat_eq_self)
  then have x: "bit x n \<Longrightarrow> n < 39" for n using bit_take_bit_iff [of 39 x n] by simp
  have "x AND NOT (mask 40) = 0" by (rule bit_word_eqI) (auto simp: bit_simps dest: x)
  then show eq: "KERNEL_HEAP_START + x = x OR NOT (mask 40)"
    unfolding heap_region by (subst add.commute) (rule disjunctive_add_eq_or)
  have "walk_index 3 (x OR NOT (mask 40)) = mask 9 AND NOT 1"
    unfolding walk_index_def by (rule bit_word_eqI) (auto simp: bit_simps dest: x)
  then show "unat (walk_index 3 (KERNEL_HEAP_START + x)) = 510"
    unfolding eq by (simp add: mask_eq_exp_minus_1)
  show "take_bit 12 (KERNEL_HEAP_START + x) = take_bit 12 x"
    unfolding eq by (rule bit_word_eqI) (auto simp: bit_simps)
  assume "l \<le> 2"
  then show "walk_index l (KERNEL_HEAP_START + x) = walk_index l x"
    unfolding eq walk_index_def by (auto intro!: bit_word_eqI simp: bit_simps)
qed

lemma add_aligned:
  fixes ff x :: u64
  assumes "unat ff mod 4096 = 0" "unat ff + unat x < 2 ^ 52"
  shows "unat (ff + x) = unat ff + unat x"
    "ff + push_bit 12 (of_nat (unat x div 4096)) = push_bit 12 (drop_bit 12 (ff + x))"
    "take_bit 12 (ff + x) = take_bit 12 x"
proof -
  show u: "unat (ff + x) = unat ff + unat x" using assms(2) by (simp add: unat_word_ariths(1))
  obtain q where q: "unat ff = 4096 * q" using assms(1) by (auto elim: dvdE)
  have "unat (ff + x) div 4096 = q + unat x div 4096" unfolding u q by simp
  then have "push_bit 12 (drop_bit 12 (ff + x)) = of_nat (4096 * q + unat x div 4096 * 4096)"
    using split_address(1) [of "ff + x" 12] by (simp add: algebra_simps)
  also have "\<dots> = of_nat (unat ff) + of_nat (unat x div 4096 * 4096)" unfolding q by (rule of_nat_add)
  finally show "ff + push_bit 12 (of_nat (unat x div 4096)) = push_bit 12 (drop_bit 12 (ff + x))"
    by (simp add: push_bit_eq_mult mult.commute)
  have "unat (take_bit 12 (ff + x)) = unat (take_bit 12 x)"
    unfolding unsigned_take_bit_eq u q by (simp add: take_bit_eq_mod)
  then show "take_bit 12 (ff + x) = take_bit 12 x" by (simp add: word_unat_eq_iff)
qed

lemma translate_metadata:
  assumes b: "booted L c ff n s" and x: "unat x < n * 4096" and ff: "unat ff mod 4096 = 0" "unat ff < 2 ^ 40"
  shows "mmu_translate (KERNEL_HEAP_START + x) s = ff + x"
proof -
  let ?va = "KERNEL_HEAP_START + x" and ?k = "unat x div 2 ^ 21" and ?i = "unat x div 2 ^ 12 mod 512"
  have n: "n \<le> 1536" using b by (simp add: booted_def)
  then have small: "unat x < 1536 * 4096" using x by simp
  then have lt: "unat x < 2 ^ 39" by simp
  have k: "?k < 3" using small by (simp add: less_mult_imp_div_less)
  note h = heap_address [OF lt]
  have i2: "unat (walk_index 2 ?va) = 0" and i1: "unat (walk_index 1 ?va) = ?k"
    and i0: "unat (walk_index 0 ?va) = ?i"
    using h(3) [of 2] h(3) [of 1] h(3) [of 0] small k by (simp_all add: unat_walk_index)
  have h4: "boot_cell L c ff n H4 (unat (walk_index 3 ?va)) = table_at L K3 OR 3" using h(2) by simp
  have h3: "boot_cell L c ff n K3 (unat (walk_index 2 ?va)) = table_at L K2 OR 3" using i2 by simp
  have h2: "boot_cell L c ff n K2 (unat (walk_index 1 ?va)) = table_at L (K1 ?k) OR 3" using i1 k by simp
  have "?k = unat x div 2 ^ 12 div 512" by (simp add: div_mult2_eq [symmetric])
  then have ki: "?k * 512 + ?i = unat x div 4096" using div_mult_mod_eq [of "unat x div 4096" 512] by simp
  have "unat x div 4096 < n" using x by (simp add: less_mult_imp_div_less)
  have sum: "unat ff + unat x < 2 ^ 52" using ff(2) lt by simp
  note a = add_aligned [OF ff(1) sum]
  have leaf: "boot_cell L c ff n (K1 ?k) (unat (walk_index 0 ?va)) = push_bit 12 (drop_bit 12 (ff + x)) OR 3"
    unfolding i0 boot_cell.simps ki using \<open>unat x div 4096 < n\<close> a(2) by simp
  have "unat (ff + x) < 2 ^ 52" using a(1) sum by simp
  from page_leaf [OF this, of ?va] a(3) h(4) show ?thesis
    using booted_path(2) [OF b _ _ h4 _ h3 _ _ h2] k unfolding leaf by (simp del: boot_cell.simps)
qed

text \<open>Initialisation leads to such a state.\<close>

lemma mmu_init_booted:
  fixes s :: "'a kheap_scheme"
  assumes "layout_ok L" "\<And>T i. is_table T \<Longrightarrow> i < 512 \<Longrightarrow> cell L s T i = 0"
    and "low_pml2_count a \<le> 32" "unat memsize < 2 ^ 32" "unat kernel_end < 2 ^ 39"
  shows "\<exists>t. mmu_init L a memsize kernel_end s = Inr t \<and>
    booted L (unat (low_pml2_count a)) ((kernel_end + PAGE_LOW_MASK) AND PAGE_SIZE_MASK) (metadata_pages memsize) t \<and>
    free_block_list t = NULL \<and> heap_end t = KERNEL_HEAP_START + of_nat (metadata_pages memsize * 4096) \<and>
    irq_handlers t 0x0E = Some Page_fault_handler"
proof -
  have "metadata_pages memsize \<le> 1536" using metadata_round(2) [OF assms(4)] by simp
  moreover have "unat (low_pml2_count a) \<le> 32" using assms(3) by (simp add: word_le_nat_alt)
  ultimately show ?thesis using mmu_init_returns [OF assms] assms(1) by (auto simp: booted_def)
qed

section \<open>Properties\<close>

text \<open>
  C8: With less than 4 GiB of memory, zeroed tables and a low map that fits its 32 tables, \<open>mmu_init\<close>
  returns and the new address space is as intended, except for its size: the first 64 GiB of
  physical memory (not 128, as the comment says) appear at \<open>HIGH_MAP_REGION\<close>, the rest of that
  region is unmapped, the low map is the identity without the page at 0, and the start of the
  heap region maps the pages behind the kernel.  The heap is empty and begins behind them, and
  the page fault handler is installed.
\<close>

theorem mmu_init_maps:
  fixes s :: "'a kheap_scheme"
  assumes "layout_ok L" "\<And>T i. is_table T \<Longrightarrow> i < 512 \<Longrightarrow> cell L s T i = 0"
    and "low_pml2_count kernel_end_addr \<le> 32" "unat memsize < 2 ^ 32" "unat kernel_end < 2 ^ 39"
  shows "\<exists>t. mmu_init L kernel_end_addr memsize kernel_end s = Inr t \<and>
    (\<forall>p. unat p < 2 ^ 39 \<longrightarrow> mmu_translate (mmu_to_virt p) t = (if unat p < 2 ^ 36 then p else - 2)) \<and>
    (\<forall>va. unat va < unat (low_pml2_count kernel_end_addr) * 2 ^ 21 \<longrightarrow>
       mmu_translate va t = (if unat va < 4096 then - 4 else va)) \<and>
    (\<forall>x. unat x < metadata_pages memsize * 4096 \<longrightarrow> mmu_translate (KERNEL_HEAP_START + x) t =
       ((kernel_end + PAGE_LOW_MASK) AND PAGE_SIZE_MASK) + x) \<and>
    free_block_list t = NULL \<and> heap_end t = KERNEL_HEAP_START + of_nat (metadata_pages memsize * 4096) \<and>
    irq_handlers t 0x0E = Some Page_fault_handler"
proof -
  let ?c = "unat (low_pml2_count kernel_end_addr)" and ?ff = "(kernel_end + PAGE_LOW_MASK) AND PAGE_SIZE_MASK"
  obtain t where t: "mmu_init L kernel_end_addr memsize kernel_end s = Inr t"
    "free_block_list t = NULL" "heap_end t = KERNEL_HEAP_START + of_nat (metadata_pages memsize * 4096)"
    "irq_handlers t 0x0E = Some Page_fault_handler"
    and b: "booted L ?c ?ff (metadata_pages memsize) t"
    using mmu_init_booted [OF assms] by blast
  have "unat kernel_end + 4095 < 2 ^ 64" using assms(5) by simp
  note ff = page_round(1) [OF this]
  then have a: "unat ?ff mod 4096 = 0" by simp
  have "unat ?ff \<le> unat kernel_end + 4095" unfolding ff by (simp add: pages_for_def)
  then have "unat ?ff < 2 ^ 40" using assms(5) by simp
  have "\<forall>p. unat p < 2 ^ 39 \<longrightarrow> mmu_translate (mmu_to_virt p) t = (if unat p < 2 ^ 36 then p else - 2)"
    using translate_high [OF b] by blast
  moreover have "\<forall>va. unat va < ?c * 2 ^ 21 \<longrightarrow> mmu_translate va t = (if unat va < 4096 then - 4 else va)"
    using translate_low [OF b] by blast
  moreover have "\<forall>x. unat x < metadata_pages memsize * 4096 \<longrightarrow> mmu_translate (KERNEL_HEAP_START + x) t = ?ff + x"
    using translate_metadata [OF b _ a \<open>unat ?ff < 2 ^ 40\<close>] by blast
  ultimately show ?thesis using t by blast
qed

definition sample_layout :: table_layout where
  "sample_layout = \<lparr>high_base_pml4 = 0x130000, high_base_pml3 = 0x131000, high_base_pml2s = 0x132000,
     low_base_pml4s = 0x172000, low_base_pml2s = 0x174000, heap_base_pml3 = 0x194000,
     heap_base_pml2 = 0x195000, heap_base_pml1 = 0x196000\<rparr>"

fun table_no :: "table \<Rightarrow> nat" where
  "table_no H4 = 304" | "table_no H3 = 305" | "table_no (H2 i) = 306 + i" | "table_no L3 = 370"
| "table_no L2 = 371" | "table_no (L1 i) = 372 + i" | "table_no K3 = 404" | "table_no K2 = 405"
| "table_no (K1 i) = 406 + i"

lemma sample_layout_ok: "layout_ok sample_layout"
proof -
  have at: "table_at sample_layout T = of_nat (table_no T * 4096)" for T
    by (cases T) (simp_all add: sample_layout_def row_def)
  have small: "is_table T \<Longrightarrow> table_no T < 409" for T by (cases T) simp_all
  have inj: "is_table T \<Longrightarrow> is_table U \<Longrightarrow> table_no T = table_no U \<Longrightarrow> T = U" for T U
    by (cases T; cases U) simp_all
  have u: "unat (of_nat (table_no T * 4096) :: u64) = table_no T * 4096" if "is_table T" for T
    using small [OF that] by (simp del: of_nat_mult)
  have "inj_on (table_at sample_layout) {T. is_table T}"
  proof (rule inj_onI)
    fix T U assume T: "T \<in> {T. is_table T}" "U \<in> {T. is_table T}" "table_at sample_layout T = table_at sample_layout U"
    then have "table_no T * 4096 = table_no U * 4096" using u [of T] u [of U] unfolding at by auto
    then show "T = U" using inj T by simp
  qed
  moreover have "take_bit 12 (table_at sample_layout T) = 0 \<and>
      take_bit 39 (table_at sample_layout T) = table_at sample_layout T" if "is_table T" for T
    unfolding at word_unat_eq_iff unsigned_take_bit_eq u [OF that] using small [OF that]
    by (simp add: take_bit_eq_mod)
  ultimately show ?thesis unfolding layout_ok_def by blast
qed

theorem mmu_init_maps_witness:
  "\<exists>t. mmu_init sample_layout 0x180000 0x10000000 0x270123 ((sample_heap [] (0x30000, 0))\<lparr>pmem := \<lambda>_. 0\<rparr>) = Inr t \<and>
     mmu_translate (mmu_to_virt 0xB8000) t = 0xB8000 \<and> mmu_translate 0 t = - 4 \<and>
     mmu_translate 0xB8000 t = 0xB8000 \<and> mmu_translate (KERNEL_HEAP_START + 0x1234) t = 0x272234"
proof -
  have "low_pml2_count 0x180000 = 8" by (simp add: low_pml2_count_def)
  moreover have "metadata_pages 0x10000000 = 8" by (simp add: metadata_pages_def pages_for_def)
  ultimately obtain t where
    t: "mmu_init sample_layout 0x180000 0x10000000 0x270123 ((sample_heap [] (0x30000, 0))\<lparr>pmem := \<lambda>_. 0\<rparr>) = Inr t"
    and high: "\<forall>p. unat p < 2 ^ 39 \<longrightarrow> mmu_translate (mmu_to_virt p) t = (if unat p < 2 ^ 36 then p else - 2)"
    and low: "\<forall>va. unat va < 8 * 2 ^ 21 \<longrightarrow> mmu_translate va t = (if unat va < 4096 then - 4 else va)"
    and heap: "\<forall>x. unat x < 8 * 4096 \<longrightarrow> mmu_translate (KERNEL_HEAP_START + x) t = 0x271000 + x"
    using mmu_init_maps [OF sample_layout_ok, of "(sample_heap [] (0x30000, 0))\<lparr>pmem := \<lambda>_. 0\<rparr>"
        "0x180000" "0x10000000" "0x270123"]
    by (auto simp: cell_def)
  then show ?thesis
    using high [rule_format, of "0xB8000"] low [rule_format, of 0] low [rule_format, of "0xB8000"]
      heap [rule_format, of "0x1234"] by simp
qed

section \<open>Page fault reports\<close>

text \<open>The report for an error code, behind the first line.\<close>

definition page_fault_text :: "u64 \<Rightarrow> string" where
  "page_fault_text err =
     ''Cause: '' @ (if bit err 0 then [] else ''page is not present '') @
     (if bit err 3 then ''reserved bit set '' else []) @
     (if bit err 5 then ''protection-key violation '' else []) @
     (if bit err 6 then ''shadow-stack access '' else []) @
     (if bit err 15 then ''SGX violation'' else []) @ [CHR 0x0A] @
     ''On: '' @ (if bit err 4 then ''instruction fetch'' else ''Data '' @ (if bit err 1 then ''write'' else ''read'')) @
     [CHR 0x0A] @ ''Blame: '' @ (if bit err 2 then ''user'' else ''kernel'')"

lemma print_if_plain:
  "CHR ''%'' \<notin> set msg \<Longrightarrow> print_if b msg s = Inr (fold vga_putchar (map of_char (if b then msg else [])) s)"
  by (simp add: print_if_def printk_plain)

lemma printk_choice: "(if b then printk x [] s else printk y [] s) = printk (if b then x else y) [] s"
  by simp

lemma if_not_swap: "(if \<not> b then x else y) = (if b then y else x)"
  by simp

lemma printk_address:
  "printk (''Page fault at address 0x%x'' @ [CHR 0x0A]) [Slot a] s =
     Inr ((fold vga_putchar (map of_char ''Page fault at address 0x'' @
        number_out (stray s (conversions s)) 16 a @ [10]) s)\<lparr>conversions := Suc (conversions s)\<rparr>)"
proof -
  have "format_out g k (map of_char (''Page fault at address 0x%x'' @ [CHR 0x0A])) [Slot a] =
      Inr (map of_char ''Page fault at address 0x'' @ number_out (g k) 16 a @ [10], Suc k)" for g k
    by simp
  moreover have "args_ok [Slot a]" by simp
  ultimately show ?thesis
    unfolding printk_def by (simp only: vprintk_format_out after_output_def prod.case rbind_simps)
qed

text \<open>The parts of the report that are plain text.\<close>

lemma report_texts:
  "print_if b ''page is not present '' s = Inr (fold vga_putchar (map of_char (if b then ''page is not present '' else [])) s)"
  "print_if b ''reserved bit set '' s = Inr (fold vga_putchar (map of_char (if b then ''reserved bit set '' else [])) s)"
  "print_if b ''protection-key violation '' s =
     Inr (fold vga_putchar (map of_char (if b then ''protection-key violation '' else [])) s)"
  "print_if b ''shadow-stack access '' s = Inr (fold vga_putchar (map of_char (if b then ''shadow-stack access '' else [])) s)"
  "print_if b ''SGX violation'' s = Inr (fold vga_putchar (map of_char (if b then ''SGX violation'' else [])) s)"
  "printk ''Cause: '' [] s = Inr (fold vga_putchar (map of_char ''Cause: '') s)"
  "printk [CHR 0x0A] [] s = Inr (fold vga_putchar (map of_char [CHR 0x0A]) s)"
  "printk ''On: '' [] s = Inr (fold vga_putchar (map of_char ''On: '') s)"
  "printk ''Blame: '' [] s = Inr (fold vga_putchar (map of_char ''Blame: '') s)"
  "printk (if b then ''user'' else ''kernel'') [] s = Inr (fold vga_putchar (map of_char (if b then ''user'' else ''kernel'')) s)"
  by (rule print_if_plain printk_plain, simp)+

lemma page_fault_report_text:
  "page_fault_report fault_addr r s =
     Inr ((fold vga_putchar (map of_char ''Page fault at address 0x'' @
        number_out (stray s (conversions s)) 16 fault_addr @ [10] @
        map of_char (page_fault_text (err_code r))) s)\<lparr>conversions := Suc (conversions s)\<rparr>)"
proof -
  note errs = err_present_def err_write_def err_user_def err_reserved_set_def err_instruction_fetch_def
    err_prot_key_viol_def err_shadow_stack_acc_def err_sgx_viol_def
  have kind: "(if b then printk ''instruction fetch'' [] u
      else rbind (printk ''Data '' [] u) (\<lambda>s. printk (if w then ''write'' else ''read'') [] s)) =
    Inr (fold vga_putchar (map of_char (if b then ''instruction fetch'' else ''Data '' @ (if w then ''write'' else ''read''))) u)"
    for b w and u :: "'a console_scheme" by (simp add: printk_plain)
  show ?thesis
    unfolding page_fault_report_def printk_address Let_def errs page_fault_text_def printk_choice
    by (simp only: report_texts kind if_not_swap rbind_simps fold_append o_apply map_append append_assoc
        fold_putchar_conversions)
qed

text \<open>What the handler leaves: the report on the screen, nothing else but \<open>printk\<close>'s count of conversions.\<close>

lemma page_fault_handler_halts:
  "page_fault_handler cr2 r s = Inr (Aborted,
     (fold vga_putchar (map of_char ''Page fault at address 0x'' @
        number_out (stray s (conversions s)) 16 cr2 @ [10] @
        map of_char (page_fault_text (err_code r))) s)\<lparr>conversions := Suc (conversions s)\<rparr>)"
  by (simp only: page_fault_handler_def get_cr2_def Let_def page_fault_report_text rbind_simps)

text \<open>The three lines of the text, and that each tells the bits it was made from.\<close>

definition cause_line :: "bool \<Rightarrow> bool \<Rightarrow> bool \<Rightarrow> bool \<Rightarrow> bool \<Rightarrow> string" where
  "cause_line p r k h g =
     ''Cause: '' @ (if p then [] else ''page is not present '') @ (if r then ''reserved bit set '' else []) @
     (if k then ''protection-key violation '' else []) @ (if h then ''shadow-stack access '' else []) @
     (if g then ''SGX violation'' else [])"

definition access_line :: "bool \<Rightarrow> bool \<Rightarrow> string" where
  "access_line f w = ''On: '' @ (if f then ''instruction fetch'' else ''Data '' @ (if w then ''write'' else ''read''))"

definition blame_line :: "bool \<Rightarrow> string" where
  "blame_line u = ''Blame: '' @ (if u then ''user'' else ''kernel'')"

lemma page_fault_lines:
  "page_fault_text e = cause_line (bit e 0) (bit e 3) (bit e 5) (bit e 6) (bit e 15) @ CHR 0x0A #
     access_line (bit e 4) (bit e 1) @ CHR 0x0A # blame_line (bit e 2)"
  by (simp add: page_fault_text_def cause_line_def access_line_def blame_line_def)

lemma lines_plain: "CHR 0x0A \<notin> set (cause_line p r k h g)" "CHR 0x0A \<notin> set (access_line f w)"
  by (auto simp: cause_line_def access_line_def)

lemma optional_word:
  assumes "w \<noteq> []" "take (length w) u \<noteq> w" "take (length w) v \<noteq> w"
  shows "(if b then w else []) @ u = (if c then w else []) @ v \<longleftrightarrow> b = c \<and> u = v"
  using assms by (cases b; cases c) (auto simp: append_eq_append_conv_if)

lemma cause_line_inj:
  "cause_line p r k h g = cause_line p' r' k' h' g' \<longleftrightarrow> p = p' \<and> r = r' \<and> k = k' \<and> h = h' \<and> g = g'"
proof -
  have flip: "(if b then [] else w) = (if \<not> b then w else [])" for b and w :: string by simp
  show ?thesis
    unfolding cause_line_def flip same_append_eq by (subst optional_word, simp, simp, simp)+ auto
qed

lemma access_line_inj: "access_line f w = access_line f' w' \<longleftrightarrow> f = f' \<and> (f \<or> w = w')"
  unfolding access_line_def by (cases f; cases w; cases f'; cases w'; simp)

lemma blame_line_inj: "blame_line u = blame_line u' \<longleftrightarrow> u = u'"
  unfolding blame_line_def by (cases u; cases u'; simp)

lemma append_sep_inj: "c \<notin> set xs \<Longrightarrow> c \<notin> set ys \<Longrightarrow> xs @ c # us = ys @ c # vs \<longleftrightarrow> xs = ys \<and> us = vs"
proof (induction xs arbitrary: ys)
  case Nil
  then show ?case by (cases ys) auto
next
  case (Cons x xs)
  then show ?case by (cases ys) auto
qed

lemma page_fault_text_tells:
  "page_fault_text e = page_fault_text e' \<longleftrightarrow>
     map (bit e) [0, 2, 3, 4, 5, 6, 15] = map (bit e') [0, 2, 3, 4, 5, 6, 15] \<and> (bit e 4 \<or> bit e 1 = bit e' 1)"
  unfolding page_fault_lines append_sep_inj [OF lines_plain(1) lines_plain(1)] append_sep_inj [OF lines_plain(2) lines_plain(2)]
    cause_line_inj access_line_inj blame_line_inj by auto

text \<open>
  C40: The page fault handler puts the address in the register \<open>cr2\<close> in hexadecimal and three lines made from the error
  code on the screen, changes nothing else, and halts there; it never returns to the interrupted code.
  The three lines tell every bit of the error code that the handler knows: two error codes give the
  same text only if they agree on cause, origin and kind of access, where reading and writing differ for
  data only.
\<close>

theorem page_fault_handler_reports:
  "page_fault_handler cr2 r s = Inr (Aborted,
     (fold vga_putchar (map of_char ''Page fault at address 0x'' @
        number_out (stray s (conversions s)) 16 cr2 @ [10] @
        map of_char (page_fault_text (err_code r))) s)\<lparr>conversions := Suc (conversions s)\<rparr>) \<and>
   (page_fault_text (err_code r) = page_fault_text e \<longleftrightarrow>
     map (bit (err_code r)) [0, 2, 3, 4, 5, 6, 15] = map (bit e) [0, 2, 3, 4, 5, 6, 15] \<and>
     (bit (err_code r) 4 \<or> bit (err_code r) 1 = bit e 1))"
  using page_fault_handler_halts page_fault_text_tells by blast

end
