(* ===== verification/Kmain.thy ===== *)
theory Kmain
  imports Mmu_Init Multiboot Scan_Decoder
begin

text \<open>
  The kernel as a whole: the dispatchers of \<^verbatim>\<open>src/arch/x86_64/idt.c\<close> that call the registered
  handlers, the timer handler of \<^verbatim>\<open>pit.c\<close>, and \<open>kmain\<close> of \<^verbatim>\<open>src/arch/x86_64/kmain.c\<close>, which brings
  up all components and then spins, from where on only interrupts change the state.
\<close>

section \<open>Dispatching interrupts\<close>

definition pit_interrupt :: "regs \<Rightarrow> 'a kheap_scheme \<Rightarrow> u32 \<times> 'a kheap_scheme" where
  "pit_interrupt r s = (0, s)"

text \<open>Calling the function behind a handler.  The page fault handler never gives control back.\<close>

fun run_handler :: "device \<Rightarrow> u64 \<Rightarrow> handler \<Rightarrow> regs \<Rightarrow> 'a kheap_scheme \<Rightarrow> 'a kheap_scheme result" where
  "run_handler dev cr2 Pit_interrupt r s = Inr (snd (pit_interrupt r s))"
| "run_handler dev cr2 Kbd_int_handler r s = kbd_int_handler dev s"
| "run_handler dev cr2 Page_fault_handler r s = rbind (page_fault_handler cr2 r s) (\<lambda>(f, _). Inl f)"

text \<open>The body that both dispatchers share; the table has 256 entries.\<close>

definition call_handler :: "device \<Rightarrow> u64 \<Rightarrow> regs \<Rightarrow> 'a kheap_scheme \<Rightarrow> 'a kheap_scheme result" where
  "call_handler dev cr2 r s =
     (if \<not> int_no r < 256 then Inl OutOfBounds
      else case irq_handlers s (ucast (int_no r)) of
             Some handler \<Rightarrow> run_handler dev cr2 handler r s
           | None \<Rightarrow> Inr s)"

definition isr_handler :: "device \<Rightarrow> u64 \<Rightarrow> regs \<Rightarrow> 'a kheap_scheme \<Rightarrow> (regs \<times> 'a kheap_scheme) result" where
  "isr_handler dev cr2 r s = rbind (call_handler dev cr2 r s) (\<lambda>s. Inr (r, s))"

definition irq_handler :: "device \<Rightarrow> u64 \<Rightarrow> regs \<Rightarrow> 'a kheap_scheme \<Rightarrow> (regs \<times> 'a kheap_scheme) result" where
  "irq_handler dev cr2 r s =
     rbind (call_handler dev cr2 r s) (\<lambda>s. Inr (r, irq_ack (ucast (int_no r - 32)) s))"

section \<open>Starting the kernel\<close>

abbreviation MULTIBOOT2_BOOTLOADER_MAGIC :: u32 where "MULTIBOOT2_BOOTLOADER_MAGIC \<equiv> 0x36d76289"

text \<open>
  What linker and assembler decide: the page tables, the entry stubs, the addresses of the
  interrupt table, of the symbol \<open>kernel_end\<close> and of the parameter \<open>kernel_end\<close> of \<open>mmu_init\<close>.
\<close>

record boot_env =
  page_tables :: table_layout
  isr_stubs :: "nat \<Rightarrow> u64"
  irq_stubs :: "nat \<Rightarrow> u64"
  idt_at :: u64
  kernel_end_at :: u64
  kernel_end_param :: u64

text \<open>How \<open>kmain\<close> ends: it returns, or it reaches its last line, an empty endless loop.\<close>

datatype kmain_end = Returned | Spinning

definition kmain ::
  "device \<Rightarrow> boot_env \<Rightarrow> u64 \<Rightarrow> u32 \<Rightarrow> 'a kheap_scheme \<Rightarrow> (kmain_end \<times> 'a kheap_scheme) result" where
  "kmain dev E mb_info_addr mb_magic s =
     (let s = vga_terminal_initialize s
      in if mb_magic \<noteq> MULTIBOOT2_BOOTLOADER_MAGIC then
           rbind (printk (''Fucked up magic number'' @ [CHR 0x0A]) [] s) (\<lambda>s. Inr (Returned, s))
         else
           let tags = mb_info_addr + 8
           in rbind (multiboot_get_memory_end (vmem s) tags) (\<lambda>memory_end.
              let s = idt_init (isr_stubs E) (irq_stubs E) (idt_at E) s
              in rbind (mmu_init (page_tables E) (kernel_end_param E) memory_end
                          (load64 (vmem s) (kernel_end_at E)) s) (\<lambda>s.
                 rbind (pit_init s) (\<lambda>s.
                 rbind (ps2_init dev s) (\<lambda>s.
                   let s = log_event Sti s;
                       s = ps2_kbd_command dev PS2_KBD_COM_ECHO s;
                       s = ps2_kbd_command_arg dev PS2_KBD_COM_SET_SCAN_SET 2 s
                   in rbind (printk (''Executin%c %s %d.NUIDPOCALYPSE'' @ [CHR 0x0A])
                               [Slot 103, Str (map of_char ''protocol''), Slot 666] s) (\<lambda>s.
                      rbind (printk (''[ERROR]: Password required'' @ [CHR 0x0A] @
                               ''Enter THE password to proceed: '') [] s) (\<lambda>s.
                        Inr (Spinning, s))))))))"

section \<open>What the keyboard driver leaves alone\<close>

text \<open>The interrupt and handler tables and everything beyond the driver's own state: memory, page tables, heap.\<close>

definition beyond_kbd :: "'a kbd_scheme \<Rightarrow> 'a kbd_scheme \<Rightarrow> bool" where
  "beyond_kbd s t \<longleftrightarrow> irq_handlers t = irq_handlers s \<and> IDT t = IDT s \<and> kbd.more t = kbd.more s"

lemma beyond_kbd_refl [simp]: "beyond_kbd s s"
  by (simp add: beyond_kbd_def)

lemma beyond_kbd_trans: "beyond_kbd s t \<Longrightarrow> beyond_kbd t u \<Longrightarrow> beyond_kbd s u"
  by (simp add: beyond_kbd_def)

lemma beyond_kbd_upd [simp]:
  "beyond_kbd s (expect_update f t) = beyond_kbd s t" "beyond_kbd s (ext0_update f t) = beyond_kbd s t"
  "beyond_kbd s (ext1_update f t) = beyond_kbd s t" "beyond_kbd s (released_update f t) = beyond_kbd s t"
  "beyond_kbd s (is_sysrq_update f t) = beyond_kbd s t" "beyond_kbd s (is_pause_update f t) = beyond_kbd s t"
  "beyond_kbd s (scan_code_ptr_update h t) = beyond_kbd s t" "beyond_kbd s (scan_code_buf_update g t) = beyond_kbd s t"
  "beyond_kbd s (driver_state_update f t) = beyond_kbd s t" "beyond_kbd s (kbd_scan_code_set_update f t) = beyond_kbd s t"
  "beyond_kbd s (command_queue_update k t) = beyond_kbd s t" "beyond_kbd s (next_command_idx_update j t) = beyond_kbd s t"
  "beyond_kbd s (pending_commands_update j t) = beyond_kbd s t"
  by (simp_all add: beyond_kbd_def)

lemma beyond_kbd_more: "machine.more t = machine.more s \<Longrightarrow> beyond_kbd s t"
  using more_kbd(5) [of t s] more_interrupts(1,2) [of t s] by (simp add: beyond_kbd_def)

lemma beyond_kbd_trace: "only_trace s t \<Longrightarrow> beyond_kbd s t"
  by (rule beyond_kbd_more) (rule only_trace_more)

lemma beyond_kbd_printk: "printk fmt args s = Inr t \<Longrightarrow> args_ok args \<Longrightarrow> beyond_kbd s t"
  by (rule beyond_kbd_more) (rule printk_frame(2))

text \<open>Reading a sequence of such steps.\<close>

lemma beyond_kbd_bind:
  "rbind x f = Inr t \<Longrightarrow> (\<And>u. x = Inr u \<Longrightarrow> beyond_kbd s u) \<Longrightarrow>
     (\<And>u. x = Inr u \<Longrightarrow> f u = Inr t \<Longrightarrow> beyond_kbd u t) \<Longrightarrow> beyond_kbd s t"
  using beyond_kbd_trans by auto

lemma print_event_beyond: "print_event e s = Inr t \<Longrightarrow> beyond_kbd s t"
  using beyond_kbd_printk [of "''%c''" _ s t] by (auto simp: print_event_def Let_def split: if_splits)

lemma scan_event_beyond: "scan_event data s = Inr (e, t) \<Longrightarrow> beyond_kbd s t"
  by (auto simp: scan_event_def split: if_splits)

lemma decode_byte_beyond: "decode_byte data s = Inr t \<Longrightarrow> beyond_kbd s t"
proof -
  assume d: "decode_byte data s = Inr t"
  have fin: "rbind (scan_event data s) (\<lambda>(event, s). rbind (print_event event s) (\<lambda>s.
      Inr (s\<lparr>ext1 := 0, ext0 := 0, released := 0, scan_code_ptr := 0, expect := 1\<rparr>))) = Inr t \<Longrightarrow> beyond_kbd s t"
    using scan_event_beyond print_event_beyond beyond_kbd_trans by fastforce
  show ?thesis
    using d fin unfolding decode_byte_def
    by (simp only: split: if_splits) (auto simp del: rbind_eq_Inr)
qed

lemma handle_data_beyond: "handle_data data s = Inr t \<Longrightarrow> beyond_kbd s t"
proof -
  let ?u = "s\<lparr>scan_code_buf := (scan_code_buf s)(scan_code_ptr s := data),
    scan_code_ptr := scan_code_ptr s + 1, expect := expect s - 1\<rparr>"
  assume "handle_data data s = Inr t"
  then have "decode_byte data ?u = Inr t" by (simp add: handle_data_def Let_def split: if_splits)
  from decode_byte_beyond [OF this] show ?thesis by (rule beyond_kbd_trans [rotated]) simp
qed

lemma driver_writes_beyond [simp]:
  "beyond_kbd s (ps2_port1_write dev c t) = beyond_kbd s t"
  "beyond_kbd s (queue_discard t) = beyond_kbd s t"
  "beyond_kbd s (queue_add c a t) = beyond_kbd s t"
  "beyond_kbd s (ps2_port1_disable dev t) = beyond_kbd s t"
  "beyond_kbd s (ps2_port1_enable dev t) = beyond_kbd s t"
proof -
  have "beyond_kbd t u \<Longrightarrow> beyond_kbd s u = beyond_kbd s t" for u by (auto simp: beyond_kbd_def)
  then show "beyond_kbd s (ps2_port1_write dev c t) = beyond_kbd s t"
    "beyond_kbd s (ps2_port1_disable dev t) = beyond_kbd s t"
    "beyond_kbd s (ps2_port1_enable dev t) = beyond_kbd s t"
    using ps2_only_trace(2,6) beyond_kbd_trace unfolding ps2_port1_disable_def ps2_port1_enable_def by blast+
qed (simp_all add: queue_discard_def queue_add_def)

lemma handle_next_command_beyond [simp]: "beyond_kbd s (handle_next_command dev t) = beyond_kbd s t"
  by (simp add: handle_next_command_def Let_def)

lemma ps2_kbd_command_beyond [simp]:
  "beyond_kbd s (ps2_kbd_command_arg dev c a t) = beyond_kbd s t"
  "beyond_kbd s (ps2_kbd_command dev c t) = beyond_kbd s t"
  by (simp_all add: ps2_kbd_command_def ps2_kbd_command_arg_def Let_def)

lemma report_no_ack_beyond: "report_no_ack data c s = Inr t \<Longrightarrow> beyond_kbd s t"
  unfolding report_no_ack_def
  by (auto simp del: rbind_eq_Inr split: if_splits elim!: beyond_kbd_bind dest!: beyond_kbd_printk)

lemma ask_scan_set_beyond: "ask_scan_set dev s = Inr t \<Longrightarrow> beyond_kbd s t"
proof -
  assume a: "ask_scan_set dev s = Inr t"
  obtain data u where u: "ps2_data_read dev s = (data, u)" by fastforce
  then have "only_trace s u" using ps2_only_trace(5) [of s dev] by simp
  moreover have "beyond_kbd u t"
    using a u by (auto simp: ask_scan_set_def split: if_splits dest!: beyond_kbd_printk)
  ultimately show ?thesis using beyond_kbd_trace beyond_kbd_trans by blast
qed

lemma keyboard_handler_beyond: "keyboard_handler dev data s = Inr t \<Longrightarrow> beyond_kbd s t"
  unfolding keyboard_handler_def Let_def
  by (auto simp del: rbind_eq_Inr split: if_splits elim!: beyond_kbd_bind
      dest!: beyond_kbd_printk handle_data_beyond report_no_ack_beyond ask_scan_set_beyond)

lemma kbd_int_handler_beyond: "kbd_int_handler dev s = Inr t \<Longrightarrow> beyond_kbd s t"
proof -
  assume k: "kbd_int_handler dev s = Inr t"
  obtain st u where u: "inb dev STATUS_REG s = (st, u)" by fastforce
  obtain data v where v: "inb dev DATA_PORT u = (data, v)" by fastforce
  have "beyond_kbd s u" "beyond_kbd u v"
    using beyond_kbd_trace [OF only_trace_log(3)] u v by (metis snd_conv)+
  moreover have "t = u \<or> keyboard_handler dev data v = Inr t"
    using k u v by (auto simp: kbd_int_handler_def split: if_splits)
  ultimately show ?thesis using keyboard_handler_beyond beyond_kbd_trans by metis
qed

section \<open>What the steps of \<open>kmain\<close> leave alone\<close>

lemma vga_terminal_initialize_more:
  fixes s :: "'a vga_scheme"
  shows "vga.more (vga_terminal_initialize s) = vga.more s"
proof -
  have row: "vga.more (fold (\<lambda>x. vga_putentryat c k (f x) y) xs s) = vga.more s" for c k f y and xs :: "nat list" and s :: "'a vga_scheme"
    by (induction xs arbitrary: s) simp_all
  have "vga.more (fold (\<lambda>y. fold (\<lambda>x. vga_putentryat c k (f x) (g y)) xs) ys s) = vga.more s"
    for c k f g and xs ys :: "nat list" and s :: "'a vga_scheme"
    by (induction ys arbitrary: s) (simp_all add: row)
  then show ?thesis by (simp add: vga_terminal_initialize_def Let_def del: upt_Suc)
qed

lemma machine_of_vga: "vga.more t = vga.more (s :: 'a machine_scheme) \<Longrightarrow> machine.more t = machine.more s"
  by (cases s; cases t) simp

text \<open>No command is pending and the decoder is between keystrokes.\<close>

definition between_keys :: "'a kbd_scheme \<Rightarrow> bool" where
  "between_keys s \<longleftrightarrow> decoder_idle s \<and> driver_state s = STATE_READY"

lemmas kbd_state_defs = kbd_inv_def queue_inv_def queued_def between_keys_def decoder_idle_def

lemma past_interrupts:
  fixes s t :: "'a kbd_scheme"
  assumes "interrupts.more t = interrupts.more s"
  shows "kbd_inv t = kbd_inv s" "kbd.more t = kbd.more s" "between_keys t = between_keys s" "queued t = queued s"
proof -
  have "command_queue t = command_queue s" "next_command_idx t = next_command_idx s"
    "pending_commands t = pending_commands s" "driver_state t = driver_state s" "kbd.more t = kbd.more s"
    "decoder_idle t = decoder_idle s"
    using assms by (cases s; cases t; simp add: decoder_idle_def)+
  then show "kbd_inv t = kbd_inv s" "kbd.more t = kbd.more s" "between_keys t = between_keys s" "queued t = queued s"
    by (simp_all add: kbd_inv_def queue_inv_def queued_def between_keys_def)
qed

lemma idt_init_frame:
  fixes s :: "'a interrupts_scheme"
  shows "interrupts.more (idt_init a b c s) = interrupts.more s" "irq_handlers (idt_init a b c s) = irq_handlers s"
proof -
  have gates: "interrupts.more (set_gates b stub k s) = interrupts.more s" for b stub k and s :: "'a interrupts_scheme"
    by (induction k) (simp_all add: idt_set_gate_def)
  have "interrupts.more (pic_remap s) = interrupts.more s" "irq_handlers (pic_remap s) = irq_handlers s"
    by (simp_all add: pic_remap_def Let_def outb_def log_event_def)
  then show "interrupts.more (idt_init a b c s) = interrupts.more s" "irq_handlers (idt_init a b c s) = irq_handlers s"
    by (simp_all add: idt_init_set_gates log_event_def gates)
qed

lemma pit_init_frame:
  "\<exists>t. pit_init s = Inr t \<and> interrupts.more t = interrupts.more s \<and> IDT t = IDT s \<and>
     irq_handlers t = (irq_handlers s)(TIMER_IRQ \<mapsto> Pit_interrupt)"
  by (simp add: pit_init_def pit_set_timer_freq_def irq_set_handler_def Let_def outb_def log_event_def)

lemma reset_loop_frame:
  fixes s :: "'a machine_scheme"
  shows "reset_loop dev s = Some (r, t) \<Longrightarrow> only_trace s t"
proof -
  assume r: "reset_loop dev s = Some (r, t)"
  have "only_trace s (snd (r, t))"
  proof (rule reset_loop.raw_induct [OF _ r, where P = "\<lambda>dev s y. only_trace s (snd y)"])
    fix loop dev y and s :: "'a machine_scheme"
    assume ih: "\<And>dev s y. loop dev s = Some y \<Longrightarrow> only_trace s (snd y)"
      and step: "(let (resp, s) = reset_attempt dev s in if resp = 0xFE then loop dev s else Some (resp, s)) = Some y"
    obtain resp u where u: "reset_attempt dev s = (resp, u)" by fastforce
    then have "only_trace s u" using ps2_only_trace(7) [of s dev] by simp
    then show "only_trace s (snd y)"
      using step ih [of dev u y] only_trace_trans by (auto simp: u split: if_splits)
  qed
  then show ?thesis by simp
qed

lemma ps2_start_frame:
  assumes "ps2_start dev s = Inr t"
  shows "interrupts.more t = interrupts.more s" "irq_handlers t = (irq_handlers s)(KBD_IRQ \<mapsto> Kbd_int_handler)"
    "IDT t = IDT s" "\<exists>post. hw_trace t = hw_trace s @ post"
proof -
  obtain resp u where u: "reset_loop dev s = Some (resp, u)"
    using assms by (auto simp: ps2_start_def of_loop_def split: option.splits)
  obtain failed v where v: "(if resp \<noteq> 0xFA then (True, u)
      else let (second, s) = ps2_data_read dev u in (second \<noteq> 0xAA, s)) = (failed, v)" by fastforce
  obtain w where w: "(if failed then printk ''ps2: failed to reset device at port 1'' [] v else Inr v) = Inr w"
    and t: "t = irq_set_handler KBD_IRQ Kbd_int_handler w"
    using assms u v by (auto simp: ps2_start_def)
  have "v = u \<or> v = snd (ps2_data_read dev u)" using v by (auto split: if_splits prod.splits)
  then have "only_trace s v" using reset_loop_frame [OF u] only_trace_trans ps2_only_trace(5) by metis
  then have "\<exists>post. hw_trace v = hw_trace s @ post" by (rule only_trace_extends)
  moreover have "hw_trace w = hw_trace v" using w printk_frame(1) [of _ "[]" v w] by (auto split: if_splits)
  ultimately show "\<exists>post. hw_trace t = hw_trace s @ post" by (simp add: t irq_set_handler_def)
  note \<open>only_trace s v\<close>
  moreover have "machine.more w = machine.more v" using w printk_frame(2) [of _ "[]" v w] by (auto split: if_splits)
  ultimately have "interrupts.more w = interrupts.more s" "irq_handlers w = irq_handlers s" "IDT w = IDT s"
    using more_interrupts [of w v] only_trace_interrupts [of s v] by simp_all
  then show "interrupts.more t = interrupts.more s" "irq_handlers t = (irq_handlers s)(KBD_IRQ \<mapsto> Kbd_int_handler)"
    "IDT t = IDT s" by (simp_all add: t irq_set_handler_def)
qed

lemma ps2_init_frame:
  assumes "ps2_init dev s = Inr t"
  shows "interrupts.more t = interrupts.more s"
    "irq_handlers t \<in> {irq_handlers s, (irq_handlers s)(KBD_IRQ \<mapsto> Kbd_int_handler)}" "IDT t = IDT s"
proof -
  let ?name = "fold (\<lambda>i. ps2_command_arg dev (0x61 + of_nat i) (nuid64_str ! i)) [0..<6]"
  obtain config response s4 h1 h2 where init: "ps2_init dev s = (if response \<noteq> 0x55
       then printk (''ps2: controller self-test failed'' @ [CHR 0x0A]) [] s4
       else ps2_start dev (ps2_command dev COMMAND_PORT1_ENABLE (?name s4)))" and s4: "only_trace s s4"
    "outs (hw_trace s4) = outs (hw_trace s) @ setup_writes (new_config config)" "config = dev h1 DATA_PORT"
    "outs h1 = outs (hw_trace s) @ [(0x64, 0xAD), (0x64, 0xA7), (0x64, 0x20)]" "response = dev h2 DATA_PORT"
    "outs h2 = outs (hw_trace s) @ setup_writes (new_config config)" "hw_trace s4 = h2 @ [In DATA_PORT response]"
    by (rule ps2_init_setup)
  have "only_trace s (ps2_command dev COMMAND_PORT1_ENABLE (?name s4))"
    by (rule only_trace_trans [OF s4(1) only_trace_trans [OF fold_command_args(1) ps2_only_trace(2)]])
  note o = only_trace_interrupts [OF this] only_trace_interrupts [OF s4(1)]
  have "interrupts.more t = interrupts.more s \<and> IDT t = IDT s \<and>
    irq_handlers t \<in> {irq_handlers s, (irq_handlers s)(KBD_IRQ \<mapsto> Kbd_int_handler)}"
  proof (cases "response = 0x55")
    case True
    then show ?thesis using assms ps2_start_frame [of dev _ t] o unfolding init by simp
  next
    case False
    then have "machine.more t = machine.more s4" using assms printk_frame(2) [of _ "[]" s4 t] unfolding init by simp
    from more_interrupts [OF this] o show ?thesis by simp
  qed
  then show "interrupts.more t = interrupts.more s"
    "irq_handlers t \<in> {irq_handlers s, (irq_handlers s)(KBD_IRQ \<mapsto> Kbd_int_handler)}" "IDT t = IDT s" by simp_all
qed

lemma boot_tables_keeps:
  fixes f :: "'a mmu_scheme \<Rightarrow> 'b"
  assumes f: "\<And>p e s. f (pml_store p e s) = f s" "\<And>x s. f (s\<lparr>current_pml4 := x\<rparr>) = f s" "\<And>v s. f (set_cr3 v s) = f s"
  shows "f (boot_tables L c ff n s) = f s"
proof -
  have p: "f (put_entry t i e s) = f s" for t i e s by (simp add: put_entry_def f)
  have row: "f (fold (\<lambda>k. put_entry t k (h k)) xs s) = f s" for t h xs s
    by (induction xs arbitrary: s) (simp_all add: p)
  have "f (fold (\<lambda>j s. fold (\<lambda>k. put_entry (table_at L (R j)) k (g j k)) [0..<512]
         (put_entry (table_at L U) j (h j) s)) xs s) = f s" for U R h g s and xs :: "nat list"
    by (induction xs arbitrary: s) (simp_all add: p row del: upt_Suc)
  then have rows: "f (fill_rows L U R h g n s) = f s" for U R h g n s by (simp add: fill_rows_def)
  show ?thesis by (simp add: boot_tables_def Let_def p row rows map_high_rows mmu_set_directory_def f)
qed

text \<open>What concerns interrupts and keyboard does not depend on memory.\<close>

lemma memory_frame [simp]:
  fixes s :: "'a kheap_scheme"
  shows "kbd_inv (pml_store p e s) = kbd_inv s" "irq_handlers (pml_store p e s) = irq_handlers s"
    "IDT (pml_store p e s) = IDT s" "IDT (set_cr3 v s) = IDT s"
    "kbd_inv (s\<lparr>current_pml4 := x\<rparr>) = kbd_inv s" "kbd_inv (set_cr3 v s) = kbd_inv s"
    "irq_handlers (set_cr3 v s) = irq_handlers s"
    "kbd_inv (irq_set_handler i h s) = kbd_inv s" "kbd_inv (log_event e' s) = kbd_inv s"
    "kbd_inv (s\<lparr>heap_start := a, heap_end := b, free_block_list := d\<rparr>) = kbd_inv s"
    "between_keys (pml_store p e s) = between_keys s" "between_keys (s\<lparr>current_pml4 := x\<rparr>) = between_keys s"
    "between_keys (set_cr3 v s) = between_keys s"
    "queued (pml_store p e s) = queued s" "queued (s\<lparr>current_pml4 := x\<rparr>) = queued s" "queued (set_cr3 v s) = queued s"
    "hw_trace (pml_store p e s) = hw_trace s" "outs (hw_trace (set_cr3 v s)) = outs (hw_trace s)"
  by (simp_all add: pml_store_def set_cr3_def log_event_def irq_set_handler_def kbd_state_defs)

lemma reserve_loop_keeps:
  fixes f :: "'a palloc_scheme \<Rightarrow> 'b"
  assumes "reserve_loop a l s = Some (b, t)" "\<And>a s. f (frame_set a s) = f s"
  shows "f t = f s"
proof -
  have "f (snd (b, t)) = f s"
    by (rule reserve_loop.raw_induct [OF _ assms(1), where P = "\<lambda>a l s y. f (snd y) = f s"])
      (auto simp: assms(2) split: if_splits)
  then show ?thesis by simp
qed

lemma page_allocator_init_frame:
  fixes s :: "'a kheap_scheme"
  assumes "page_allocator_init ff memsize s = Inr t"
  shows "kbd_inv t = kbd_inv s" "irq_handlers t = irq_handlers s" "IDT t = IDT s" "between_keys t = between_keys s"
    "queued t = queued s" "outs (hw_trace t) = outs (hw_trace s)"
proof -
  let ?n = "ucast (drop_bit PAGE_SHIFT memsize) :: u32"
  let ?s1 = "s\<lparr>nframes := ?n, frames := KERNEL_HEAP_START,
    vmem := fst (memset (vmem s) KERNEL_HEAP_START 0 (ucast ?n div 8))\<rparr>"
  obtain b u where u: "reserve_loop 0 (ff + ucast ?n div 8) ?s1 = Some (b, u)"
    and t: "t = u\<lparr>total_memory := (ucast (nframes u) - b) * PAGE_SIZE, unavailable_memory := b * PAGE_SIZE\<rparr>"
    using assms by (auto simp: page_allocator_init_def Let_def of_loop_def split: option.splits)
  have "kbd_inv (frame_set a s) = kbd_inv s" "irq_handlers (frame_set a s) = irq_handlers s" "IDT (frame_set a s) = IDT s"
    "between_keys (frame_set a s) = between_keys s" "queued (frame_set a s) = queued s"
    "hw_trace (frame_set a s) = hw_trace s" for a and s :: "'a kheap_scheme"
    by (simp_all add: frame_set_def Let_def kbd_state_defs)
  then have "kbd_inv u = kbd_inv ?s1" "irq_handlers u = irq_handlers ?s1" "IDT u = IDT ?s1" "between_keys u = between_keys ?s1"
    "queued u = queued ?s1" "hw_trace u = hw_trace ?s1"
    using reserve_loop_keeps [OF u] by blast+
  moreover have "kbd_inv ?s1 = kbd_inv s" "kbd_inv t = kbd_inv u" "between_keys ?s1 = between_keys s"
    "between_keys t = between_keys u" "queued ?s1 = queued s" "queued t = queued u"
    unfolding t by (simp_all add: kbd_state_defs)
  ultimately show "kbd_inv t = kbd_inv s" "irq_handlers t = irq_handlers s" "IDT t = IDT s"
    "between_keys t = between_keys s" "queued t = queued s" "outs (hw_trace t) = outs (hw_trace s)"
    unfolding t by simp_all
qed

lemma mmu_init_frame:
  fixes s :: "'a kheap_scheme"
  assumes "mmu_init L a memsize kernel_end s = Inr t"
  shows "kbd_inv t = kbd_inv s" "irq_handlers t = (irq_handlers s)(0x0E \<mapsto> Page_fault_handler)" "IDT t = IDT s"
    "between_keys t = between_keys s" "queued t = queued s" "outs (hw_trace t) = outs (hw_trace s)"
proof -
  let ?ff = "(kernel_end + PAGE_LOW_MASK) AND PAGE_SIZE_MASK"
  define m where "m = drop_bit PAGE_SHIFT ((metadata_size memsize + PAGE_LOW_MASK) AND PAGE_SIZE_MASK)"
  have c: "low_pml2_count a \<le> 32"
    using assms by (auto simp: mmu_init_def map_low_def Let_def not_less split: if_splits)
  have m: "m \<le> 1536"
  proof (rule ccontr)
    assume "\<not> m \<le> 1536"
    then have "map_metadata L ff m s = Inl OutOfBounds" for ff and s :: "'a kheap_scheme"
      by (simp add: map_metadata_def not_le)
    then show False using assms unfolding mmu_init_def Let_def m_def [symmetric] by auto
  qed
  obtain u where u: "page_allocator_init ?ff memsize (boot_tables L (unat (low_pml2_count a)) ?ff (unat m) s) = Inr u"
    and t: "kbd_inv t = kbd_inv u" "irq_handlers t = (irq_handlers u)(0x0E \<mapsto> Page_fault_handler)" "IDT t = IDT u"
      "between_keys t = between_keys u" "queued t = queued u" "outs (hw_trace t) = outs (hw_trace u)"
    using assms unfolding mmu_init_stages [OF c m refl m_def]
    by (auto simp: kheap_allocator_init_def irq_set_handler_def split: if_splits)
      (auto simp: kbd_state_defs)
  have "kbd_inv (boot_tables L c ff n s) = kbd_inv s" "irq_handlers (boot_tables L c ff n s) = irq_handlers s"
    "IDT (boot_tables L c ff n s) = IDT s" "between_keys (boot_tables L c ff n s) = between_keys s"
    "queued (boot_tables L c ff n s) = queued s"
    "outs (hw_trace (boot_tables L c ff n s)) = outs (hw_trace s)" for c ff n
    by (rule boot_tables_keeps; simp)+
  then show "kbd_inv t = kbd_inv s" "irq_handlers t = (irq_handlers s)(0x0E \<mapsto> Page_fault_handler)" "IDT t = IDT s"
    "between_keys t = between_keys s" "queued t = queued s" "outs (hw_trace t) = outs (hw_trace s)"
    using t page_allocator_init_frame [OF u] by simp_all
qed

section \<open>Booting\<close>

text \<open>The end of \<open>kmain\<close>, from enabling interrupts to the endless loop.\<close>

definition kmain_tail :: "device \<Rightarrow> 'a kheap_scheme \<Rightarrow> (kmain_end \<times> 'a kheap_scheme) result" where
  "kmain_tail dev s =
     (let s = log_event Sti s;
          s = ps2_kbd_command dev PS2_KBD_COM_ECHO s;
          s = ps2_kbd_command_arg dev PS2_KBD_COM_SET_SCAN_SET 2 s
      in rbind (printk (''Executin%c %s %d.NUIDPOCALYPSE'' @ [CHR 0x0A])
                  [Slot 103, Str (map of_char ''protocol''), Slot 666] s) (\<lambda>s.
         rbind (printk (''[ERROR]: Password required'' @ [CHR 0x0A] @
                  ''Enter THE password to proceed: '') [] s) (\<lambda>s.
           Inr (Spinning, s))))"

lemma kmain_steps:
  "kmain dev E mbi MULTIBOOT2_BOOTLOADER_MAGIC s =
     rbind (multiboot_get_memory_end (vmem (vga_terminal_initialize s)) (mbi + 8)) (\<lambda>memory_end.
       let u = idt_init (isr_stubs E) (irq_stubs E) (idt_at E) (vga_terminal_initialize s)
       in rbind (mmu_init (page_tables E) (kernel_end_param E) memory_end (load64 (vmem u) (kernel_end_at E)) u)
         (\<lambda>s. rbind (pit_init s) (\<lambda>s. rbind (ps2_init dev s) (kmain_tail dev))))"
proof -
  have "kmain_tail dev = (\<lambda>s. kmain_tail dev s)" by simp
  then show ?thesis unfolding kmain_def kmain_tail_def Let_def by (simp only: not_True_eq_False simp_thms if_False)
qed

text \<open>The history only grows, and the commands the kernel gives the keyboard stand in the queue.\<close>

lemma kbd_command_extends:
  "\<exists>post. hw_trace (ps2_kbd_command_arg dev c a s) = hw_trace s @ post"
proof -
  let ?d = "ps2_port1_disable dev s"
  have e: "\<exists>post. hw_trace (ps2_port1_enable dev w) = hw_trace s @ post" if "\<exists>post. hw_trace w = hw_trace s @ post" for w
    using that only_trace_extends [OF ps2_only_trace(2)] unfolding ps2_port1_enable_def by (metis append_assoc)
  have d: "\<exists>post. hw_trace ?d = hw_trace s @ post"
    unfolding ps2_port1_disable_def by (rule only_trace_extends) simp
  have w: "\<exists>post. hw_trace (ps2_port1_write dev c' w) = hw_trace s @ post" if "hw_trace w = hw_trace ?d" for w c'
    using that d only_trace_extends [OF ps2_only_trace(6)] by (metis append_assoc)
  show ?thesis
    unfolding ps2_kbd_command_arg_def Let_def
    by (intro e) (auto simp: queue_add_def d intro: w split del: if_split split: if_split)
qed

definition first_commands :: "ps2_kbd_command list" where
  "first_commands = [\<lparr>com = PS2_KBD_COM_ECHO, arg = COMMAND_NO_ARG\<rparr>, \<lparr>com = PS2_KBD_COM_SET_SCAN_SET, arg = 2\<rparr>,
     \<lparr>com = PS2_KBD_COM_SET_SCAN_SET, arg = 0\<rparr>]"

lemma kmain_tail_spins:
  fixes s :: "'a kheap_scheme"
  shows "\<exists>t. kmain_tail dev s = Inr (Spinning, t) \<and> beyond_kbd s t \<and> (kbd_inv s \<longrightarrow> kbd_inv t) \<and>
    (\<exists>post. hw_trace t = hw_trace s @ post) \<and> (kbd_inv s \<longrightarrow> queued s = [] \<longrightarrow> queued t = first_commands)"
proof -
  define u where "u = ps2_kbd_command_arg dev PS2_KBD_COM_SET_SCAN_SET 2
    (ps2_kbd_command dev PS2_KBD_COM_ECHO (log_event Sti s))"
  have "beyond_kbd s (log_event Sti s)" by (rule beyond_kbd_trace) simp
  then have bu: "beyond_kbd s u" by (simp add: u_def)
  have iu: "kbd_inv u" if "kbd_inv s"
  proof -
    have "kbd_inv (log_event Sti s)" using that more_inv [OF only_trace_more [of s "log_event Sti s"]] by simp
    then have "kbd_inv (ps2_kbd_command dev PS2_KBD_COM_ECHO (log_event Sti s))"
      unfolding ps2_kbd_command_def by (rule conjunct1 [OF command_arg_step])
    then show ?thesis unfolding u_def by (rule conjunct1 [OF command_arg_step])
  qed
  have qu: "queued u = first_commands" if "kbd_inv s" "queued s = []"
  proof -
    have i: "kbd_inv (log_event Sti s)" using that(1) more_inv [OF only_trace_more [of s "log_event Sti s"]] by simp
    have q: "queued (log_event Sti s) = []"
      using that(2) past_interrupts(4) [OF only_trace_interrupts(3) [of s "log_event Sti s"]] by simp
    have "kbd_inv (ps2_kbd_command dev PS2_KBD_COM_ECHO (log_event Sti s))"
      and "queued (ps2_kbd_command dev PS2_KBD_COM_ECHO (log_event Sti s)) = [\<lparr>com = PS2_KBD_COM_ECHO, arg = COMMAND_NO_ARG\<rparr>]"
      using command_arg_step [OF i, of dev PS2_KBD_COM_ECHO COMMAND_NO_ARG] unfolding ps2_kbd_command_def q by simp_all
    then show ?thesis
      using command_arg_step [of "ps2_kbd_command dev PS2_KBD_COM_ECHO (log_event Sti s)" dev PS2_KBD_COM_SET_SCAN_SET 2]
      by (simp del: queued_eq_Nil length_queued add: u_def first_commands_def)
  qed
  have "\<exists>post. hw_trace (log_event Sti s) = hw_trace s @ post" by (rule only_trace_extends) simp
  then have tu: "\<exists>post. hw_trace u = hw_trace s @ post"
    unfolding u_def ps2_kbd_command_def by (metis append_assoc kbd_command_extends)
  let ?args = "[Slot 103, Str (map of_char ''protocol''), Slot 666]"
    and ?fmt = "''Executin%c %s %d.NUIDPOCALYPSE'' @ [CHR 0x0A]"
    and ?msg = "''[ERROR]: Password required'' @ [CHR 0x0A] @ ''Enter THE password to proceed: ''"
  have a: "args_ok ?args" by simp
  have b: "\<exists>r. format_out g k (map of_char ?fmt) ?args = Inr r" for g k by simp
  obtain v where v: "printk ?fmt ?args u = Inr v" "machine.more v = machine.more u" "hw_trace v = hw_trace u"
    by (rule printk_returns [of ?args ?fmt u, OF a b])
  obtain w where w: "printk ?msg [] v = Inr w" "machine.more w = machine.more v" "hw_trace w = hw_trace v"
    using printk_plain_frame [of ?msg v] by auto
  have "kmain_tail dev s = Inr (Spinning, w)"
    unfolding kmain_tail_def Let_def u_def [symmetric] by (simp only: v(1) w(1) rbind_simps)
  moreover have "beyond_kbd s w"
    using bu beyond_kbd_more [OF v(2)] beyond_kbd_more [OF w(2)] beyond_kbd_trans by blast
  moreover have "kbd_inv s \<longrightarrow> kbd_inv w" using iu more_inv [OF v(2)] more_inv [OF w(2)] by simp
  moreover have "\<exists>post. hw_trace w = hw_trace s @ post" using tu v(3) w(3) by simp
  moreover have "queued w = queued u"
    using past_interrupts(4) [OF more_interrupts(3) [OF v(2)]] past_interrupts(4) [OF more_interrupts(3) [OF w(2)]] by simp
  ultimately show ?thesis using qu by auto
qed

text \<open>The handlers after booting; the keyboard's only if the controller passed its test.\<close>

definition boot_handlers :: "bool \<Rightarrow> u8 \<Rightarrow> handler option" where
  "boot_handlers kbd_ok = (\<lambda>_. None)(0x0E \<mapsto> Page_fault_handler, 0x20 \<mapsto> Pit_interrupt,
     0x21 := if kbd_ok then Some Kbd_int_handler else None)"

text \<open>
  What \<open>kmain\<close> writes to ports before the keyboard controller's turn: the interrupt controllers
  get their new vectors, the timer its mode and the divisor 11931.
\<close>

definition controller_writes :: "(u64 \<times> u8) list" where
  "controller_writes =
     [(0x20, 0x11), (0xA0, 0x11), (0x21, 0x20), (0xA1, 0x28), (0x21, 0x04), (0xA1, 0x02),
      (0x21, 0x01), (0xA1, 0x01), (0x21, 0), (0xA1, 0)]"

definition timer_writes :: "(u64 \<times> u8) list" where
  "timer_writes = [(0x43, 0x36), (0x40, 0x9B), (0x40, 0x2E)]"

lemma pit_init_writes: "pit_init s = Inr t \<Longrightarrow> outs (hw_trace t) = outs (hw_trace s) @ timer_writes"
  by (auto simp: pit_init_def pit_set_timer_freq_def irq_set_handler_def Let_def outb_def log_event_def timer_writes_def)

lemma bring_up:
  fixes s :: "'a kheap_scheme" and E :: boot_env
  defines "u \<equiv> idt_init (isr_stubs E) (irq_stubs E) (idt_at E) (vga_terminal_initialize s)"
  shows "kbd.more u = kbd.more s" "kbd_inv u = kbd_inv s" "irq_handlers u = irq_handlers s"
    "between_keys u = between_keys s" "queued u = queued s" "outs (hw_trace u) = outs (hw_trace s) @ controller_writes"
proof -
  have "machine.more (vga_terminal_initialize s) = machine.more s"
    by (rule machine_of_vga) (rule vga_terminal_initialize_more)
  note m = more_interrupts [OF this]
  have "interrupts.more u = interrupts.more s" unfolding u_def using m idt_init_frame(1) by metis
  from past_interrupts [OF this] show "kbd.more u = kbd.more s" "kbd_inv u = kbd_inv s" "between_keys u = between_keys s"
    "queued u = queued s" by simp_all
  show "irq_handlers u = irq_handlers s" unfolding u_def using m idt_init_frame(2) by metis
  have "hw_trace (vga_terminal_initialize s) = hw_trace s"
    using vga_terminal_initialize_more [of s] by (cases s; cases "vga_terminal_initialize s") simp
  then show "outs (hw_trace u) = outs (hw_trace s) @ controller_writes"
    using idt_init_gates [of 0 "isr_stubs E" "irq_stubs E" "idt_at E" "vga_terminal_initialize s"]
    by (simp add: u_def controller_writes_def)
qed

lemma kmain_spinning:
  fixes s :: "'a kheap_scheme"
  assumes "kmain dev E mbi magic s = Inr (Spinning, t)" "kbd_inv s" "irq_handlers s = (\<lambda>_. None)"
  shows "kbd_inv t" "\<exists>k. irq_handlers t = boot_handlers k"
proof -
  let ?u = "idt_init (isr_stubs E) (irq_stubs E) (idt_at E) (vga_terminal_initialize s)"
  have "magic = MULTIBOOT2_BOOTLOADER_MAGIC"
    using assms(1) by (auto simp: kmain_def Let_def split: if_splits)
  then obtain mem v w x where v: "mmu_init (page_tables E) (kernel_end_param E) mem
      (load64 (vmem ?u) (kernel_end_at E)) ?u = Inr v"
    and w: "pit_init v = Inr w" and x: "ps2_init dev w = Inr x" and t: "kmain_tail dev x = Inr (Spinning, t)"
    using assms(1) kmain_steps [of dev E mbi s] by (auto simp: Let_def)
  have pw: "interrupts.more w = interrupts.more v" "irq_handlers w = (irq_handlers v)(TIMER_IRQ \<mapsto> Pit_interrupt)"
    using w pit_init_frame [of v] by auto
  note px = ps2_init_frame [OF x]
  have "kbd_inv x"
    using past_interrupts(1) [OF px(1)] past_interrupts(1) [OF pw(1)] mmu_init_frame(1) [OF v] bring_up(2) [of E s] assms(2) by simp
  moreover obtain y where y: "kmain_tail dev x = Inr (Spinning, y)" "beyond_kbd x y" "kbd_inv x \<longrightarrow> kbd_inv y"
    using kmain_tail_spins by blast
  ultimately show "kbd_inv t" using t by simp
  have "irq_handlers x = boot_handlers False \<or> irq_handlers x = boot_handlers True"
    using px(2) pw(2) mmu_init_frame(2) [OF v] bring_up(3) [of E s] assms(3) by (auto simp: boot_handlers_def)
  then show "\<exists>k. irq_handlers t = boot_handlers k" using y(1,2) t by (auto simp: beyond_kbd_def)
qed

text \<open>The answer to the controller's self-test, found in the history, decides about the keyboard's handler.\<close>

lemma ps2_init_answer:
  assumes "ps2_init dev s = Inr t"
  shows "\<exists>pre answer post config. hw_trace t = pre @ [In DATA_PORT answer] @ post \<and>
    outs pre = outs (hw_trace s) @ setup_writes (new_config config) \<and> answer = dev pre DATA_PORT \<and>
    irq_handlers t = (if answer = 0x55 then (irq_handlers s)(KBD_IRQ \<mapsto> Kbd_int_handler) else irq_handlers s)"
proof -
  let ?name = "fold (\<lambda>i. ps2_command_arg dev (0x61 + of_nat i) (nuid64_str ! i)) [0..<6]"
  obtain config response s4 h1 h2 where init: "ps2_init dev s = (if response \<noteq> 0x55
       then printk (''ps2: controller self-test failed'' @ [CHR 0x0A]) [] s4
       else ps2_start dev (ps2_command dev COMMAND_PORT1_ENABLE (?name s4)))" and s4: "only_trace s s4"
    "outs (hw_trace s4) = outs (hw_trace s) @ setup_writes (new_config config)" "config = dev h1 DATA_PORT"
    "outs h1 = outs (hw_trace s) @ [(0x64, 0xAD), (0x64, 0xA7), (0x64, 0x20)]" "response = dev h2 DATA_PORT"
    "outs h2 = outs (hw_trace s) @ setup_writes (new_config config)" "hw_trace s4 = h2 @ [In DATA_PORT response]"
    by (rule ps2_init_setup)
  let ?s5 = "ps2_command dev COMMAND_PORT1_ENABLE (?name s4)"
  have s5: "only_trace s4 ?s5" by (rule only_trace_trans [OF fold_command_args(1) ps2_only_trace(2)])
  have "(\<exists>post. hw_trace t = hw_trace s4 @ post) \<and>
    irq_handlers t = (if response = 0x55 then (irq_handlers s)(KBD_IRQ \<mapsto> Kbd_int_handler) else irq_handlers s)"
  proof (cases "response = 0x55")
    case True
    then have st: "ps2_start dev ?s5 = Inr t" using assms init by simp
    have "\<exists>post. hw_trace t = hw_trace s4 @ post"
      using ps2_start_frame(4) [OF st] only_trace_extends [OF s5] by (metis append_assoc)
    then show ?thesis
      using True ps2_start_frame(2) [OF st] only_trace_interrupts(1) [OF s5] only_trace_interrupts(1) [OF s4(1)] by simp
  next
    case False
    then have p: "printk (''ps2: controller self-test failed'' @ [CHR 0x0A]) [] s4 = Inr t" using assms init by simp
    show ?thesis
      using False printk_frame [OF p] more_interrupts(1) [of t s4] only_trace_interrupts(1) [OF s4(1)] by simp
  qed
  then show ?thesis using s4(5,6,7) by fastforce
qed

text \<open>The same for the whole of \<open>kmain\<close>.\<close>

lemma kmain_handlers:
  fixes s :: "'a kheap_scheme"
  assumes "kmain dev E mbi MULTIBOOT2_BOOTLOADER_MAGIC s = Inr (Spinning, t)"
    and "kbd_inv s" "queued s = []" "irq_handlers s = (\<lambda>_. None)"
  shows "queued t = first_commands"
    and "\<exists>pre answer post config. hw_trace t = pre @ [In DATA_PORT answer] @ post \<and>
      outs pre = outs (hw_trace s) @ controller_writes @ timer_writes @ setup_writes (new_config config) \<and>
      answer = dev pre DATA_PORT \<and> irq_handlers t = boot_handlers (answer = 0x55)"
proof -
  let ?u = "idt_init (isr_stubs E) (irq_stubs E) (idt_at E) (vga_terminal_initialize s)"
  obtain mem v w x where v: "mmu_init (page_tables E) (kernel_end_param E) mem
      (load64 (vmem ?u) (kernel_end_at E)) ?u = Inr v"
    and w: "pit_init v = Inr w" and x: "ps2_init dev w = Inr x" and t: "kmain_tail dev x = Inr (Spinning, t)"
    using assms(1) kmain_steps [of dev E mbi s] by (auto simp: Let_def)
  have pw: "interrupts.more w = interrupts.more v" "irq_handlers w = (irq_handlers v)(TIMER_IRQ \<mapsto> Pit_interrupt)"
    using w pit_init_frame [of v] by auto
  note px = ps2_init_frame [OF x]
  have inv: "kbd_inv x" "queued x = []"
    using past_interrupts(1,4) [OF px(1)] past_interrupts(1,4) [OF pw(1)] mmu_init_frame(1,5) [OF v]
      bring_up(2,5) [of E s] assms(2,3) by simp_all
  obtain y where y: "kmain_tail dev x = Inr (Spinning, y)" "beyond_kbd x y" "\<exists>post. hw_trace y = hw_trace x @ post"
    "queued y = first_commands"
    using kmain_tail_spins [of dev x] inv by auto
  then show "queued t = first_commands" using t by simp
  have outs_w: "outs (hw_trace w) = outs (hw_trace s) @ controller_writes @ timer_writes"
    using pit_init_writes [OF w] mmu_init_frame(6) [OF v] bring_up(6) [of E s] by simp
  have "irq_handlers w = (\<lambda>_. None)(0x0E \<mapsto> Page_fault_handler, 0x20 \<mapsto> Pit_interrupt)"
    using pw(2) mmu_init_frame(2) [OF v] bring_up(3) [of E s] assms(4) by simp
  then have h: "irq_handlers t = boot_handlers k" if "irq_handlers x =
      (if k then (irq_handlers w)(KBD_IRQ \<mapsto> Kbd_int_handler) else irq_handlers w)" for k
    using that t y(1,2) by (auto simp: boot_handlers_def beyond_kbd_def)
  obtain pre answer post config where p: "hw_trace x = pre @ [In DATA_PORT answer] @ post"
    "outs pre = outs (hw_trace w) @ setup_writes (new_config config)" "answer = dev pre DATA_PORT"
    "irq_handlers x = (if answer = 0x55 then (irq_handlers w)(KBD_IRQ \<mapsto> Kbd_int_handler) else irq_handlers w)"
    using ps2_init_answer [OF x] by blast
  obtain rest where "hw_trace t = hw_trace x @ rest" using y(1,3) t by auto
  then have tr: "hw_trace t = pre @ [In DATA_PORT answer] @ (post @ rest)" using p(1) by simp
  show "\<exists>pre answer post config. hw_trace t = pre @ [In DATA_PORT answer] @ post \<and>
      outs pre = outs (hw_trace s) @ controller_writes @ timer_writes @ setup_writes (new_config config) \<and>
      answer = dev pre DATA_PORT \<and> irq_handlers t = boot_handlers (answer = 0x55)"
    using tr p(2,3) h [of "answer = 0x55", OF p(4)] outs_w by (metis append_assoc)
qed

lemma ps2_init_returns:
  assumes "\<And>h. bound \<le> resets (outs h) \<Longrightarrow> dev h DATA_PORT \<noteq> 0xFE"
  shows "\<exists>t. ps2_init dev s = Inr t"
proof -
  let ?name = "fold (\<lambda>i. ps2_command_arg dev (0x61 + of_nat i) (nuid64_str ! i)) [0..<6]"
  obtain config response s4 h1 h2 where init: "ps2_init dev s = (if response \<noteq> 0x55
       then printk (''ps2: controller self-test failed'' @ [CHR 0x0A]) [] s4
       else ps2_start dev (ps2_command dev COMMAND_PORT1_ENABLE (?name s4)))" and s4: "only_trace s s4"
    "outs (hw_trace s4) = outs (hw_trace s) @ setup_writes (new_config config)" "config = dev h1 DATA_PORT"
    "outs h1 = outs (hw_trace s) @ [(0x64, 0xAD), (0x64, 0xA7), (0x64, 0x20)]" "response = dev h2 DATA_PORT"
    "outs h2 = outs (hw_trace s) @ setup_writes (new_config config)" "hw_trace s4 = h2 @ [In DATA_PORT response]"
    by (rule ps2_init_setup)
  show ?thesis
    using ps2_after_test [where bound = bound and dev = dev and response = response, OF _ s4(1)] assms
    unfolding init by blast
qed

lemma memory_of_kbd:
  fixes s t :: "'a kheap_scheme"
  assumes "kbd.more t = kbd.more s"
  shows "vmem t = vmem s" "pmem t = pmem s" "current_pml4 t = current_pml4 s"
    "free_block_list t = free_block_list s" "heap_end t = heap_end s"
  using assms by (cases s; cases t; simp)+

lemma booted_of_kbd:
  fixes s t :: "'a kheap_scheme"
  assumes "kbd.more t = kbd.more s" shows "booted L c ff n t = booted L c ff n s"
  using memory_of_kbd [OF assms] by (simp add: booted_def cell_def)

lemma kmain_reaches_loop:
  fixes s :: "'a kheap_scheme"
  assumes "multiboot_get_memory_end (vmem s) (mb_info_addr + 8) = Inr memory_end" "unat memory_end < 2 ^ 32"
    and "layout_ok (page_tables E)" "\<And>T i. is_table T \<Longrightarrow> i < 512 \<Longrightarrow> cell (page_tables E) s T i = 0"
    and "low_pml2_count (kernel_end_param E) \<le> 32" "unat (load64 (vmem s) (kernel_end_at E)) < 2 ^ 39"
    and "\<And>h. bound \<le> resets (outs h) \<Longrightarrow> dev h DATA_PORT \<noteq> 0xFE"
  shows "\<exists>t ff. kmain dev E mb_info_addr MULTIBOOT2_BOOTLOADER_MAGIC s = Inr (Spinning, t) \<and>
    booted (page_tables E) (unat (low_pml2_count (kernel_end_param E))) ff (metadata_pages memory_end) t \<and> free_block_list t = NULL \<and>
    heap_end t = KERNEL_HEAP_START + of_nat (metadata_pages memory_end * 4096)"
proof -
  let ?u = "idt_init (isr_stubs E) (irq_stubs E) (idt_at E) (vga_terminal_initialize s)"
  let ?ke = "load64 (vmem s) (kernel_end_at E)" and ?c = "unat (low_pml2_count (kernel_end_param E))"
  note up = memory_of_kbd [OF bring_up(1) [of E s]]
  have "vmem (vga_terminal_initialize s) = vmem s"
    using vga_terminal_initialize_more [of s] by (cases s; cases "vga_terminal_initialize s") simp
  then have steps: "kmain dev E mb_info_addr MULTIBOOT2_BOOTLOADER_MAGIC s =
      rbind (mmu_init (page_tables E) (kernel_end_param E) memory_end ?ke ?u)
        (\<lambda>s. rbind (pit_init s) (\<lambda>s. rbind (ps2_init dev s) (kmain_tail dev)))"
    unfolding kmain_steps by (simp add: assms(1) up(1) Let_def)
  have "\<And>T i. is_table T \<Longrightarrow> i < 512 \<Longrightarrow> cell (page_tables E) ?u T i = 0"
    using assms(4) up(2) by (simp add: cell_def)
  from mmu_init_booted [OF assms(3) this assms(5,2,6)] obtain v ff where
    v: "mmu_init (page_tables E) (kernel_end_param E) memory_end ?ke ?u = Inr v"
    and b: "booted (page_tables E) ?c ff (metadata_pages memory_end) v"
    and heap: "free_block_list v = NULL" "heap_end v = KERNEL_HEAP_START + of_nat (metadata_pages memory_end * 4096)"
    by blast
  obtain w where w: "pit_init v = Inr w" "interrupts.more w = interrupts.more v" using pit_init_frame by blast
  obtain x where x: "ps2_init dev w = Inr x" using ps2_init_returns [of bound dev w] assms(7) by blast
  obtain t where t: "kmain_tail dev x = Inr (Spinning, t)" "beyond_kbd x t" using kmain_tail_spins by blast
  have k: "kmain dev E mb_info_addr MULTIBOOT2_BOOTLOADER_MAGIC s = Inr (Spinning, t)"
    unfolding steps v by (simp add: w(1) x t(1))
  have "kbd.more t = kbd.more v"
    using t(2) past_interrupts(2) [OF w(2)] past_interrupts(2) [OF ps2_init_frame(1) [OF x]] by (simp add: beyond_kbd_def)
  then have "booted (page_tables E) ?c ff (metadata_pages memory_end) t" "free_block_list t = NULL"
    "heap_end t = KERNEL_HEAP_START + of_nat (metadata_pages memory_end * 4096)"
    using b heap booted_of_kbd [of t v] memory_of_kbd [of t v] by auto
  then show ?thesis using k by blast
qed

text \<open>
  C1: With a good magic number, a memory map that ends below 4 GiB, zeroed page tables and a keyboard
  that stops asking for a resend, \<open>kmain\<close> brings up all components and reaches its endless loop:
  the first 64 GiB are mapped high and the heap is empty.  The history of the ports holds the
  answer the keyboard controller gave to its self-test, read when exactly the set-up of the
  interrupt controllers, of the timer and of the keyboard controller had been written: the timer
  and page fault handlers are installed, the keyboard's exactly if that answer was 0x55, and no
  other.  The keyboard driver's invariant holds, with echo and the scan code set commands queued.
\<close>

theorem kmain_boots:
  fixes s :: "'a kheap_scheme"
  assumes "multiboot_get_memory_end (vmem s) (mb_info_addr + 8) = Inr memory_end" "unat memory_end < 2 ^ 32"
    and "layout_ok (page_tables E)" "\<And>T i. is_table T \<Longrightarrow> i < 512 \<Longrightarrow> cell (page_tables E) s T i = 0"
    and "low_pml2_count (kernel_end_param E) \<le> 32" "unat (load64 (vmem s) (kernel_end_at E)) < 2 ^ 39"
    and "\<And>h. bound \<le> resets (outs h) \<Longrightarrow> dev h DATA_PORT \<noteq> 0xFE"
    and "kbd_inv s" "queued s = []" "irq_handlers s = (\<lambda>_. None)"
  shows "\<exists>t. kmain dev E mb_info_addr MULTIBOOT2_BOOTLOADER_MAGIC s = Inr (Spinning, t) \<and>
    (\<forall>p. unat p < 2 ^ 36 \<longrightarrow> mmu_translate (mmu_to_virt p) t = p) \<and> free_block_list t = NULL \<and>
    heap_end t = KERNEL_HEAP_START + of_nat (metadata_pages memory_end * 4096) \<and>
    (\<exists>pre answer post config. hw_trace t = pre @ [In DATA_PORT answer] @ post \<and>
      outs pre = outs (hw_trace s) @ controller_writes @ timer_writes @ setup_writes (new_config config) \<and>
      answer = dev pre DATA_PORT \<and> irq_handlers t = boot_handlers (answer = 0x55)) \<and>
    kbd_inv t \<and> queued t = first_commands"
proof -
  obtain t ff where k: "kmain dev E mb_info_addr MULTIBOOT2_BOOTLOADER_MAGIC s = Inr (Spinning, t)"
    and b: "booted (page_tables E) (unat (low_pml2_count (kernel_end_param E))) ff (metadata_pages memory_end) t"
    and heap: "free_block_list t = NULL" "heap_end t = KERNEL_HEAP_START + of_nat (metadata_pages memory_end * 4096)"
    using kmain_reaches_loop [of s mb_info_addr memory_end E bound dev] assms(1-7) by blast
  have "\<forall>p. unat p < 2 ^ 36 \<longrightarrow> mmu_translate (mmu_to_virt p) t = p"
    using translate_high [OF b] by fastforce
  then show ?thesis
    using k heap kmain_spinning(1) [OF k assms(8,10)] kmain_handlers [OF k assms(8-10)] by blast
qed

text \<open>
  A machine that boots: the sample memory map at 1000, clean page tables, a controller that passes its
  test and a keyboard that answers every byte with 0x55.
\<close>

definition sample_env :: boot_env where
  "sample_env = \<lparr>page_tables = sample_layout, isr_stubs = (\<lambda>n. 0x100000 + 16 * of_nat n),
     irq_stubs = (\<lambda>n. 0x200000 + 16 * of_nat n), idt_at = 0x5000, kernel_end_at = 0x6000, kernel_end_param = 0x180000\<rparr>"

definition sample_device :: device where
  "sample_device h port = (if port = 0x64 then 1 else 0x55)"

definition sample_machine :: kheap where
  "sample_machine = (sample_heap [] (0x30000, 0))\<lparr>vmem := sample_info, pmem := \<lambda>_. 0\<rparr>"

lemma sample_machine_fields:
  "vmem sample_machine = sample_info" "pmem sample_machine = (\<lambda>_. 0)" "kbd_inv sample_machine"
  "irq_handlers sample_machine = (\<lambda>_. None)" "load64 sample_info 0x6000 = 0"
  "multiboot_get_memory_end sample_info 1000 = Inr 0x9FBFF" "queued sample_machine = []"
proof -
  show "vmem sample_machine = sample_info" "pmem sample_machine = (\<lambda>_. 0)" by (simp_all add: sample_machine_def)
  note defs = sample_machine_def sample_heap_def sample_mmu_def sample_palloc_def mmu.defs palloc.defs kbd.defs
  show "kbd_inv sample_machine" "queued sample_machine = []"
    by (simp_all add: defs kbd_inv_def queue_inv_def queued_def kbd_init_def boot_interrupts_def interrupts.defs)
  show "irq_handlers sample_machine = (\<lambda>_. None)"
    by (simp add: defs kbd_init_def boot_interrupts_def interrupts.defs)
  show "load64 sample_info 0x6000 = 0" by (simp add: sample_info_def mem_eval)
  show "multiboot_get_memory_end sample_info 1000 = Inr 0x9FBFF"
    using memory_end_fold [OF sample_mmap(1)] by (simp add: stride_def sample_mmap mmap_step_def)
qed

theorem kmain_boots_witness:
  "\<exists>t. kmain sample_device sample_env 992 MULTIBOOT2_BOOTLOADER_MAGIC sample_machine = Inr (Spinning, t) \<and>
     mmu_translate (mmu_to_virt 0xB8000) t = 0xB8000 \<and> heap_end t = KERNEL_HEAP_START + 0x1000 \<and> kbd_inv t \<and>
     irq_handlers t 0x21 = Some Kbd_int_handler"
proof -
  have "low_pml2_count 0x180000 = 8" by (simp add: low_pml2_count_def)
  moreover have pages: "metadata_pages 0x9FBFF = 1" by (simp add: metadata_pages_def pages_for_def)
  ultimately have "\<exists>t. kmain sample_device sample_env 992 MULTIBOOT2_BOOTLOADER_MAGIC sample_machine = Inr (Spinning, t) \<and>
    (\<forall>p. unat p < 2 ^ 36 \<longrightarrow> mmu_translate (mmu_to_virt p) t = p) \<and> free_block_list t = NULL \<and>
    heap_end t = KERNEL_HEAP_START + of_nat (metadata_pages 0x9FBFF * 4096) \<and>
    (\<exists>pre answer post config. hw_trace t = pre @ [In DATA_PORT answer] @ post \<and>
      outs pre = outs (hw_trace sample_machine) @ controller_writes @ timer_writes @ setup_writes (new_config config) \<and>
      answer = sample_device pre DATA_PORT \<and> irq_handlers t = boot_handlers (answer = 0x55)) \<and>
    kbd_inv t \<and> queued t = first_commands"
    by (intro kmain_boots [where bound = 0])
      (simp_all add: sample_machine_fields sample_env_def sample_device_def sample_layout_ok cell_def del: queued_eq_Nil)
  then obtain t pre where "kmain sample_device sample_env 992 MULTIBOOT2_BOOTLOADER_MAGIC sample_machine = Inr (Spinning, t)"
    "heap_end t = KERNEL_HEAP_START + of_nat (metadata_pages 0x9FBFF * 4096)" "kbd_inv t"
    "irq_handlers t = boot_handlers (sample_device pre DATA_PORT = 0x55)"
    and high: "\<forall>p. unat p < 2 ^ 36 \<longrightarrow> mmu_translate (mmu_to_virt p) t = p" by blast
  then show ?thesis
    using high [rule_format, of "0xB8000"] by (simp add: pages sample_device_def boot_handlers_def)
qed

lemma sample_machine_boots:
  "\<exists>t. kmain sample_device sample_env 992 MULTIBOOT2_BOOTLOADER_MAGIC sample_machine = Inr (Spinning, t)"
proof -
  have "low_pml2_count 0x180000 = 8" by (simp add: low_pml2_count_def)
  then have "\<exists>t ff. kmain sample_device sample_env 992 MULTIBOOT2_BOOTLOADER_MAGIC sample_machine = Inr (Spinning, t) \<and>
    booted (page_tables sample_env) (unat (low_pml2_count (kernel_end_param sample_env))) ff (metadata_pages 0x9FBFF) t \<and> free_block_list t = NULL \<and>
    heap_end t = KERNEL_HEAP_START + of_nat (metadata_pages 0x9FBFF * 4096)"
    by (intro kmain_reaches_loop [where bound = 0])
      (simp_all add: sample_machine_fields sample_env_def sample_device_def sample_layout_ok cell_def)
  then show ?thesis by blast
qed

text \<open>A wrong magic number: one line on the screen, no device touched, and \<open>kmain\<close> returns.\<close>

lemma kmain_bad_magic:
  fixes s :: "'a kheap_scheme"
  assumes "mb_magic \<noteq> MULTIBOOT2_BOOTLOADER_MAGIC"
  shows "\<exists>t. kmain dev E mb_info_addr mb_magic s = Inr (Returned, t) \<and> hw_trace t = hw_trace s \<and>
    machine.more t = machine.more s"
proof -
  let ?msg = "''Fucked up magic number'' @ [CHR 0x0A]" and ?v = "vga_terminal_initialize s"
  have v: "vga.more ?v = vga.more s" by (rule vga_terminal_initialize_more)
  obtain t where "printk ?msg [] ?v = Inr t" "hw_trace t = hw_trace ?v" "machine.more t = machine.more ?v"
    using printk_plain_frame [of ?msg ?v] by auto
  then show ?thesis using assms more_machine [OF v] by (simp add: kmain_def Let_def)
qed

section \<open>The running kernel\<close>

text \<open>
  After \<open>kmain\<close> has reached its loop the state changes only when the processor takes one of the
  16 hardware interrupts and the dispatcher runs to its end.
\<close>

inductive kernel_reach :: "device \<Rightarrow> boot_env \<Rightarrow> kheap \<Rightarrow> bool" for dev :: device and E :: boot_env where
  boot: "kbd_inv s \<Longrightarrow> irq_handlers s = (\<lambda>_. None) \<Longrightarrow> kmain dev E mb_info_addr mb_magic s = Inr (Spinning, t) \<Longrightarrow>
    kernel_reach dev E t"
| irq: "kernel_reach dev E s \<Longrightarrow> 32 \<le> int_no r \<Longrightarrow> int_no r < 48 \<Longrightarrow>
    irq_handler dev cr2 r s = Inr (r', t) \<Longrightarrow> kernel_reach dev E t"

lemma irq_ack_trace: "only_trace s (irq_ack n s)"
  by (auto simp: irq_ack_def Let_def intro: only_trace_trans)

lemma boot_handlers_at:
  fixes n :: u64
  assumes "n < 256"
  shows "boot_handlers k (ucast n) = (if n = 14 then Some Page_fault_handler else if n = 32 then Some Pit_interrupt
    else if n = 33 \<and> k then Some Kbd_int_handler else None)"
proof -
  have "unat n < 256" using assms by (simp add: word_less_nat_alt)
  then have "unat (ucast n :: u8) = unat n" by (simp add: unsigned_ucast_eq take_bit_nat_eq_self)
  then have "ucast n = (14 :: u8) \<longleftrightarrow> n = 14" "ucast n = (32 :: u8) \<longleftrightarrow> n = 32" "ucast n = (33 :: u8) \<longleftrightarrow> n = 33"
    by (simp_all add: word_unat_eq_iff)
  then show ?thesis by (auto simp: boot_handlers_def)
qed

text \<open>What a vector leads to in a booted kernel.\<close>

lemma call_boot_handler:
  fixes s :: "'a kheap_scheme"
  assumes "irq_handlers s = boot_handlers k" "int_no r < 256"
  shows "call_handler dev cr2 r s =
    (if int_no r = 14 then Inl Aborted else if int_no r = 33 \<and> k then kbd_int_handler dev s else Inr s)"
proof -
  have "run_handler dev cr2 Page_fault_handler r s = Inl Aborted" by (simp add: page_fault_handler_halts)
  then show ?thesis
    using assms boot_handlers_at [OF assms(2), of k] by (auto simp: call_handler_def pit_interrupt_def)
qed

lemma kernel_reach_inv: "kernel_reach dev E s \<Longrightarrow> kbd_inv s \<and> (\<exists>k. irq_handlers s = boot_handlers k)"
proof (induction rule: kernel_reach.induct)
  case (boot s mb_info_addr mb_magic t)
  then show ?case using kmain_spinning by blast
next
  case (irq s r cr2 r' t)
  then obtain k where k: "irq_handlers s = boot_handlers k" and inv: "kbd_inv s" by blast
  have n: "int_no r < 256" "int_no r \<noteq> 14" using irq(2,3) by (auto simp: word_less_nat_alt word_le_nat_alt)
  obtain u where u: "call_handler dev cr2 r s = Inr u" and t: "t = irq_ack (ucast (int_no r - 32)) u"
    using irq(4) by (auto simp: irq_handler_def)
  then have "u = s \<or> kbd_int_handler dev s = Inr u"
    using call_boot_handler [OF k n(1)] n(2) by (auto split: if_splits)
  then have "kbd_inv u \<and> beyond_kbd s u"
    using inv kbd_int_handler_safe(2) [OF inv] kbd_int_handler_beyond by auto
  moreover have "machine.more t = machine.more u" unfolding t by (rule only_trace_more [OF irq_ack_trace])
  ultimately show ?case
    using k more_inv [of t u] beyond_kbd_more [of t u] by (auto simp: beyond_kbd_def)
qed

text \<open>
  In every state a booted kernel can reach through hardware interrupts, the keyboard driver's
  invariant holds; a page fault stops the kernel and any other exception is ignored; every
  hardware interrupt except the keyboard's does nothing but acknowledge itself, and the keyboard
  interrupt never runs into the driver's corrupted-state abort.
\<close>

theorem kernel_reachable_interrupts:
  assumes "kernel_reach dev E s" "int_no r < 48"
  shows "kbd_inv s \<and>
    (if int_no r = 14 then isr_handler dev cr2 r s = Inl Aborted
     else if int_no r < 32 then isr_handler dev cr2 r s = Inr (r, s)
     else if int_no r = 33 then irq_handler dev cr2 r s \<noteq> Inl Aborted
     else irq_handler dev cr2 r s = Inr (r, irq_ack (ucast (int_no r - 32)) s))"
proof -
  obtain k where k: "irq_handlers s = boot_handlers k" and inv: "kbd_inv s"
    using kernel_reach_inv [OF assms(1)] by blast
  have n: "int_no r < 256" using assms(2) by (simp add: word_less_nat_alt)
  note c = call_boot_handler [OF k n, of dev cr2]
  have "irq_handler dev cr2 r s \<noteq> Inl Aborted" if "int_no r = 33"
    using that c kbd_int_handler_safe(1) [OF inv, of dev]
    by (cases "kbd_int_handler dev s") (auto simp: irq_handler_def)
  then show ?thesis using inv c by (auto simp: isr_handler_def irq_handler_def)
qed

text \<open>The timer interrupt right after the boot of the sample machine.\<close>

definition sample_regs :: regs where
  "sample_regs = \<lparr>r15 = 0, r14 = 0, r13 = 0, r12 = 0, r11 = 0, r10 = 0, r9 = 0, r8 = 0, rbp = 0, rdi = 0, rsi = 0,
     rdx = 0, rcx = 0, rbx = 0, rax = 0, int_no = 32, err_code = 0, rip = 0, cs = 0, rflags = 0, rsp = 0, ss = 0\<rparr>"

theorem kernel_reachable_interrupts_witness:
  "\<exists>s. kernel_reach sample_device sample_env s \<and>
     irq_handler sample_device 0 sample_regs s = Inr (sample_regs, irq_ack 0 s)"
proof -
  obtain s where s: "kmain sample_device sample_env 992 MULTIBOOT2_BOOTLOADER_MAGIC sample_machine = Inr (Spinning, s)"
    using sample_machine_boots by blast
  then have "kernel_reach sample_device sample_env s"
    by (rule kernel_reach.boot [OF sample_machine_fields(3,4)])
  then show ?thesis
    using kernel_reachable_interrupts [of sample_device sample_env s sample_regs 0] by (auto simp: sample_regs_def)
qed

end
