(* ===== verification/Typing.thy ===== *)
theory Typing
  imports Kmain
begin

text \<open>
  From the key to the screen: a keyboard interrupt passes the dispatcher, the handler of the PS/2
  controller, the keyboard driver and its scan code decoder, the formatted printing and the
  terminal, and is acknowledged at the interrupt controller.
\<close>

section \<open>The decoder does not look at the hardware history\<close>

definition at_trace :: "hw_event list \<Rightarrow> 'a machine_scheme result \<Rightarrow> 'a machine_scheme result" where
  "at_trace h x = rbind x (\<lambda>t. Inr (t\<lparr>hw_trace := h\<rparr>))"

lemma at_trace_simps [simp]:
  "at_trace h (Inl e) = Inl e" "at_trace h (Inr t) = Inr (t\<lparr>hw_trace := h\<rparr>)"
  by (simp_all add: at_trace_def)

lemma putchar_trace:
  fixes s :: "'a machine_scheme"
  shows "vga_putchar c (s\<lparr>hw_trace := h\<rparr>) = (vga_putchar c s)\<lparr>hw_trace := h\<rparr>"
proof -
  have same: "vga.truncate u = vga.truncate t \<Longrightarrow> vga.more u = vga.more (t\<lparr>hw_trace := h\<rparr>) \<Longrightarrow> u = t\<lparr>hw_trace := h\<rparr>"
    for t u :: "'a machine_scheme" by (cases t; cases u) (simp add: vga.defs)
  have more: "vga.more t = vga.more u \<Longrightarrow> vga.more (t\<lparr>hw_trace := h\<rparr>) = vga.more (u\<lparr>hw_trace := h\<rparr>)"
    for t u :: "'a machine_scheme" by (cases t; cases u) simp
  have "vga.truncate (s\<lparr>hw_trace := h\<rparr>) = vga.truncate s" by (simp add: vga.defs)
  then have "vga.truncate (vga_putchar c (s\<lparr>hw_trace := h\<rparr>)) = vga.truncate (vga_putchar c s)"
    by (simp only: truncate_putchar)
  then show ?thesis using more [of s "vga_putchar c s"] by (intro same) simp_all
qed

lemma trace_commutes:
  fixes s :: "'a kbd_scheme"
  shows "expect_update f (s\<lparr>hw_trace := h\<rparr>) = (expect_update f s)\<lparr>hw_trace := h\<rparr>"
    "ext0_update f (s\<lparr>hw_trace := h\<rparr>) = (ext0_update f s)\<lparr>hw_trace := h\<rparr>"
    "ext1_update f (s\<lparr>hw_trace := h\<rparr>) = (ext1_update f s)\<lparr>hw_trace := h\<rparr>"
    "released_update f (s\<lparr>hw_trace := h\<rparr>) = (released_update f s)\<lparr>hw_trace := h\<rparr>"
    "is_sysrq_update f (s\<lparr>hw_trace := h\<rparr>) = (is_sysrq_update f s)\<lparr>hw_trace := h\<rparr>"
    "is_pause_update f (s\<lparr>hw_trace := h\<rparr>) = (is_pause_update f s)\<lparr>hw_trace := h\<rparr>"
    "scan_code_ptr_update g (s\<lparr>hw_trace := h\<rparr>) = (scan_code_ptr_update g s)\<lparr>hw_trace := h\<rparr>"
    "scan_code_buf_update b (s\<lparr>hw_trace := h\<rparr>) = (scan_code_buf_update b s)\<lparr>hw_trace := h\<rparr>"
  by (cases s; simp)+

lemma print_event_trace:
  "print_event e (s\<lparr>hw_trace := h\<rparr>) = at_trace h (print_event e s)"
  by (simp add: print_event_def Let_def printk_char putchar_trace)

lemma scan_event_trace:
  "scan_event data (s\<lparr>hw_trace := h\<rparr>) = rbind (scan_event data s) (\<lambda>(e, t). Inr (e, t\<lparr>hw_trace := h\<rparr>))"
  by (cases "table_lookup (if ext0 s \<noteq> 0 then scan2_ext_to_keycode else scan2_norm_to_keycode) data")
    (simp_all add: scan_event_def)

lemma kbd_fields_trace:
  fixes s :: "'a kbd_scheme"
  shows "expect (s\<lparr>hw_trace := h\<rparr>) = expect s" "ext0 (s\<lparr>hw_trace := h\<rparr>) = ext0 s"
    "ext1 (s\<lparr>hw_trace := h\<rparr>) = ext1 s" "released (s\<lparr>hw_trace := h\<rparr>) = released s"
  by simp_all

text \<open>Bringing the history of a result forward over a step that commutes with it.\<close>

lemma at_trace_bind:
  "(\<And>t. g (t\<lparr>hw_trace := h\<rparr>) = at_trace h (f t)) \<Longrightarrow> rbind (at_trace h x) g = at_trace h (rbind x f)"
  by (cases x) simp_all

lemma decode_byte_trace:
  fixes s :: "'a kbd_scheme"
  shows "decode_byte data (s\<lparr>hw_trace := h\<rparr>) = at_trace h (decode_byte data s)"
proof -
  let ?done = "\<lambda>s :: 'a kbd_scheme. Inr (s\<lparr>ext1 := 0, ext0 := 0, released := 0, scan_code_ptr := 0, expect := 1\<rparr>) :: 'a kbd_scheme result"
  have "rbind (scan_event data (s\<lparr>hw_trace := h\<rparr>)) (\<lambda>(event, s). rbind (print_event event s) ?done) =
      at_trace h (rbind (scan_event data s) (\<lambda>(event, s). rbind (print_event event s) ?done))"
  proof (cases "scan_event data s")
    case (Inr x)
    obtain e t where x: "x = (e, t)" by fastforce
    have "rbind (at_trace h (print_event e t)) ?done = at_trace h (rbind (print_event e t) ?done)"
      by (rule at_trace_bind) (simp only: trace_commutes at_trace_simps)
    then show ?thesis
      unfolding scan_event_trace Inr x by (simp only: rbind_simps prod.case print_event_trace)
  qed (simp add: scan_event_trace)
  then show ?thesis
    unfolding decode_byte_def if_distrib [of "at_trace h"] at_trace_simps
    by (intro if_cong) (simp_all only: trace_commutes kbd_fields_trace)
qed

lemma handle_data_trace:
  fixes s :: "'a kbd_scheme"
  shows "handle_data data (s\<lparr>hw_trace := h\<rparr>) = at_trace h (handle_data data s)"
  by (simp add: handle_data_def Let_def trace_commutes decode_byte_trace)

lemma feed_trace:
  fixes s :: "'a kbd_scheme"
  shows "feed bs (s\<lparr>hw_trace := h\<rparr>) = at_trace h (feed bs s)"
  by (induction bs arbitrary: s) (simp_all add: handle_data_trace at_trace_bind)

section \<open>One keyboard interrupt\<close>

text \<open>The interactions of an interrupt that finds the byte \<open>b\<close>, with the status \<open>st\<close>.\<close>

abbreviation kbd_irq_events :: "u8 \<Rightarrow> u8 \<Rightarrow> hw_event list" where
  "kbd_irq_events st b \<equiv> [In STATUS_REG st, In DATA_PORT b, Out PIC1_COMMAND PIC_EOI]"

lemma irq_handler_types:
  fixes s :: "'a kheap_scheme"
  assumes "irq_handlers s = boot_handlers True" "driver_state s = STATE_READY" "int_no r = 33"
    and "output_full (dev (hw_trace s) STATUS_REG)"
    and "dev (hw_trace s @ [In STATUS_REG (dev (hw_trace s) STATUS_REG)]) DATA_PORT = b"
    and "handle_data b s = Inr t"
  shows "irq_handler dev cr2 r s =
    Inr (r, t\<lparr>hw_trace := hw_trace s @ kbd_irq_events (dev (hw_trace s) STATUS_REG) b\<rparr>)"
proof -
  let ?h = "hw_trace s @ [In STATUS_REG (dev (hw_trace s) STATUS_REG), In DATA_PORT b]"
  have inb: "inb dev p u = (dev (hw_trace u) p, u\<lparr>hw_trace := hw_trace u @ [In p (dev (hw_trace u) p)]\<rparr>)"
    for p and u :: "'a kheap_scheme" by (simp add: inb_def log_event_def Let_def)
  have "kbd_int_handler dev s = keyboard_handler dev b (s\<lparr>hw_trace := ?h\<rparr>)"
    using assms(4,5) by (simp add: kbd_int_handler_def inb)
  also have "\<dots> = Inr (t\<lparr>hw_trace := ?h\<rparr>)"
    using assms(2,6) by (simp add: keyboard_handler_def handle_data_trace)
  finally show ?thesis
    using call_boot_handler [OF assms(1), of r dev cr2] assms(3)
    by (simp add: irq_handler_def irq_ack_def outb_def log_event_def word_le_nat_alt)
qed

section \<open>Typing\<close>

text \<open>
  A sequence of hardware interrupts, and a device that, from the history \<open>h\<close> on, reports a full
  output buffer at each of them and delivers the bytes \<open>bs\<close> one by one.
\<close>

primrec irq_sequence :: "device \<Rightarrow> u64 \<Rightarrow> regs list \<Rightarrow> 'a kheap_scheme \<Rightarrow> 'a kheap_scheme result" where
  "irq_sequence dev cr2 [] s = Inr s"
| "irq_sequence dev cr2 (r # rs) s = rbind (irq_handler dev cr2 r s) (\<lambda>(_, s). irq_sequence dev cr2 rs s)"

fun delivers :: "device \<Rightarrow> hw_event list \<Rightarrow> u8 list \<Rightarrow> bool" where
  "delivers dev h [] \<longleftrightarrow> True"
| "delivers dev h (b # bs) \<longleftrightarrow>
     (let st = dev h STATUS_REG
      in output_full st \<and> dev (h @ [In STATUS_REG st]) DATA_PORT = b \<and> delivers dev (h @ kbd_irq_events st b) bs)"

lemma irq_sequence_feeds:
  fixes s :: "'a kheap_scheme"
  assumes "irq_handlers s = boot_handlers True" "driver_state s = STATE_READY"
    and "\<forall>r \<in> set rs. int_no r = 33" "length rs = length bs" "delivers dev (hw_trace s) bs" "feed bs s = Inr t"
  shows "\<exists>h. irq_sequence dev cr2 rs s = Inr (t\<lparr>hw_trace := h\<rparr>) \<and>
    outs h = outs (hw_trace s) @ replicate (length bs) (PIC1_COMMAND, PIC_EOI)"
  using assms
proof (induction bs arbitrary: rs s t)
  case Nil
  then show ?case by (auto intro!: exI [of _ "hw_trace s"])
next
  case (Cons b bs)
  obtain r rs' where rs: "rs = r # rs'" using Cons.prems(4) by (cases rs) auto
  obtain u where u: "handle_data b s = Inr u" "feed bs u = Inr t" using Cons.prems(6) by auto
  let ?h = "hw_trace s @ kbd_irq_events (dev (hw_trace s) STATUS_REG) b"
  let ?u = "u\<lparr>hw_trace := ?h\<rparr>"
  have irq: "irq_handler dev cr2 r s = Inr (r, ?u)"
    using Cons.prems u(1) by (intro irq_handler_types) (simp_all add: rs Let_def)
  have "feed bs ?u = Inr (t\<lparr>hw_trace := ?h\<rparr>)" using feed_trace [of bs ?h u] u(2) by simp
  moreover have "irq_handlers ?u = boot_handlers True" "driver_state ?u = STATE_READY"
    using handle_data_beyond [OF u(1)] handle_data_same [OF u(1)] Cons.prems(1,2)
    by (simp_all add: beyond_kbd_def same_commands_def)
  moreover have "delivers dev (hw_trace ?u) bs" using Cons.prems(5) by (simp add: Let_def)
  ultimately obtain h where "irq_sequence dev cr2 rs' ?u = Inr (t\<lparr>hw_trace := h\<rparr>)"
    "outs h = outs ?h @ replicate (length bs) (PIC1_COMMAND, PIC_EOI)"
    using Cons.IH [of ?u rs' "t\<lparr>hw_trace := ?h\<rparr>"] Cons.prems(3,4) rs by auto
  then show ?case by (auto simp: rs irq)
qed

text \<open>
  Typing works from the key to the screen: in a booted kernel whose keyboard driver has no command
  pending and whose decoder is between keystrokes, the interrupts that deliver the scan codes of any
  presses and releases inside the tables put exactly the characters of the pressed keys on the
  terminal, in order; every interrupt is acknowledged once, nothing else is written to a device, and
  the decoder is between keystrokes again.
\<close>

lemma keystrokes_reach_screen:
  fixes s :: "'a kheap_scheme"
  assumes "irq_handlers s = boot_handlers True" "driver_state s = STATE_READY" "decoder_idle s"
    and "\<forall>k \<in> set ks. scan_ok k" "delivers dev (hw_trace s) (concat (map scan_bytes ks))"
    and "length rs = length (concat (map scan_bytes ks))" "\<forall>r \<in> set rs. int_no r = 33"
  shows "\<exists>t. irq_sequence dev cr2 rs s = Inr t \<and> decoder_idle t \<and> driver_state t = STATE_READY \<and>
    vga.truncate t = fold vga_putchar (concat (map scan_text ks)) (vga.truncate s) \<and>
    outs (hw_trace t) = outs (hw_trace s) @ replicate (length rs) (PIC1_COMMAND, PIC_EOI)"
proof -
  obtain u where u: "feed (concat (map scan_bytes ks)) s = Inr u" "typed s (concat (map scan_text ks)) u"
    using feed_keystrokes [OF assms(3,4)] by blast
  obtain h where "irq_sequence dev cr2 rs s = Inr (u\<lparr>hw_trace := h\<rparr>)"
    "outs h = outs (hw_trace s) @ replicate (length rs) (PIC1_COMMAND, PIC_EOI)"
    using irq_sequence_feeds [OF assms(1,2,7,6,5) u(1)] assms(6) by auto
  then show ?thesis
    using u(2) assms(2) by (auto simp: typed_def decoder_idle_def same_commands_def vga.defs)
qed

text \<open>Pressing and releasing A on the sample machine.\<close>

definition a_key_device :: device where
  "a_key_device h port = (if port = STATUS_REG then 1
     else [0x1C, 0xF0, 0x1C] ! length (filter (\<lambda>e. case e of In p _ \<Rightarrow> p = DATA_PORT | _ \<Rightarrow> False) h))"

lemma keystrokes_reach_screen_witness:
  "\<exists>t. irq_sequence a_key_device 0 (replicate 3 (sample_regs\<lparr>int_no := 33\<rparr>))
       (sample_machine\<lparr>irq_handlers := boot_handlers True\<rparr>) = Inr t \<and>
     vga.truncate t = vga_putchar 97 (vga.truncate sample_machine)"
proof -
  let ?s = "sample_machine\<lparr>irq_handlers := boot_handlers True\<rparr>"
  note defs = sample_machine_def sample_heap_def sample_mmu_def sample_palloc_def mmu.defs palloc.defs kbd.defs
    kbd_init_def boot_interrupts_def interrupts.defs
  have s: "hw_trace ?s = []" "driver_state ?s = STATE_READY" "decoder_idle ?s" "vga.truncate ?s = vga.truncate sample_machine"
    by (simp_all add: defs decoder_idle_def vga.defs)
  have "scan_text (Make 0x1C) = [97]"
    by (simp add: key_text_def scan2_norm_to_keycode_def keycode_to_char_def keycode_chars_def)
  moreover have "delivers a_key_device [] [0x1C, 0xF0, 0x1C]"
    by (simp add: a_key_device_def output_full_def)
  ultimately show ?thesis
    using keystrokes_reach_screen [of ?s "[Make 0x1C, Break 0x1C]" a_key_device "replicate 3 (sample_regs\<lparr>int_no := 33\<rparr>)" 0]
    by (auto simp: s)
qed

end
