(* ===== verification/Interleaving.thy ===== *)
theory Interleaving
  imports Kmain
begin

text \<open>
  The end of \<open>kmain\<close> with interrupts between its statements.  From \<open>sti\<close> on the processor takes
  hardware interrupts, while \<open>kmain\<close> still queues the first keyboard commands and prints: the main
  program and the keyboard interrupt share the command queue.  The program is a list of statements, a
  call expands to the statements of its body, and an interrupt may come between any two of them; a
  keyboard interrupt only while the controller's first port is on, which
  \<open>ps2_kbd_command_arg\<close> turns off while it works on the queue.  A call of \<open>printk\<close> is one statement.
\<close>

section \<open>Statements\<close>

text \<open>
  The statements from \<open>sti\<close> on, with those of \<open>ps2_kbd_command_arg\<close> and \<open>queue_add\<close>, in which an
  assignment is a statement of its own.
\<close>

datatype kstmt =
    Do_sti
  | Command u8 u8
  | Port_off
  | Add_if_room u8 u8
  | Queue_add u8 u8
  | Store_com u8
  | Store_arg u8
  | Bump_index
  | Bump_pending
  | Send_if_first u8
  | Await_com
  | Send u8
  | Query_set u8 u8
  | Port_on
  | Printk string "vararg list"

text \<open>
  One statement: what is left to execute of it, and the new state.  Switching the port off and on, a
  write to it (each with its wait loop) and a call of \<open>printk\<close> are single statements: an interrupt
  inside one of them is not modelled.
\<close>

fun exec_stmt :: "device \<Rightarrow> kstmt \<Rightarrow> 'a kheap_scheme \<Rightarrow> (kstmt list \<times> 'a kheap_scheme) result" where
  "exec_stmt dev Do_sti s = Inr ([], log_event Sti s)"
| "exec_stmt dev (Command c a) s = Inr ([Port_off, Add_if_room c a, Port_on], s)"
| "exec_stmt dev Port_off s = Inr ([], ps2_port1_disable dev s)"
| "exec_stmt dev (Add_if_room c a) s =
     Inr (if pending_commands s < COMMAND_QUEUE_SIZE
          then [Queue_add c a, Send_if_first c, Query_set c a] else [], s)"
| "exec_stmt dev (Queue_add c a) s =
     Inr (if pending_commands s < COMMAND_QUEUE_SIZE
          then [Store_com c, Store_arg a, Bump_index, Bump_pending] else [], s)"
| "exec_stmt dev (Store_com c) s =
     Inr ([], s\<lparr>command_queue := (command_queue s)(next_command_idx s :=
       (command_queue s (next_command_idx s))\<lparr>com := c\<rparr>)\<rparr>)"
| "exec_stmt dev (Store_arg a) s =
     Inr ([], s\<lparr>command_queue := (command_queue s)(next_command_idx s :=
       (command_queue s (next_command_idx s))\<lparr>arg := a\<rparr>)\<rparr>)"
| "exec_stmt dev Bump_index s =
     Inr ([], s\<lparr>next_command_idx := (next_command_idx s + 1) mod COMMAND_QUEUE_SIZE\<rparr>)"
| "exec_stmt dev Bump_pending s = Inr ([], s\<lparr>pending_commands := pending_commands s + 1\<rparr>)"
| "exec_stmt dev (Send_if_first c) s =
     Inr (if pending_commands s = 1 then [Await_com, Send c] else [], s)"
| "exec_stmt dev Await_com s = Inr ([], s\<lparr>driver_state := STATE_WAITING_COM_ACK\<rparr>)"
| "exec_stmt dev (Send c) s = Inr ([], ps2_port1_write dev c s)"
| "exec_stmt dev (Query_set c a) s =
     Inr (if c = PS2_KBD_COM_SET_SCAN_SET \<and> a \<noteq> 0 then [Queue_add PS2_KBD_COM_SET_SCAN_SET 0x00] else [], s)"
| "exec_stmt dev Port_on s = Inr ([], ps2_port1_enable dev s)"
| "exec_stmt dev (Printk fmt args) s = rbind (printk fmt args s) (\<lambda>t. Inr ([], t))"

text \<open>The end of \<open>kmain\<close>.\<close>

definition kmain_end_stmts :: "kstmt list" where
  "kmain_end_stmts =
     [Do_sti, Command PS2_KBD_COM_ECHO COMMAND_NO_ARG, Command PS2_KBD_COM_SET_SCAN_SET 2,
      Printk (''Executin%c %s %d.NUIDPOCALYPSE'' @ [CHR 0x0A]) [Slot 103, Str (map of_char ''protocol''), Slot 666],
      Printk (''[ERROR]: Password required'' @ [CHR 0x0A] @ ''Enter THE password to proceed: '') []]"

section \<open>Steps\<close>

text \<open>The first port of the controller, from the commands written so far.\<close>

definition port1_on :: "(u64 \<times> u8) list \<Rightarrow> bool" where
  "port1_on ws = fold (\<lambda>w on. if w = (0x64, 0xAE) then True else if w = (0x64, 0xAD) then False else on) ws False"

text \<open>
  A step of the main program, or an interrupt on one of the 16 lines, the keyboard's only while its
  port is on; no interrupt before \<open>sti\<close>.
\<close>

inductive main_step :: "device \<Rightarrow> kstmt list \<times> kheap \<Rightarrow> kstmt list \<times> kheap \<Rightarrow> bool" for dev :: device where
  main_step: "exec_stmt dev st s = Inr (sts, t) \<Longrightarrow> main_step dev (st # rest, s) (sts @ rest, t)"

inductive irq_step :: "device \<Rightarrow> kstmt list \<times> kheap \<Rightarrow> kstmt list \<times> kheap \<Rightarrow> bool" for dev :: device where
  irq_step: "Do_sti \<notin> set p \<Longrightarrow> 32 \<le> int_no r \<Longrightarrow> int_no r < 48 \<Longrightarrow>
    (int_no r = 33 \<longrightarrow> port1_on (outs (hw_trace s))) \<Longrightarrow> irq_handler dev cr2 r s = Inr (r', t) \<Longrightarrow>
    irq_step dev (p, s) (p, t)"

text \<open>The part of \<open>kmain\<close> before \<open>sti\<close>, after the check of the magic number.\<close>

definition kmain_bring_up :: "device \<Rightarrow> boot_env \<Rightarrow> u64 \<Rightarrow> 'a kheap_scheme \<Rightarrow> 'a kheap_scheme result" where
  "kmain_bring_up dev E mb_info_addr s =
     (let s = vga_terminal_initialize s
      in rbind (multiboot_get_memory_end (vmem s) (mb_info_addr + 8)) (\<lambda>memory_end.
         let s = idt_init (isr_stubs E) (irq_stubs E) (idt_at E) s
         in rbind (mmu_init (page_tables E) (kernel_end_param E) memory_end (load64 (vmem s) (kernel_end_at E)) s)
              (\<lambda>s. rbind (pit_init s) (ps2_init dev))))"

inductive running :: "device \<Rightarrow> boot_env \<Rightarrow> kstmt list \<times> kheap \<Rightarrow> bool" for dev :: device and E :: boot_env where
  up: "kbd_inv s \<Longrightarrow> irq_handlers s = (\<lambda>_. None) \<Longrightarrow> kmain_bring_up dev E mb_info_addr s = Inr t \<Longrightarrow>
    running dev E (kmain_end_stmts, t)"
| main: "running dev E c \<Longrightarrow> main_step dev c c' \<Longrightarrow> running dev E c'"
| irq: "running dev E c \<Longrightarrow> irq_step dev c c' \<Longrightarrow> running dev E c'"

inductive_cases main_stepE: "main_step dev (p, s) c'"
inductive_cases irq_stepE: "irq_step dev (p, s) c'"

section \<open>The statements are those of \<open>kmain\<close>\<close>

text \<open>Executing a list of statements without interrupts, to the end.\<close>

inductive completes :: "device \<Rightarrow> kstmt list \<Rightarrow> kheap \<Rightarrow> kheap \<Rightarrow> bool" for dev :: device where
  "completes dev [] s s"
| "exec_stmt dev st s = Inr (sts, t) \<Longrightarrow> completes dev (sts @ rest) t u \<Longrightarrow> completes dev (st # rest) s u"

inductive_simps completes_Nil [simp]: "completes dev [] s u"
inductive_simps completes_Cons: "completes dev (st # rest) s u"

lemma new_command: "(x :: ps2_kbd_command)\<lparr>com := c, arg := a\<rparr> = \<lparr>com = c, arg = a\<rparr>"
  by (cases x) simp

lemma completes_queue_add:
  "completes dev (Queue_add c a # rest) s u \<longleftrightarrow> completes dev rest (queue_add c a s) u"
  by (simp add: completes_Cons queue_add_def new_command)

lemma completes_prims:
  "completes dev (Command c a # rest) s u \<longleftrightarrow> completes dev ([Port_off, Add_if_room c a, Port_on] @ rest) s u"
  "completes dev (Port_off # rest) s u \<longleftrightarrow> completes dev rest (ps2_port1_disable dev s) u"
  "completes dev (Port_on # rest) s u \<longleftrightarrow> completes dev rest (ps2_port1_enable dev s) u"
  "completes dev (Add_if_room c a # rest) s u \<longleftrightarrow> (if pending_commands s < COMMAND_QUEUE_SIZE
     then completes dev ([Queue_add c a, Send_if_first c, Query_set c a] @ rest) s u else completes dev rest s u)"
  "completes dev (Send_if_first c # rest) s u \<longleftrightarrow> completes dev rest (if pending_commands s = 1
     then ps2_port1_write dev c (s\<lparr>driver_state := STATE_WAITING_COM_ACK\<rparr>) else s) u"
  "completes dev (Query_set c a # rest) s u \<longleftrightarrow> (if c = PS2_KBD_COM_SET_SCAN_SET \<and> a \<noteq> 0
     then completes dev (Queue_add PS2_KBD_COM_SET_SCAN_SET 0 # rest) s u else completes dev rest s u)"
  by (simp_all only: completes_Cons exec_stmt.simps sum.inject prod.inject ex_simps simp_thms append.simps if_distrib
      cong: if_cong) (simp_all add: completes_Cons)

lemma completes_command:
  "completes dev (Command c a # rest) s u \<longleftrightarrow> completes dev rest (ps2_kbd_command_arg dev c a s) u"
  by (simp add: completes_prims completes_queue_add ps2_kbd_command_arg_def Let_def)

lemma completes_calls:
  "completes dev (Do_sti # rest) s u \<longleftrightarrow> completes dev rest (log_event Sti s) u"
  "completes dev (Printk fmt args # rest) s u \<longleftrightarrow> (\<exists>t. printk fmt args s = Inr t \<and> completes dev rest t u)"
  by (auto simp: completes_Cons)

text \<open>Without interrupts the statements do what \<open>kmain\<close> does.\<close>

lemma kmain_end_completes:
  "completes dev kmain_end_stmts s t \<longleftrightarrow> kmain_tail dev s = Inr (Spinning, t)"
  by (auto simp: kmain_end_stmts_def completes_command completes_calls kmain_tail_def ps2_kbd_command_def Let_def)

lemma rbind_assoc: "rbind (rbind r f) g = rbind r (\<lambda>x. rbind (f x) g)"
  by (cases r) simp_all

lemma kmain_is_bring_up:
  "kmain dev E mbi MULTIBOOT2_BOOTLOADER_MAGIC s = rbind (kmain_bring_up dev E mbi s) (kmain_tail dev)"
  unfolding kmain_steps kmain_bring_up_def Let_def
  by (simp only: rbind_assoc)

section \<open>What holds between the statements\<close>

text \<open>What is left of an addition to the queue whose count has not been raised.\<close>

definition adding :: "kstmt list \<Rightarrow> bool" where
  "adding p \<longleftrightarrow> (\<exists>c a. p \<in> {[Store_com c, Store_arg a, Bump_index, Bump_pending],
     [Store_arg a, Bump_index, Bump_pending], [Bump_index, Bump_pending], [Bump_pending]})"

text \<open>A command has been added and the driver's state has not followed yet.\<close>

definition just_added :: "'a kbd_scheme \<Rightarrow> bool" where
  "just_added s \<longleftrightarrow> queue_inv s \<and> driver_state s \<in> {STATE_READY, STATE_WAITING_COM_ACK, STATE_WAITING_ARG_ACK} \<and>
     pending_commands s \<noteq> 0 \<and> (driver_state s = STATE_READY \<longleftrightarrow> pending_commands s = 1)"

text \<open>
  \<open>mid p s\<close>: between turning the port off and on again, with the statements \<open>p\<close> left before the
  port is turned on.
\<close>

inductive mid :: "kstmt list \<Rightarrow> 'a kbd_scheme \<Rightarrow> bool" where
  done_off: "kbd_inv s \<Longrightarrow> mid [] s"
| check: "kbd_inv s \<Longrightarrow> mid [Add_if_room c a] s"
| add: "kbd_inv s \<Longrightarrow> pending_commands s < 8 \<Longrightarrow> mid [Queue_add c a, Send_if_first c, Query_set c a] s"
| adding: "kbd_inv s \<Longrightarrow> pending_commands s < 8 \<Longrightarrow> adding p \<Longrightarrow> mid (p @ [Send_if_first c, Query_set c a]) s"
| added: "just_added s \<Longrightarrow> mid [Send_if_first c, Query_set c a] s"
| await: "just_added s \<Longrightarrow> mid [Await_com, Send c, Query_set c a] s"
| send: "kbd_inv s \<Longrightarrow> pending_commands s \<noteq> 0 \<Longrightarrow> mid [Send c, Query_set c a] s"
| asks: "kbd_inv s \<Longrightarrow> pending_commands s \<noteq> 0 \<Longrightarrow> mid [Query_set c a] s"
| add_query: "kbd_inv s \<Longrightarrow> pending_commands s \<noteq> 0 \<Longrightarrow> mid [Queue_add c a] s"
| adding_query: "kbd_inv s \<Longrightarrow> pending_commands s \<noteq> 0 \<Longrightarrow> pending_commands s < 8 \<Longrightarrow> adding p \<Longrightarrow> mid p s"

lemma kbd_inv_iff:
  "kbd_inv s \<longleftrightarrow> next_command_idx s < 8 \<and> pending_commands s \<le> 8 \<and> driver_state s \<in> {0, 1, 2} \<and>
     (driver_state s = 0 \<longleftrightarrow> pending_commands s = 0)"
  by (auto simp: kbd_inv_def queue_inv_def)

lemma just_added_more: "machine.more t = machine.more s \<Longrightarrow> just_added t = just_added s"
  using more_queue [of t s] more_kbd [of t s] length_queued [of t] length_queued [of s] by (simp add: just_added_def)

lemma mid_more:
  assumes "machine.more t = machine.more s" "mid p s"
  shows "mid p t"
  using assms(2)
  by cases (simp_all add: mid.intros more_inv [OF assms(1)] just_added_more [OF assms(1)] more_kbd(3) [OF assms(1)])

lemma next_slot: "((i :: u64) + 1) mod 8 < 8"
  by (simp add: word_less_nat_alt unat_mod)

lemma count_up:
  fixes n :: u64
  assumes "n < 8"
  shows "n + 1 \<le> 8" "n + 1 \<noteq> 0" "n + 1 = 1 \<longleftrightarrow> n = 0"
proof -
  have lt: "unat n < 8" using assms by (simp add: word_less_nat_alt)
  then have u: "unat (n + 1) = unat n + 1" by (simp add: unat_word_ariths(1))
  then show "n + 1 \<le> 8" using lt by (simp add: word_le_nat_alt)
  show "n + 1 \<noteq> 0" using u by (metis add_is_0 one_neq_zero unat_0)
  show "n + 1 = 1 \<longleftrightarrow> n = 0" by simp
qed

lemma adding_step:
  fixes s :: "'a kheap_scheme"
  assumes "adding (st # p)" "kbd_inv s" "pending_commands s < 8"
  shows "\<exists>t. exec_stmt dev st s = Inr ([], t) \<and> outs (hw_trace t) = outs (hw_trace s) \<and> irq_handlers t = irq_handlers s \<and>
    (if p = [] then just_added t \<and> (pending_commands s \<noteq> 0 \<longrightarrow> kbd_inv t)
     else adding p \<and> kbd_inv t \<and> pending_commands t = pending_commands s)"
proof -
  note c = count_up [OF assms(3)] and i = assms(2,3) [unfolded kbd_inv_iff]
  consider (com) c a where "st = Store_com c" "p = [Store_arg a, Bump_index, Bump_pending]"
    | (arg) a where "st = Store_arg a" "p = [Bump_index, Bump_pending]"
    | (index) "st = Bump_index" "p = [Bump_pending]" | (pending) "st = Bump_pending" "p = []"
    using assms(1) by (auto simp: adding_def)
  then show ?thesis
  proof cases
    case com
    then show ?thesis using i by (auto simp: adding_def kbd_inv_iff)
  next
    case arg
    then show ?thesis using i by (auto simp: adding_def kbd_inv_iff)
  next
    case index
    then show ?thesis using i next_slot by (auto simp: adding_def kbd_inv_iff)
  next
    case pending
    then show ?thesis using i c by (auto simp: kbd_inv_iff just_added_def queue_inv_def)
  qed
qed

text \<open>A statement while the port is off: it does not fault and leaves the port and the handlers alone.\<close>

lemma mid_step:
  fixes s :: "'a kheap_scheme"
  assumes "mid (st # p) s"
  shows "\<exists>sts t. exec_stmt dev st s = Inr (sts, t) \<and> mid (sts @ p) t \<and> irq_handlers t = irq_handlers s \<and>
    port1_on (outs (hw_trace t)) = port1_on (outs (hw_trace s))"
  using assms
proof cases
  case (check c a)
  then show ?thesis by (auto intro: mid.done_off mid.add)
next
  case (add c a)
  have "adding [Store_com c, Store_arg a, Bump_index, Bump_pending]" by (simp add: adding_def)
  from mid.adding [OF add(3,4) this] show ?thesis using add by simp
next
  case (adding q c a)
  then obtain q' where q: "q = st # q'" "p = q' @ [Send_if_first c, Query_set c a]"
    by (cases q) (auto simp: adding_def)
  obtain t where t: "exec_stmt dev st s = Inr ([], t)" "outs (hw_trace t) = outs (hw_trace s)"
    "irq_handlers t = irq_handlers s" "if q' = [] then just_added t
      else adding q' \<and> kbd_inv t \<and> pending_commands t = pending_commands s"
    using adding_step [of st q' s dev] adding(2-4) q(1) by (auto split: if_splits)
  have "mid p t"
  proof (cases "q' = []")
    case True
    then show ?thesis using t(4) q(2) mid.added by simp
  next
    case False
    then show ?thesis unfolding q(2) using t(4) adding(3) by (intro mid.adding) auto
  qed
  then show ?thesis using t by simp
next
  case (added c a)
  then show ?thesis by (auto simp: just_added_def kbd_inv_iff queue_inv_def intro: mid.asks mid.await)
next
  case (await c a)
  then show ?thesis by (auto simp: just_added_def kbd_inv_iff queue_inv_def intro!: mid.send)
next
  case (send c a)
  have "only_trace s (ps2_port1_write dev c s)" by simp
  note o = only_trace_interrupts [OF this] only_trace_more [OF this]
  then show ?thesis
    using send more_inv [OF o(4)] more_kbd(3) [OF o(4)] by (auto simp: port1_on_def intro: mid.asks)
next
  case (asks c a)
  then show ?thesis by (auto intro: mid.done_off mid.add_query)
next
  case (add_query c a)
  have "adding [Store_com c, Store_arg a, Bump_index, Bump_pending]" by (simp add: adding_def)
  then show ?thesis using add_query by (auto intro: mid.done_off mid.adding_query)
next
  case adding_query
  obtain t where t: "exec_stmt dev st s = Inr ([], t)" "outs (hw_trace t) = outs (hw_trace s)"
    "irq_handlers t = irq_handlers s" "if p = [] then kbd_inv t
      else adding p \<and> kbd_inv t \<and> pending_commands t = pending_commands s"
    using adding_step [of st p s dev] adding_query by (auto split: if_splits)
  have "mid p t"
  proof (cases "p = []")
    case True
    then show ?thesis using t(4) mid.done_off by simp
  next
    case False
    then show ?thesis using t(4) adding_query(2,3) by (intro mid.adding_query) auto
  qed
  then show ?thesis using t by simp
qed

section \<open>Reachable configurations\<close>

text \<open>
  Either the port's state does not matter, because the main program is not at work on the queue, or
  it is in between and the port is off.
\<close>

definition at_rest :: "kstmt list \<times> kheap \<Rightarrow> bool" where
  "at_rest = (\<lambda>(p, s). kbd_inv s \<and> (set p \<subseteq> set kmain_end_stmts \<or>
     (\<exists>c a rest. p = Port_off # Add_if_room c a # Port_on # rest \<and> set rest \<subseteq> set kmain_end_stmts)))"

definition at_work :: "kstmt list \<times> kheap \<Rightarrow> bool" where
  "at_work = (\<lambda>(p, s). \<not> port1_on (outs (hw_trace s)) \<and>
     (\<exists>m rest. p = m @ Port_on # rest \<and> set rest \<subseteq> set kmain_end_stmts \<and> mid m s))"

definition main_inv :: "kstmt list \<times> kheap \<Rightarrow> bool" where
  "main_inv c \<longleftrightarrow> (\<exists>k. irq_handlers (snd c) = boot_handlers k) \<and> (at_rest c \<or> at_work c)"

lemma end_printk:
  fixes s :: "'a kheap_scheme"
  assumes "Printk fmt args \<in> set kmain_end_stmts"
  shows "\<exists>t. printk fmt args s = Inr t \<and> machine.more t = machine.more s"
proof -
  have "args_ok args" "\<And>g k. \<exists>r. format_out g k (map of_char fmt) args = Inr r"
    using assms by (auto simp: kmain_end_stmts_def)
  then show ?thesis using printk_returns [of args fmt s] by metis
qed

text \<open>The main program does not fault and keeps the invariant.\<close>

lemma main_goes_on:
  assumes "main_inv (st # p, s)"
  shows "\<exists>sts t. exec_stmt dev st s = Inr (sts, t) \<and> main_inv (sts @ p, t)"
proof -
  obtain k where k: "irq_handlers s = boot_handlers k" using assms by (auto simp: main_inv_def)
  have keep: "main_inv (q, t)" if "machine.more t = machine.more s" "kbd_inv s" "set q \<subseteq> set kmain_end_stmts" for q t
    using that k more_inv [of t s] more_interrupts(1) [of t s] by (auto simp: main_inv_def at_rest_def)
  consider (calm) "kbd_inv s" "st \<in> set kmain_end_stmts" "set p \<subseteq> set kmain_end_stmts"
    | (off) c a rest where "kbd_inv s" "st = Port_off" "p = Add_if_room c a # Port_on # rest"
        "set rest \<subseteq> set kmain_end_stmts"
    | (on) "kbd_inv s" "st = Port_on" "set p \<subseteq> set kmain_end_stmts"
    | (mid) m rest where "mid (st # m) s" "p = m @ Port_on # rest" "set rest \<subseteq> set kmain_end_stmts"
        "\<not> port1_on (outs (hw_trace s))"
  proof -
    have "kbd_inv s" if "mid [] s" using that by cases (auto simp: adding_def)
    then show ?thesis
      using assms that by (auto simp: main_inv_def at_rest_def at_work_def append_eq_Cons_conv Cons_eq_append_conv)
  qed
  then show ?thesis
  proof cases
    case calm
    consider "st = Do_sti" | c a where "st = Command c a" | fmt args where "st = Printk fmt args"
      using calm(2) by (auto simp: kmain_end_stmts_def)
    then show ?thesis
    proof cases
      case 1
      then show ?thesis using keep [of "log_event Sti s" p] only_trace_more [of s "log_event Sti s"] calm(1,3) by simp
    next
      case (2 c a)
      then have "at_rest ([Port_off, Add_if_room c a, Port_on] @ p, s)" using calm by (simp add: at_rest_def)
      then show ?thesis using 2 k by (auto simp: main_inv_def)
    next
      case (3 fmt args)
      then show ?thesis using end_printk [of fmt args s] keep calm by fastforce
    qed
  next
    case off
    have "only_trace s (ps2_port1_disable dev s)" by (simp add: ps2_port1_disable_def)
    note o = only_trace_interrupts(1) [OF this] only_trace_more [OF this]
    have "mid [Add_if_room c a] (ps2_port1_disable dev s)" "\<not> port1_on (outs (hw_trace (ps2_port1_disable dev s)))"
      using off(1) more_inv [OF o(2)] by (auto simp: port1_on_def intro: mid.check)
    then have "at_work ([Add_if_room c a] @ Port_on # rest, ps2_port1_disable dev s)"
      unfolding at_work_def prod.case using off(4) by blast
    then show ?thesis using off k o(1) by (auto simp: main_inv_def)
  next
    case on
    then show ?thesis using keep [of "ps2_port1_enable dev s" p] by simp
  next
    case mid
    obtain sts t where t: "exec_stmt dev st s = Inr (sts, t)" "mid (sts @ m) t" "irq_handlers t = irq_handlers s"
      "port1_on (outs (hw_trace t)) = port1_on (outs (hw_trace s))" using mid_step [OF mid(1)] by blast
    have "at_work ((sts @ m) @ Port_on # rest, t)" unfolding at_work_def using t(2,4) mid(3,4) by blast
    then show ?thesis using t(1,3) k mid(2) by (auto simp: main_inv_def)
  qed
qed

lemma irq_acks_port [simp]: "port1_on (outs (hw_trace (irq_ack n s))) = port1_on (outs (hw_trace s))"
  unfolding irq_ack_eois by (simp add: port1_on_def)

lemma irq_keeps_inv:
  assumes "main_inv (p, s)" "int_no r = 33 \<longrightarrow> port1_on (outs (hw_trace s))"
    and "32 \<le> int_no r" "int_no r < 48" "irq_handler dev cr2 r s = Inr (r', t)"
  shows "main_inv (p, t)"
proof -
  obtain k where k: "irq_handlers s = boot_handlers k" using assms(1) by (auto simp: main_inv_def)
  have n: "int_no r < 256" "int_no r \<noteq> 14" using assms(3,4) by (auto simp: word_less_nat_alt word_le_nat_alt)
  obtain u where u: "call_handler dev cr2 r s = Inr u" and t: "t = irq_ack (ucast (int_no r - 32)) u"
    using assms(5) by (auto simp: irq_handler_def)
  have tu: "machine.more t = machine.more u" unfolding t by (rule only_trace_more [OF irq_ack_trace])
  have c: "if int_no r = 33 \<and> k then kbd_int_handler dev s = Inr u else u = s"
    using u call_boot_handler [OF k n(1)] n(2) by (auto split: if_splits)
  then have "beyond_kbd s u" using kbd_int_handler_beyond by (auto split: if_splits)
  then have h: "irq_handlers t = boot_handlers k" using k beyond_kbd_more [OF tu] by (simp add: beyond_kbd_def)
  have "at_rest (p, t)" if "at_rest (p, s)"
  proof -
    have "kbd_inv u" using that c kbd_int_handler_safe(2) [of s dev u] by (auto simp: at_rest_def split: if_splits)
    then show ?thesis using that more_inv [OF tu] by (auto simp: at_rest_def)
  qed
  moreover have "at_work (p, t)" if w: "at_work (p, s)"
  proof -
    have "u = s" using c w assms(2) by (auto simp: at_work_def split: if_splits)
    then show ?thesis using w mid_more [of t s] tu unfolding at_work_def t by auto
  qed
  ultimately show ?thesis using assms(1) h by (auto simp: main_inv_def)
qed

lemma bring_up_kbd:
  fixes s :: "'a kheap_scheme"
  assumes "kmain_bring_up dev E mbi s = Inr t" "kbd_inv s"
  shows "kbd_inv t"
proof -
  let ?u = "idt_init (isr_stubs E) (irq_stubs E) (idt_at E) (vga_terminal_initialize s)"
  obtain mem v w where v: "mmu_init (page_tables E) (kernel_end_param E) mem (load64 (vmem ?u) (kernel_end_at E)) ?u = Inr v"
    and w: "pit_init v = Inr w" and t: "ps2_init dev w = Inr t"
    using assms(1) by (auto simp: kmain_bring_up_def Let_def)
  have "interrupts.more w = interrupts.more v" using w pit_init_frame [of v] by auto
  then show ?thesis
    using past_interrupts(1) [OF ps2_init_frame(1) [OF t]] past_interrupts(1) [of w v] mmu_init_frame(1) [OF v]
      bring_up(2) [of E s] assms(2) by simp
qed

lemma bring_up_inv:
  assumes "kmain_bring_up dev E mbi s = Inr t" "kbd_inv s" "irq_handlers s = (\<lambda>_. None)"
  shows "main_inv (kmain_end_stmts, t)"
proof -
  obtain u where u: "kmain_tail dev t = Inr (Spinning, u)" "beyond_kbd t u" using kmain_tail_spins by blast
  then have "kmain dev E mbi MULTIBOOT2_BOOTLOADER_MAGIC s = Inr (Spinning, u)"
    using assms(1) by (simp add: kmain_is_bring_up)
  from kmain_spinning(2) [OF this assms(2,3)] obtain k where "irq_handlers t = boot_handlers k"
    using u(2) by (auto simp: beyond_kbd_def)
  then show ?thesis using bring_up_kbd [OF assms(1,2)] by (auto simp: main_inv_def at_rest_def)
qed

lemma running_inv: "running dev E c \<Longrightarrow> main_inv c"
proof (induction rule: running.induct)
  case (up s mb_info_addr t)
  then show ?case using bring_up_inv by blast
next
  case (main c c')
  from main(2) obtain st p s sts t where "c = (st # p, s)" "exec_stmt dev st s = Inr (sts, t)" "c' = (sts @ p, t)"
    by cases
  then show ?case using main_goes_on [of st p s dev] main(3) by auto
next
  case (irq c c')
  from irq(2) obtain p s r cr2 r' t where "c = (p, s)" "c' = (p, t)" "32 \<le> int_no r" "int_no r < 48"
    "int_no r = 33 \<longrightarrow> port1_on (outs (hw_trace s))" "irq_handler dev cr2 r s = Inr (r', t)" by cases
  then show ?case using irq_keeps_inv irq(3) by simp
qed

text \<open>How many statements the main program has left at most.\<close>

fun stmt_bound :: "kstmt \<Rightarrow> nat" where
  "stmt_bound (Command c a) = 18"
| "stmt_bound (Add_if_room c a) = 15"
| "stmt_bound (Queue_add c a) = 5"
| "stmt_bound (Send_if_first c) = 3"
| "stmt_bound (Query_set c a) = 6"
| "stmt_bound st = 1"

definition stmts_left :: "kstmt list \<Rightarrow> nat" where
  "stmts_left p = sum_list (map stmt_bound p)"

lemma main_step_decreases: "main_step dev (p, s) c \<Longrightarrow> stmts_left (fst c) < stmts_left p"
proof (erule main_stepE)
  fix st sts t rest assume "exec_stmt dev st s = Inr (sts, t)" and c: "p = st # rest" "c = (sts @ rest, t)"
  then have "stmts_left sts < stmt_bound st" by (cases st) (auto simp: stmts_left_def)
  then show ?thesis using c by (simp add: stmts_left_def)
qed

section \<open>Properties\<close>

text \<open>
  C10: Interrupts between the statements at the end of \<open>kmain\<close> do no harm.  In every configuration a
  booted kernel reaches when hardware interrupts come between any two statements after \<open>sti\<close>, the
  keyboard's while its port is on: the main program does not fault and needs fewer statements with
  every step it takes, so that it reaches its endless loop; the keyboard driver's invariant holds
  whenever a keyboard interrupt can come, and its handler then never runs into the corrupted-state
  abort; the other interrupts only acknowledge themselves, a page fault stops the kernel and any
  other exception is ignored.
\<close>

theorem kernel_interleaving_safe:
  assumes "running dev E (p, s)"
  shows "(p \<noteq> [] \<longrightarrow> (\<exists>c. main_step dev (p, s) c)) \<and> (\<forall>c. main_step dev (p, s) c \<longrightarrow> stmts_left (fst c) < stmts_left p) \<and>
    (port1_on (outs (hw_trace s)) \<or> p = [] \<longrightarrow> kbd_inv s \<and> (int_no r = 33 \<longrightarrow> irq_handler dev cr2 r s \<noteq> Inl Aborted)) \<and>
    (32 \<le> int_no r \<and> int_no r < 48 \<and> int_no r \<noteq> 33 \<longrightarrow>
      irq_handler dev cr2 r s = Inr (r, irq_ack (ucast (int_no r - 32)) s)) \<and>
    (int_no r < 32 \<longrightarrow> isr_handler dev cr2 r s = (if int_no r = 14 then Inl Aborted else Inr (r, s)))"
proof -
  have inv: "main_inv (p, s)" using running_inv [OF assms] .
  then obtain k where k: "irq_handlers s = boot_handlers k" by (auto simp: main_inv_def)
  have "\<exists>c. main_step dev (p, s) c" if "p \<noteq> []"
    using that inv main_goes_on [of _ _ s dev] main_step.intros by (cases p) blast+
  moreover have kbd: "kbd_inv s" if "port1_on (outs (hw_trace s)) \<or> p = []"
    using inv that by (auto simp: main_inv_def at_rest_def at_work_def)
  moreover have lt: "int_no r < 256" if "int_no r < 48" using that by (simp add: word_less_nat_alt)
  note c = call_boot_handler [OF k lt, of dev cr2]
  have "irq_handler dev cr2 r s \<noteq> Inl Aborted" if "kbd_inv s" "int_no r = 33"
    using that c kbd_int_handler_safe(1) [OF that(1), of dev]
    by (cases "kbd_int_handler dev s") (auto simp: irq_handler_def)
  moreover have "irq_handler dev cr2 r s = Inr (r, irq_ack (ucast (int_no r - 32)) s)"
    if "32 \<le> int_no r" "int_no r < 48" "int_no r \<noteq> 33"
  proof -
    have "int_no r \<noteq> 14" using that(1) by auto
    then show ?thesis using that c by (simp add: irq_handler_def)
  qed
  moreover have "isr_handler dev cr2 r s = (if int_no r = 14 then Inl Aborted else Inr (r, s))" if "int_no r < 32"
  proof -
    have "int_no r < 48" "int_no r \<noteq> 33" using that by (auto simp: word_less_nat_alt)
    then show ?thesis using c by (simp add: isr_handler_def)
  qed
  ultimately show ?thesis using main_step_decreases by blast
qed

text \<open>The timer interrupt right after \<open>sti\<close>, before the first command.\<close>

theorem kernel_interleaving_safe_witness:
  "\<exists>s. running sample_device sample_env (tl kmain_end_stmts, s) \<and>
     (\<exists>c. main_step sample_device (tl kmain_end_stmts, s) c) \<and>
     irq_handler sample_device 0 sample_regs s = Inr (sample_regs, irq_ack 0 s)"
proof -
  obtain t s where "kmain sample_device sample_env 992 MULTIBOOT2_BOOTLOADER_MAGIC sample_machine = Inr (Spinning, t)"
    "kmain_bring_up sample_device sample_env 992 sample_machine = Inr s"
    using sample_machine_boots kmain_is_bring_up by (metis rbind_eq_Inr)
  then have "running sample_device sample_env (Do_sti # tl kmain_end_stmts, s)"
    using running.up [OF sample_machine_fields(3,4)] by (simp add: kmain_end_stmts_def)
  from running.main [OF this main_step.intros]
  have r: "running sample_device sample_env (tl kmain_end_stmts, log_event Sti s)" by fastforce
  have "int_no sample_regs = 32" "tl kmain_end_stmts \<noteq> []" by (simp_all add: sample_regs_def kmain_end_stmts_def)
  then show ?thesis using r kernel_interleaving_safe [OF r, of sample_regs 0] by auto
qed

end
