(* ===== verification/Irq_Entry.thy ===== *)
theory Irq_Entry
  imports Kmain
begin

text \<open>
  The entry stubs of \<^verbatim>\<open>src/arch/x86_64/irq.asm\<close>, one for each of the 48 vectors that \<open>idt_init\<close>
  installs.  A stub is a list of instructions on a small processor state; the C function it calls is a
  parameter that is only assumed to return its argument and to leave the stack frame alone, as the
  dispatchers of \<^verbatim>\<open>idt.c\<close> do.  What the processor does on an interrupt, and which exceptions come with
  an error code, is its documented behaviour.
\<close>

section \<open>Processor and instructions\<close>

text \<open>The general registers but the stack pointer.\<close>

datatype reg = RAX | RBX | RCX | RDX | RSI | RDI | RBP | R8 | R9 | R10 | R11 | R12 | R13 | R14 | R15

record cpu =
  gpr :: "reg \<Rightarrow> u64"
  stack_ptr :: u64
  instr_ptr :: u64
  code_seg :: u64
  stack_seg :: u64
  flags :: u64
  gs_base :: u64
  kernel_gs_base :: u64
  ram :: mem

text \<open>The two C functions that the stubs call.\<close>

datatype dispatcher = Isr_handler | Irq_handler

datatype instr = Cli | Push_byte u8 | Push reg | Pop reg | Swapgs | Cld | Mov_rdi_rsp | Call dispatcher | Mov_rsp_rax
  | Add_rsp u64 | Iretq

definition push :: "u64 \<Rightarrow> cpu \<Rightarrow> cpu" where
  "push v c = c\<lparr>stack_ptr := stack_ptr c - 8, ram := store64 (ram c) (stack_ptr c - 8) v\<rparr>"

lemma push_fields [simp]:
  "ram (push v c) = store64 (ram c) (stack_ptr c - 8) v" "stack_ptr (push v c) = stack_ptr c - 8"
  "gpr (push v c) = gpr c" "instr_ptr (push v c) = instr_ptr c" "code_seg (push v c) = code_seg c"
  "stack_seg (push v c) = stack_seg c" "flags (push v c) = flags c" "gs_base (push v c) = gs_base c"
  "kernel_gs_base (push v c) = kernel_gs_base c"
  by (simp_all add: push_def)

text \<open>
  One instruction; \<open>f\<close> gives the C functions that are called.  \<open>push byte\<close> extends the sign of its
  operand, \<open>iretq\<close> takes five words from the stack.
\<close>

fun exec :: "(dispatcher \<Rightarrow> cpu \<Rightarrow> cpu) \<Rightarrow> instr \<Rightarrow> cpu \<Rightarrow> cpu" where
  "exec f Cli c = c\<lparr>flags := flags c AND NOT 0x200\<rparr>"
| "exec f (Push_byte v) c = push (scast v) c"
| "exec f (Push r) c = push (gpr c r) c"
| "exec f (Pop r) c = c\<lparr>gpr := (gpr c)(r := load64 (ram c) (stack_ptr c)), stack_ptr := stack_ptr c + 8\<rparr>"
| "exec f Swapgs c = c\<lparr>gs_base := kernel_gs_base c, kernel_gs_base := gs_base c\<rparr>"
| "exec f Cld c = c\<lparr>flags := flags c AND NOT 0x400\<rparr>"
| "exec f Mov_rdi_rsp c = c\<lparr>gpr := (gpr c)(RDI := stack_ptr c)\<rparr>"
| "exec f (Call g) c = f g c"
| "exec f Mov_rsp_rax c = c\<lparr>stack_ptr := gpr c RAX\<rparr>"
| "exec f (Add_rsp n) c = c\<lparr>stack_ptr := stack_ptr c + n\<rparr>"
| "exec f Iretq c =
     (let p = stack_ptr c; m = ram c
      in c\<lparr>instr_ptr := load64 m p, code_seg := load64 m (p + 8), flags := load64 m (p + 16),
           stack_ptr := load64 m (p + 24), stack_seg := load64 m (p + 32)\<rparr>)"

definition exec_all :: "(dispatcher \<Rightarrow> cpu \<Rightarrow> cpu) \<Rightarrow> instr list \<Rightarrow> cpu \<Rightarrow> cpu" where
  "exec_all f p = fold (exec f) p"

section \<open>The stubs\<close>

definition save_all :: "instr list" where
  "save_all = [Push RAX, Push RBX, Push RCX, Push RDX, Push RSI, Push RDI, Push RBP, Push R8, Push R9,
     Push R10, Push R11, Push R12, Push R13, Push R14, Push R15]"

definition restore_all :: "instr list" where
  "restore_all = [Pop R15, Pop R14, Pop R13, Pop R12, Pop R11, Pop R10, Pop R9, Pop R8, Pop RBP, Pop RDI,
     Pop RSI, Pop RDX, Pop RCX, Pop RBX, Pop RAX]"

definition isr_common :: "instr list" where
  "isr_common = [Swapgs] @ save_all @ [Cld, Mov_rdi_rsp, Call Isr_handler, Mov_rsp_rax] @ restore_all @
     [Swapgs, Add_rsp 16, Iretq]"

definition irq_common :: "instr list" where
  "irq_common = [Swapgs] @ save_all @ [Cld, Mov_rdi_rsp, Call Irq_handler, Mov_rsp_rax] @ restore_all @
     [Swapgs, Add_rsp 16, Iretq]"

definition ISR_NOERR :: "u8 \<Rightarrow> instr list" where
  "ISR_NOERR n = [Cli, Push_byte 0, Push_byte n] @ isr_common"

definition ISR_ERR :: "u8 \<Rightarrow> instr list" where
  "ISR_ERR n = [Cli, Push_byte n] @ isr_common"

definition IRQ :: "u8 \<Rightarrow> instr list" where
  "IRQ vector = [Cli, Push_byte 0, Push_byte vector] @ irq_common"

text \<open>The exceptions whose stub expects an error code on the stack, and the stub of every vector.\<close>

definition err_vectors :: "nat list" where
  "err_vectors = [8, 10, 11, 12, 13, 14, 17, 21]"

definition vector_stub :: "nat \<Rightarrow> instr list" where
  "vector_stub n =
     (if 32 \<le> n then IRQ (of_nat n)
      else if n \<in> set err_vectors then ISR_ERR (of_nat n) else ISR_NOERR (of_nat n))"

section \<open>Interrupt delivery\<close>

text \<open>
  An interrupt in the kernel, through an interrupt gate without a stack switch: the stack pointer
  is rounded down to 16, five words and the error code, if there is one, are pushed, and
  interrupts and tracing are turned off.
\<close>

definition deliver :: "u64 option \<Rightarrow> u64 \<Rightarrow> cpu \<Rightarrow> cpu" where
  "deliver err stub c =
     (let d = c\<lparr>stack_ptr := stack_ptr c AND NOT 15\<rparr>;
          d = push (instr_ptr c) (push (code_seg c) (push (flags c) (push (stack_ptr c) (push (stack_seg c) d))));
          d = (case err of Some e \<Rightarrow> push e d | None \<Rightarrow> d)
      in d\<lparr>instr_ptr := stub, code_seg := 0x08, flags := flags c AND NOT 0x14300\<rparr>)"

text \<open>The frame as the C code sees it through its \<open>struct regs\<close> pointer.\<close>

definition read_regs :: "mem \<Rightarrow> u64 \<Rightarrow> regs" where
  "read_regs m p =
     \<lparr>r15 = load64 m p, r14 = load64 m (p + 8), r13 = load64 m (p + 16), r12 = load64 m (p + 24),
      r11 = load64 m (p + 32), r10 = load64 m (p + 40), r9 = load64 m (p + 48), r8 = load64 m (p + 56),
      rbp = load64 m (p + 64), rdi = load64 m (p + 72), rsi = load64 m (p + 80), rdx = load64 m (p + 88),
      rcx = load64 m (p + 96), rbx = load64 m (p + 104), rax = load64 m (p + 112),
      int_no = load64 m (p + 120), err_code = load64 m (p + 128),
      rip = load64 m (p + 136), cs = load64 m (p + 144), rflags = load64 m (p + 152),
      rsp = load64 m (p + 160), ss = load64 m (p + 168)\<rparr>"

text \<open>The registers of an interrupted processor.\<close>

definition regs_of :: "u64 \<Rightarrow> u64 \<Rightarrow> cpu \<Rightarrow> regs" where
  "regs_of n err c =
     \<lparr>r15 = gpr c R15, r14 = gpr c R14, r13 = gpr c R13, r12 = gpr c R12, r11 = gpr c R11, r10 = gpr c R10,
      r9 = gpr c R9, r8 = gpr c R8, rbp = gpr c RBP, rdi = gpr c RDI, rsi = gpr c RSI, rdx = gpr c RDX,
      rcx = gpr c RCX, rbx = gpr c RBX, rax = gpr c RAX, int_no = n, err_code = err, rip = instr_ptr c,
      cs = code_seg c, rflags = flags c, rsp = stack_ptr c, ss = stack_seg c\<rparr>"

text \<open>
  What is assumed of the C functions: they return their argument, as \<open>isr_handler\<close> and \<open>irq_handler\<close>
  do, and change neither the 22 words of the frame nor the bases of \<open>gs\<close>.
\<close>

definition returns_frame :: "(dispatcher \<Rightarrow> cpu \<Rightarrow> cpu) \<Rightarrow> bool" where
  "returns_frame f \<longleftrightarrow> (\<forall>g c. gpr (f g c) RAX = gpr c RDI \<and> gs_base (f g c) = gs_base c \<and>
     kernel_gs_base (f g c) = kernel_gs_base c \<and> (\<forall>x. in_range (gpr c RDI) 176 x \<longrightarrow> ram (f g c) x = ram c x))"

lemma dispatchers_return:
  "isr_handler dev cr2 r s = Inr (r', t) \<Longrightarrow> r' = r" "irq_handler dev cr2 r s = Inr (r', t) \<Longrightarrow> r' = r"
  by (auto simp: isr_handler_def irq_handler_def)

section \<open>Words on the stack\<close>

definition words :: "mem \<Rightarrow> u64 \<Rightarrow> u64 list \<Rightarrow> bool" where
  "words m p vs \<longleftrightarrow> (\<forall>i < length vs. load64 m (p + of_nat (8 * i)) = vs ! i)"

text \<open>The words \<open>vs\<close> have been pushed below \<open>hi\<close>, on the memory \<open>m\<close>.\<close>

definition pushed :: "mem \<Rightarrow> u64 \<Rightarrow> u64 list \<Rightarrow> cpu \<Rightarrow> bool" where
  "pushed m hi vs c \<longleftrightarrow> words (ram c) (stack_ptr c) vs \<and> stack_ptr c = hi - of_nat (8 * length vs) \<and>
     (\<forall>x. \<not> in_range (stack_ptr c) (8 * length vs) x \<longrightarrow> ram c x = m x)"

lemma pushed_cong: "ram d = ram c \<Longrightarrow> stack_ptr d = stack_ptr c \<Longrightarrow> pushed m hi vs d = pushed m hi vs c"
  by (simp only: pushed_def)

lemma words_push:
  assumes "words m p vs" "8 * length vs + 8 \<le> 2 ^ 64"
  shows "words (store64 m (p - 8) v) (p - 8) (v # vs)"
  unfolding words_def
proof (intro allI impI)
  fix i assume i: "i < length (v # vs)"
  show "load64 (store64 m (p - 8) v) (p - 8 + of_nat (8 * i)) = (v # vs) ! i"
  proof (cases i)
    case (Suc j)
    have a: "p - 8 + of_nat (8 * i) = p + of_nat (8 * j)" by (simp add: Suc)
    have "disjoint_ranges (p - 8) 8 (p - 8 + of_nat (8 * i)) 8"
      using i assms(2) Suc by (intro disjoint_ranges_offset) auto
    then have "load64 (store64 m (p - 8) v) (p + of_nat (8 * j)) = load64 m (p + of_nat (8 * j))"
      unfolding a by (rule load64_store64_disjoint [OF disjoint_ranges_sym])
    moreover have "load64 m (p + of_nat (8 * j)) = vs ! j" using assms(1) i Suc unfolding words_def by auto
    ultimately show ?thesis unfolding a by (simp only: Suc nth_Cons_Suc)
  qed simp
qed

lemma pushed_push:
  assumes "pushed m hi vs c" "8 * length vs + 8 \<le> 2 ^ 64"
  shows "pushed m hi (v # vs) (push v c)"
proof -
  have "ram (push v c) x = m x" if x: "\<not> in_range (stack_ptr c - 8) (8 + 8 * length vs) x" for x
  proof -
    have "\<not> in_range (stack_ptr c - 8) 8 x" using x in_range_mono by fastforce
    moreover have "\<not> in_range (stack_ptr c) (8 * length vs) x"
    proof
      assume "in_range (stack_ptr c) (8 * length vs) x"
      then obtain i where i: "i < 8 * length vs" "x = stack_ptr c + of_nat i" by (rule in_rangeE)
      then have "x = stack_ptr c - 8 + of_nat (i + 8)" by simp
      then show False using x i(1) assms(2) in_range_add [of "i + 8" "stack_ptr c - 8" "8 + 8 * length vs"] by simp
    qed
    ultimately show ?thesis using assms(1) by (simp add: push_def store64_apply pushed_def)
  qed
  moreover have "words (ram (push v c)) (stack_ptr (push v c)) (v # vs)"
  proof -
    have "words (ram c) (stack_ptr c) vs" using assms(1) unfolding pushed_def by blast
    from words_push [OF this assms(2), of v] show ?thesis by (simp add: push_def)
  qed
  moreover have "stack_ptr (push v c) = hi - of_nat (8 * length (v # vs))"
    using assms(1) by (simp add: pushed_def push_def)
  moreover have "stack_ptr (push v c) = stack_ptr c - 8" by (simp add: push_def)
  ultimately show ?thesis unfolding pushed_def by (metis length_Cons mult_Suc_right)
qed

lemma words_cong:
  assumes "words m p vs" "\<And>x. in_range p (8 * length vs) x \<Longrightarrow> m' x = m x" "8 * length vs \<le> 2 ^ 64"
  shows "words m' p vs"
  unfolding words_def
proof (intro allI impI)
  fix i assume i: "i < length vs"
  have "load64 m' (p + of_nat (8 * i)) = load64 m (p + of_nat (8 * i))"
  proof (rule load64_cong)
    fix x assume "in_range (p + of_nat (8 * i)) 8 x"
    then obtain j where j: "j < 8" "x = p + of_nat (8 * i) + of_nat j" by (rule in_rangeE)
    then have x: "x = p + of_nat (8 * i + j)" by simp
    have "8 * i + j < 2 ^ 64" "8 * i + j < 8 * length vs" using i j(1) assms(3) by linarith+
    then have "in_range p (8 * length vs) x" unfolding x by (simp only: in_range_add)
    then show "m' x = m x" by (rule assms(2))
  qed
  then show "load64 m' (p + of_nat (8 * i)) = vs ! i" using assms(1) i by (simp add: words_def)
qed

section \<open>Saving and restoring\<close>

definition saved_regs :: "reg list" where
  "saved_regs = [RAX, RBX, RCX, RDX, RSI, RDI, RBP, R8, R9, R10, R11, R12, R13, R14, R15]"

lemma saves_and_restores: "save_all = map Push saved_regs" "restore_all = map Pop (rev saved_regs)"
  by (simp_all add: save_all_def restore_all_def saved_regs_def)

lemma all_saved: "set saved_regs = UNIV"
proof (intro UNIV_eq_I [symmetric] allI)
  fix r :: reg show "r \<in> set saved_regs" by (cases r) (simp_all add: saved_regs_def)
qed

lemma exec_all_simps [simp]:
  "exec_all f [] c = c" "exec_all f (i # p) c = exec_all f p (exec f i c)"
  "exec_all f (p @ q) c = exec_all f q (exec_all f p c)"
  by (simp_all add: exec_all_def)

lemma exec_call: "exec_all f (p @ Call g # q) c = exec_all f q (f g (exec_all f p c))"
  by simp

text \<open>A processor that differs only in stack pointer and memory.\<close>

definition same_regs :: "cpu \<Rightarrow> cpu \<Rightarrow> bool" where
  "same_regs c d \<longleftrightarrow> d = c\<lparr>stack_ptr := stack_ptr d, ram := ram d\<rparr>"

lemma same_regs_push [simp]: "same_regs c (push v d) = same_regs c d"
  by (cases c; cases d) (simp add: same_regs_def push_def)

lemma save_regs_pushed:
  assumes "pushed m hi vs d" "same_regs c d" "8 * (length vs + length rs) \<le> 2 ^ 64"
  shows "pushed m hi (rev (map (gpr c) rs) @ vs) (exec_all f (map Push rs) d) \<and>
    same_regs c (exec_all f (map Push rs) d)"
  using assms
proof (induction rs arbitrary: vs d)
  case (Cons r rs)
  have "gpr d r = gpr c r" using Cons.prems(2) unfolding same_regs_def by (metis cpu.select_convs(1) cpu.surjective cpu.update_convs(2,9))
  then show ?case
    using Cons.IH [of "gpr c r # vs" "push (gpr c r) d"] pushed_push [OF Cons.prems(1)] Cons.prems(2,3) by simp
qed simp

lemma words_tail: "words m p (v # vs) \<Longrightarrow> words m (p + 8) vs"
  unfolding words_def by (auto simp: algebra_simps dest: spec [of _ "Suc _"])

lemma restore_regs:
  assumes "words (ram d) (stack_ptr d) (vs @ ws)" "length vs = length rs"
  shows "exec_all f (map Pop rs) d =
    d\<lparr>gpr := fold (\<lambda>(r, v) g. g(r := v)) (zip rs vs) (gpr d), stack_ptr := stack_ptr d + of_nat (8 * length rs)\<rparr>"
  using assms
proof (induction rs arbitrary: vs d)
  case Nil
  then show ?case by simp
next
  case (Cons r rs)
  obtain v us where vs: "vs = v # us" using Cons.prems(2) by (cases vs) auto
  have v: "load64 (ram d) (stack_ptr d) = v" using Cons.prems(1) vs by (force simp: words_def)
  let ?d = "d\<lparr>gpr := (gpr d)(r := v), stack_ptr := stack_ptr d + 8\<rparr>"
  have "words (ram ?d) (stack_ptr ?d) (us @ ws)" using words_tail [of "ram d" "stack_ptr d" v] Cons.prems(1) vs by simp
  then show ?case using Cons.IH [of ?d us] Cons.prems(2) vs v by (simp add: algebra_simps)
qed

lemma restored_value:
  assumes "distinct rs" "r \<in> set rs"
  shows "fold (\<lambda>(r, v) g. g(r := v)) (zip rs (map h rs)) g r = h r"
proof -
  have keep: "r \<notin> set rs \<Longrightarrow> fold (\<lambda>(r, v) g. g(r := v)) (zip rs (map h rs)) g r = g r" for rs g
    by (induction rs arbitrary: g) auto
  show ?thesis using assms by (induction rs arbitrary: g) (auto simp: keep)
qed

lemma restore_all_words:
  assumes "words (ram d) (stack_ptr d) (rev (map h saved_regs) @ ws)"
  shows "exec_all f restore_all d = d\<lparr>gpr := h, stack_ptr := stack_ptr d + 120\<rparr>"
proof -
  have "fold (\<lambda>(r, v) g. g(r := v)) (zip (rev saved_regs) (map h (rev saved_regs))) (gpr d) r = h r" for r
    by (rule restored_value) (simp_all add: all_saved, simp add: saved_regs_def)
  then have "fold (\<lambda>(r, v) g. g(r := v)) (zip (rev saved_regs) (rev (map h saved_regs))) (gpr d) = h"
    by (auto simp: rev_map)
  moreover have "length saved_regs = 15" by (simp add: saved_regs_def)
  ultimately show ?thesis
    using restore_regs [OF assms, of "rev saved_regs" f] by (simp add: saves_and_restores(2))
qed

text \<open>The frame, from the lowest address.\<close>

definition frame_words :: "u64 \<Rightarrow> u64 \<Rightarrow> cpu \<Rightarrow> u64 list" where
  "frame_words n e c = rev (map (gpr c) saved_regs) @
     [n, e, instr_ptr c, code_seg c, flags c, stack_ptr c, stack_seg c]"

lemma length_frame [simp]: "length (frame_words n e c) = 22"
  by (simp add: frame_words_def saved_regs_def)

lemma pushed_frame:
  assumes "pushed m hi (frame_words n e c) d"
  shows "words (ram d) (stack_ptr d) (frame_words n e c)" "stack_ptr d = hi - 176"
    "\<not> in_range (stack_ptr d) 176 x \<Longrightarrow> ram d x = m x"
proof -
  have "8 * length (frame_words n e c) = 176" by simp
  with assms show "words (ram d) (stack_ptr d) (frame_words n e c)"
    "\<not> in_range (stack_ptr d) 176 x \<Longrightarrow> ram d x = m x"
    unfolding pushed_def by metis+
  have "stack_ptr d = hi - of_nat (8 * length (frame_words n e c))" using assms unfolding pushed_def by blast
  then show "stack_ptr d = hi - 176" by simp
qed

lemma frame_loads:
  assumes "words m p (frame_words n e c)"
  shows "read_regs m p = regs_of n e c"
proof -
  have w: "load64 m (p + of_nat (8 * i)) = frame_words n e c ! i" if "i < 22" for i
    using assms that by (simp add: words_def)
  show ?thesis
    using w [of 0] w [of 1] w [of 2] w [of 3] w [of 4] w [of 5] w [of 6] w [of 7] w [of 8] w [of 9] w [of 10]
      w [of 11] w [of 12] w [of 13] w [of 14] w [of 15] w [of 16] w [of 17] w [of 18] w [of 19] w [of 20] w [of 21]
    by (simp add: read_regs_def regs_of_def frame_words_def saved_regs_def)
qed

lemma read_regs_fields:
  assumes "read_regs m p = regs_of n e c"
  shows "load64 m (p + 136) = instr_ptr c" "load64 m (p + 144) = code_seg c" "load64 m (p + 152) = flags c"
    "load64 m (p + 160) = stack_ptr c" "load64 m (p + 168) = stack_seg c"
  using assms by (simp_all add: read_regs_def regs_of_def)

text \<open>The way out of a stub.\<close>

lemma leaves:
  assumes "returns_frame f" "words (ram d) (gpr d RDI) (frame_words n e c)"
    and "gs_base d = kernel_gs_base c" "kernel_gs_base d = gs_base c"
  shows "exec_all f ([Mov_rsp_rax] @ restore_all @ [Swapgs, Add_rsp 16, Iretq]) (f g d) = c\<lparr>ram := ram (f g d)\<rparr>"
proof -
  let ?p = "gpr d RDI" and ?d = "exec f Mov_rsp_rax (f g d)"
  have f: "gpr (f g d) RAX = ?p" "gs_base (f g d) = gs_base d" "kernel_gs_base (f g d) = kernel_gs_base d"
    "\<And>x. in_range ?p 176 x \<Longrightarrow> ram (f g d) x = ram d x" using assms(1) by (auto simp: returns_frame_def)
  then have w: "words (ram (f g d)) ?p (frame_words n e c)" by (intro words_cong [OF assms(2)]) auto
  then have "exec_all f restore_all ?d = ?d\<lparr>gpr := gpr c, stack_ptr := stack_ptr ?d + 120\<rparr>"
    using f(1) by (intro restore_all_words) (simp add: frame_words_def)
  then show ?thesis
    using read_regs_fields [OF frame_loads [OF w]] f(1-3) assms(3,4) by (simp add: Let_def add.assoc)
qed

text \<open>The way in, from the state in which interrupt number and error code have been pushed.\<close>

definition entered :: "mem \<Rightarrow> u64 \<Rightarrow> u64 \<Rightarrow> u64 \<Rightarrow> cpu \<Rightarrow> cpu \<Rightarrow> bool" where
  "entered m hi n e c d \<longleftrightarrow>
     pushed m hi [n, e, instr_ptr c, code_seg c, flags c, stack_ptr c, stack_seg c] d \<and>
     gpr d = gpr c \<and> gs_base d = gs_base c \<and> kernel_gs_base d = kernel_gs_base c \<and> \<not> bit (flags d) 9"

lemma enters:
  fixes f :: "dispatcher \<Rightarrow> cpu \<Rightarrow> cpu"
  assumes "entered m hi n e c d0"
  defines "d \<equiv> exec_all f ([Swapgs] @ save_all @ [Cld, Mov_rdi_rsp]) d0"
  shows "pushed m hi (frame_words n e c) d" "gpr d RDI = stack_ptr d" "gs_base d = kernel_gs_base c"
    "kernel_gs_base d = gs_base c" "\<not> bit (flags d) 9" "\<not> bit (flags d) 10"
proof -
  let ?s = "exec f Swapgs d0" and ?vs = "[n, e, instr_ptr c, code_seg c, flags c, stack_ptr c, stack_seg c]"
  have "pushed m hi ?vs ?s = pushed m hi ?vs d0" by (rule pushed_cong) simp_all
  then have "pushed m hi ?vs ?s" using assms(1) unfolding entered_def by blast
  moreover have "same_regs ?s ?s" by (simp add: same_regs_def)
  moreover have "8 * (length ?vs + length saved_regs) \<le> 2 ^ 64" by (simp add: saved_regs_def)
  ultimately have "pushed m hi (rev (map (gpr ?s) saved_regs) @ ?vs) (exec_all f save_all ?s) \<and>
      same_regs ?s (exec_all f save_all ?s)"
    unfolding saves_and_restores(1) by (rule save_regs_pushed)
  note sv = conjunct1 [OF this] conjunct2 [OF this]
  define u where "u = exec_all f save_all ?s"
  have u: "pushed m hi (frame_words n e c) u" "gs_base u = kernel_gs_base c" "kernel_gs_base u = gs_base c"
    "\<not> bit (flags u) 9"
  proof -
    have "gpr ?s = gpr c" using assms(1) by (simp add: entered_def)
    then show "pushed m hi (frame_words n e c) u" using sv(1) by (simp only: u_def frame_words_def)
    have e: "u = ?s\<lparr>stack_ptr := stack_ptr u, ram := ram u\<rparr>" using sv(2) unfolding same_regs_def u_def .
    show "gs_base u = kernel_gs_base c" "kernel_gs_base u = gs_base c" "\<not> bit (flags u) 9"
      using assms(1) by (subst e, simp add: entered_def)+
  qed
  have d: "d = u\<lparr>flags := flags u AND NOT 0x400, gpr := (gpr u)(RDI := stack_ptr u)\<rparr>"
    unfolding d_def by (simp add: u_def)
  have "pushed m hi (frame_words n e c) d = pushed m hi (frame_words n e c) u" by (rule pushed_cong) (simp_all add: d)
  then show "pushed m hi (frame_words n e c) d" using u(1) by blast
  show "gpr d RDI = stack_ptr d" "gs_base d = kernel_gs_base c" "kernel_gs_base d = gs_base c"
    using u(2,3) by (simp_all add: d)
  have "bit (0x400 :: u64) i \<longleftrightarrow> i = 10" for i
    by (auto simp: bit_exp_iff [of 10, simplified])
  then show "\<not> bit (flags d) 9" "\<not> bit (flags d) 10" using u(4) by (simp_all add: d bit_simps)
qed

lemma pushed_none: "pushed (ram c) (stack_ptr c) [] c"
  by (simp add: pushed_def words_def)

text \<open>The state after delivery and the pushes of a stub's first instructions.\<close>

definition delivered :: "u64 option \<Rightarrow> u64 \<Rightarrow> nat \<Rightarrow> cpu \<Rightarrow> cpu" where
  "delivered err stub n c =
     exec_all (\<lambda>_ c. c) ([Cli] @ (if err = None then [Push_byte 0] else []) @ [Push_byte (of_nat n)]) (deliver err stub c)"

lemma scast_vector: "n < 48 \<Longrightarrow> (scast (of_nat n :: u8) :: u64) = of_nat n"
  by (simp add: signed_of_nat signed_take_bit_int_eq_self)

lemma delivered_entered:
  assumes "n < 48"
  shows "entered (ram c) (stack_ptr c AND NOT 15) (of_nat n) (case err of Some e \<Rightarrow> e | None \<Rightarrow> 0) c (delivered err stub n c)"
proof -
  let ?hi = "stack_ptr c AND NOT 15" and ?n = "of_nat n :: u64" and ?e = "case err of Some e \<Rightarrow> e | None \<Rightarrow> 0"
  let ?c = "c\<lparr>stack_ptr := ?hi\<rparr>"
  define d where "d = push ?n (push ?e (push (instr_ptr c) (push (code_seg c) (push (flags c)
    (push (stack_ptr c) (push (stack_seg c) ?c))))))"
  have "pushed (ram c) ?hi [] ?c" using pushed_none [of ?c] by simp
  then have p: "pushed (ram c) ?hi [?n, ?e, instr_ptr c, code_seg c, flags c, stack_ptr c, stack_seg c] d"
    unfolding d_def by (intro pushed_push) simp_all
  note defs = delivered_def deliver_def d_def Let_def scast_vector [OF assms]
  have "ram (delivered err stub n c) = ram d" by (cases err) (simp_all add: defs)
  moreover have "stack_ptr (delivered err stub n c) = stack_ptr d" by (cases err) (simp_all add: defs)
  moreover have
    "gpr (delivered err stub n c) = gpr c" "gs_base (delivered err stub n c) = gs_base c"
    "kernel_gs_base (delivered err stub n c) = kernel_gs_base c" by (cases err; simp add: defs)+
  moreover have "flags (delivered err stub n c) = (flags c AND NOT 0x14300) AND NOT 0x200"
    by (cases err) (simp_all add: defs)
  moreover note e = calculation
  moreover have "bit (0x200 :: u64) 9" by simp
  ultimately show ?thesis using p unfolding entered_def pushed_cong [OF e(1,2)] by (simp add: bit_simps)
qed

text \<open>Every stub is an entry, the call of its dispatcher, and a way back.\<close>

lemma stub_runs:
  assumes "n < 48" "err \<noteq> None \<longleftrightarrow> n \<in> set err_vectors" "returns_frame f"
  shows "\<exists>entry leave d g. vector_stub n = entry @ Call g # leave \<and> (\<forall>i \<in> set (entry @ leave). \<forall>h. i \<noteq> Call h) \<and> g = (if n < 32 then Isr_handler else Irq_handler) \<and> d = exec_all f entry (deliver err stub c) \<and>
    read_regs (ram d) (gpr d RDI) = regs_of (of_nat n) (case err of Some e \<Rightarrow> e | None \<Rightarrow> 0) c \<and>
    gpr d RDI = (stack_ptr c AND NOT 15) - 176 \<and> (\<forall>x. \<not> in_range (gpr d RDI) 176 x \<longrightarrow> ram d x = ram c x) \<and>
    \<not> bit (flags d) 9 \<and> \<not> bit (flags d) 10 \<and> gs_base d = kernel_gs_base c \<and>
    exec_all f (vector_stub n) (deliver err stub c) = c\<lparr>ram := ram (f g d)\<rparr>"
proof -
  let ?start = "[Cli] @ (if err = None then [Push_byte 0] else []) @ [Push_byte (of_nat n)]"
    and ?leave = "[Mov_rsp_rax] @ restore_all @ [Swapgs, Add_rsp 16, Iretq]"
    and ?g = "if n < 32 then Isr_handler else Irq_handler" and ?n = "of_nat n" and ?e = "case err of Some e \<Rightarrow> e | None \<Rightarrow> 0"
  let ?in = "[Swapgs] @ save_all @ [Cld, Mov_rdi_rsp]"
  let ?d = "exec_all f ?in (delivered err stub n c)"
  have stub: "vector_stub n = (?start @ ?in) @ Call ?g # ?leave"
  proof -
    have "n < 32" if "n \<in> set err_vectors" using that by (auto simp: err_vectors_def)
    then show ?thesis
      using assms(2) by (auto simp: vector_stub_def IRQ_def ISR_ERR_def ISR_NOERR_def isr_common_def irq_common_def)
  qed
  have "exec_all f ?start (deliver err stub c) = delivered err stub n c" by (simp add: delivered_def)
  then have d: "exec_all f (?start @ ?in) (deliver err stub c) = ?d" by (simp only: exec_all_simps(3))
  note en = enters [OF delivered_entered [OF assms(1), of c err stub], of f]
  have p: "pushed (ram c) (stack_ptr c AND NOT 15) (frame_words ?n ?e c) ?d" "gpr ?d RDI = stack_ptr ?d"
    "gs_base ?d = kernel_gs_base c" "kernel_gs_base ?d = gs_base c" "\<not> bit (flags ?d) 9" "\<not> bit (flags ?d) 10"
    using en by blast+
  note w = pushed_frame [OF p(1), folded p(2)]
  have "exec_all f (vector_stub n) (deliver err stub c) = exec_all f ?leave (f ?g ?d)"
    unfolding stub exec_call d ..
  also have "\<dots> = c\<lparr>ram := ram (f ?g ?d)\<rparr>" by (rule leaves [OF assms(3) w(1) p(3,4)])
  finally have out: "exec_all f (vector_stub n) (deliver err stub c) = c\<lparr>ram := ram (f ?g ?d)\<rparr>" .
  have "\<forall>i \<in> set ((?start @ ?in) @ ?leave). \<forall>h. i \<noteq> Call h" by (auto simp: saves_and_restores)
  with stub show ?thesis
    using d [symmetric] frame_loads [OF w(1)] w(2,3) p(5,6,3) out
    by (intro exI [of _ "?start @ ?in"] exI [of _ ?leave] exI [of _ ?d] exI [of _ ?g] conjI)
      (assumption | rule allI impI refl)+
qed

section \<open>Properties\<close>

text \<open>
  C15: An interrupt is transparent.  For each of the 48 vectors, when the processor pushes an error code
  exactly for the exceptions whose stub expects one, the stub calls its dispatcher with a pointer to
  a frame that holds the vector, the error code or 0, and every register of the interrupted
  program, with interrupts off and the direction flag clear, having written nothing but the frame;
  and if that function returns the pointer and leaves the frame alone, the program goes on with every
  register, flag and segment base as it was.
\<close>

theorem interrupt_transparent:
  assumes "n < 48" "err \<noteq> None \<longleftrightarrow> n \<in> set err_vectors" "returns_frame f"
  shows "\<exists>entry leave d g. vector_stub n = entry @ Call g # leave \<and> g = (if n < 32 then Isr_handler else Irq_handler) \<and> d = exec_all f entry (deliver err stub c) \<and>
    read_regs (ram d) (gpr d RDI) = regs_of (of_nat n) (case err of Some e \<Rightarrow> e | None \<Rightarrow> 0) c \<and>
    gpr d RDI = (stack_ptr c AND NOT 15) - 176 \<and> (\<forall>x. \<not> in_range (gpr d RDI) 176 x \<longrightarrow> ram d x = ram c x) \<and>
    \<not> bit (flags d) 9 \<and> \<not> bit (flags d) 10 \<and> gs_base d = kernel_gs_base c \<and>
    exec_all f (vector_stub n) (deliver err stub c) = c\<lparr>ram := ram (f g d)\<rparr>"
  using stub_runs [OF assms, of stub c] by blast

text \<open>A keyboard interrupt in a program, with a dispatcher that only returns its argument.\<close>

definition sample_cpu :: cpu where
  "sample_cpu = \<lparr>gpr = (\<lambda>r. if r = RBX then 7 else 0), stack_ptr = 0x9008, instr_ptr = 0x100000, code_seg = 8,
     stack_seg = 16, flags = 0x202, gs_base = 1, kernel_gs_base = 2, ram = \<lambda>_. 0\<rparr>"

theorem interrupt_transparent_witness:
  "let c = exec_all (\<lambda>g c. c\<lparr>gpr := (gpr c)(RAX := gpr c RDI)\<rparr>) (vector_stub 33) (deliver None 0x2000 sample_cpu)
   in gpr c RBX = 7 \<and> stack_ptr c = 0x9008 \<and> instr_ptr c = 0x100000 \<and> flags c = 0x202"
proof -
  let ?f = "\<lambda>g c. c\<lparr>gpr := (gpr c)(RAX := gpr c RDI)\<rparr>"
  have "returns_frame ?f" by (simp add: returns_frame_def)
  moreover have "33 \<notin> set err_vectors" by (simp add: err_vectors_def)
  ultimately obtain m where "exec_all ?f (vector_stub 33) (deliver None 0x2000 sample_cpu) = sample_cpu\<lparr>ram := m\<rparr>"
    using interrupt_transparent [of 33 None ?f "0x2000" sample_cpu] by auto
  then show ?thesis by (simp add: sample_cpu_def)
qed

end

