(* ===== verification/Interrupt_Path.thy ===== *)
theory Interrupt_Path
  imports Interleaving Irq_Entry Typing Descriptors
begin

text \<open>
  The whole path of an interrupt in the running kernel: the gate that \<open>idt_init\<close> has put into the table,
  the stub of \<^verbatim>\<open>irq.asm\<close> behind it, the dispatcher of \<^verbatim>\<open>idt.c\<close> that the stub calls with the frame it has
  pushed, the registered handler, and the way back.  A configuration is the interrupted processor of
  \<open>Irq_Entry\<close> and the kernel's state.
\<close>

section \<open>Running a stub in the kernel\<close>

text \<open>
  The addresses of the 48 stubs, and the code at an address.  A C function returns its result in \<open>rax\<close>;
  what else it does to the processor is the parameter \<open>clob\<close>.
\<close>

definition stub_address :: "boot_env \<Rightarrow> nat \<Rightarrow> u64" where
  "stub_address E n = (if n < 32 then isr_stubs E n else irq_stubs E (n - 32))"

definition code_at :: "boot_env \<Rightarrow> u64 \<Rightarrow> instr list option" where
  "code_at E a = map_option vector_stub (find (\<lambda>n. stub_address E n = a) [0..<48])"

definition c_call :: "(cpu \<Rightarrow> cpu) \<Rightarrow> cpu \<Rightarrow> cpu" where
  "c_call clob c = (clob c)\<lparr>gpr := (gpr (clob c))(RAX := gpr c RDI)\<rparr>"

fun dispatch :: "dispatcher \<Rightarrow> device \<Rightarrow> u64 \<Rightarrow> regs \<Rightarrow> kheap \<Rightarrow> (regs \<times> kheap) result" where
  "dispatch Isr_handler = isr_handler"
| "dispatch Irq_handler = irq_handler"

text \<open>The call of a dispatcher works on the kernel's state, any other instruction on the processor.\<close>

fun exec_in_kernel :: "device \<Rightarrow> u64 \<Rightarrow> (cpu \<Rightarrow> cpu) \<Rightarrow> instr \<Rightarrow> cpu \<times> kheap \<Rightarrow> (cpu \<times> kheap) result" where
  "exec_in_kernel dev cr2 clob (Call g) (c, s) =
     rbind (dispatch g dev cr2 (read_regs (ram c) (gpr c RDI)) s) (\<lambda>(_, t). Inr (c_call clob c, t))"
| "exec_in_kernel dev cr2 clob i (c, s) = Inr (exec (\<lambda>_. c_call clob) i c, s)"

primrec run_code :: "device \<Rightarrow> u64 \<Rightarrow> (cpu \<Rightarrow> cpu) \<Rightarrow> instr list \<Rightarrow> cpu \<times> kheap \<Rightarrow> (cpu \<times> kheap) result" where
  "run_code dev cr2 clob [] x = Inr x"
| "run_code dev cr2 clob (i # p) x = rbind (exec_in_kernel dev cr2 clob i x) (run_code dev cr2 clob p)"

text \<open>
  The processor takes an interrupt through the gate of its vector; there is no result if that is not
  an interrupt gate, or does not lead to a stub.
\<close>

definition take_interrupt :: "device \<Rightarrow> u64 \<Rightarrow> (cpu \<Rightarrow> cpu) \<Rightarrow> boot_env \<Rightarrow> nat \<Rightarrow> u64 option \<Rightarrow> cpu \<times> kheap \<Rightarrow>
    (cpu \<times> kheap) result option" where
  "take_interrupt dev cr2 clob E n err = (\<lambda>(c, s).
     (let e = IDT s (of_nat n)
      in if interrupt_gate e \<and> selected (selector e) \<noteq> None then
           map_option (\<lambda>p. run_code dev cr2 clob p (deliver err (gate_offset e) c, s)) (code_at E (gate_offset e))
         else None))"

lemma run_code_append: "run_code dev cr2 clob (p @ q) x = rbind (run_code dev cr2 clob p x) (run_code dev cr2 clob q)"
proof (induction p arbitrary: x)
  case (Cons i p)
  then have "run_code dev cr2 clob (p @ q) = (\<lambda>x. rbind (run_code dev cr2 clob p x) (run_code dev cr2 clob q))" by blast
  then show ?case by (simp add: rbind_assoc)
qed simp

lemma run_code_straight:
  "\<forall>i \<in> set p. \<forall>g. i \<noteq> Call g \<Longrightarrow> run_code dev cr2 clob p (c, s) = Inr (exec_all (\<lambda>_. c_call clob) p c, s)"
proof (induction p arbitrary: c)
  case (Cons i p)
  then show ?case by (cases i) simp_all
qed simp

text \<open>A stub as a whole.\<close>

lemma run_stub:
  assumes "n < 48" "err \<noteq> None \<longleftrightarrow> n \<in> set err_vectors" "returns_frame (\<lambda>_. c_call clob)"
  shows "\<exists>m. run_code dev cr2 clob (vector_stub n) (deliver err a c, s) =
    rbind (dispatch (if n < 32 then Isr_handler else Irq_handler) dev cr2
        (regs_of (of_nat n) (case err of Some e \<Rightarrow> e | None \<Rightarrow> 0) c) s) (\<lambda>(_, t). Inr (c\<lparr>ram := m\<rparr>, t))"
proof -
  let ?f = "\<lambda>_. c_call clob" and ?r = "regs_of (of_nat n) (case err of Some e \<Rightarrow> e | None \<Rightarrow> 0) c"
  obtain entry leave d g where p: "vector_stub n = entry @ Call g # leave" "\<forall>i \<in> set (entry @ leave). \<forall>h. i \<noteq> Call h"
    and g: "g = (if n < 32 then Isr_handler else Irq_handler)" and d: "d = exec_all ?f entry (deliver err a c)"
    and r: "read_regs (ram d) (gpr d RDI) = ?r"
    and out: "exec_all ?f (vector_stub n) (deliver err a c) = c\<lparr>ram := ram (c_call clob d)\<rparr>"
    using stub_runs [OF assms, of a c] by blast
  have "run_code dev cr2 clob entry (deliver err a c, s) = Inr (d, s)"
    unfolding d using p(2) by (intro run_code_straight) simp
  moreover have "run_code dev cr2 clob leave (c_call clob d, t) = Inr (c\<lparr>ram := ram (c_call clob d)\<rparr>, t)" for t
  proof -
    have "exec_all ?f leave (c_call clob d) = c\<lparr>ram := ram (c_call clob d)\<rparr>"
      using out by (simp add: p(1) d)
    then show ?thesis using p(2) by (subst run_code_straight) simp_all
  qed
  ultimately have "run_code dev cr2 clob (vector_stub n) (deliver err a c, s) =
      rbind (dispatch g dev cr2 ?r s) (\<lambda>(_, t). Inr (c\<lparr>ram := ram (c_call clob d)\<rparr>, t))"
    by (cases "dispatch g dev cr2 ?r s") (auto simp: p(1) run_code_append r)
  then show ?thesis unfolding g by blast
qed

section \<open>The gates of a running kernel\<close>

definition gates_set :: "boot_env \<Rightarrow> 'a interrupts_scheme \<Rightarrow> bool" where
  "gates_set E s \<longleftrightarrow> (\<forall>n < 48. kernel_gate (stub_address E n) (IDT s (of_nat n)))"

lemma gates_set_same: "IDT t = IDT s \<Longrightarrow> gates_set E t = gates_set E s"
  by (simp add: gates_set_def)

lemma idt_init_sets_gates: "gates_set E (idt_init (isr_stubs E) (irq_stubs E) a s)"
  unfolding gates_set_def
proof (intro allI impI)
  fix n :: nat assume n: "n < 48"
  then have "n < 256" by simp
  from idt_gates(1,2) [OF this, where isr_stub = "isr_stubs E" and irq_stub = "irq_stubs E" and a = a and s = s]
  show "kernel_gate (stub_address E n) (IDT (idt_init (isr_stubs E) (irq_stubs E) a s) (of_nat n))"
    using n by (simp add: stub_address_def)
qed

lemma bring_up_gates:
  fixes s :: "'a kheap_scheme"
  assumes "kmain_bring_up dev E mbi s = Inr t"
  shows "gates_set E t"
proof -
  let ?u = "idt_init (isr_stubs E) (irq_stubs E) (idt_at E) (vga_terminal_initialize s)"
  obtain mem v w where v: "mmu_init (page_tables E) (kernel_end_param E) mem (load64 (vmem ?u) (kernel_end_at E)) ?u = Inr v"
    and w: "pit_init v = Inr w" and t: "ps2_init dev w = Inr t"
    using assms by (auto simp: kmain_bring_up_def Let_def)
  have "IDT w = IDT v" using w pit_init_frame [of v] by auto
  then have "IDT t = IDT ?u" using ps2_init_frame(3) [OF t] mmu_init_frame(3) [OF v] by simp
  then show ?thesis using gates_set_same idt_init_sets_gates by blast
qed

lemma exec_stmt_IDT:
  fixes s :: "'a kheap_scheme"
  assumes "exec_stmt dev st s = Inr (sts, t)" "\<And>fmt args. st = Printk fmt args \<Longrightarrow> args_ok args"
  shows "IDT t = IDT s"
proof (cases st)
  case (Printk fmt args)
  then obtain u where "printk fmt args s = Inr u" "t = u" using assms(1) by auto
  from beyond_kbd_printk [OF this(1)] assms(2) Printk this(2) show ?thesis by (simp add: beyond_kbd_def)
next
  case Port_off
  then have "only_trace s t" using assms(1) by (auto simp: ps2_port1_disable_def)
  then show ?thesis by (rule only_trace_interrupts(2))
next
  case Port_on
  then have "only_trace s t" using assms(1) by (auto simp: ps2_port1_enable_def)
  then show ?thesis by (rule only_trace_interrupts(2))
next
  case Send
  then have "only_trace s t" using assms(1) by (auto simp: ps2_port1_write_def)
  then show ?thesis by (rule only_trace_interrupts(2))
qed (use assms(1) in \<open>auto split: if_splits\<close>)

lemma run_handler_IDT:
  fixes s :: "'a kheap_scheme"
  shows "run_handler dev cr2 h r s = Inr t \<Longrightarrow> IDT t = IDT s"
  by (cases h) (auto simp: pit_interrupt_def page_fault_handler_halts beyond_kbd_def dest: kbd_int_handler_beyond)

lemma irq_handler_IDT:
  fixes s :: "'a kheap_scheme"
  assumes "irq_handler dev cr2 r s = Inr (r', t)" shows "IDT t = IDT s"
proof -
  obtain u where u: "call_handler dev cr2 r s = Inr u" "t = irq_ack (ucast (int_no r - 32)) u"
    using assms by (auto simp: irq_handler_def)
  have "IDT u = IDT s"
    using u(1) run_handler_IDT by (auto simp: call_handler_def split: if_splits option.splits)
  then show ?thesis using u(2) only_trace_interrupts(2) [OF irq_ack_trace] by metis
qed

text \<open>The statements left of the main program print only what \<open>kmain\<close> prints.\<close>

lemma main_inv_args:
  assumes "main_inv (st # p, s)" "st = Printk fmt args" shows "args_ok args"
proof -
  have "Printk fmt args \<notin> set m" if "mid m s" for m s using that by cases (auto simp: adding_def)
  then have "Printk fmt args \<in> set kmain_end_stmts"
    using assms by (fastforce simp: main_inv_def at_rest_def at_work_def Cons_eq_append_conv)
  then show ?thesis by (auto simp: kmain_end_stmts_def)
qed

lemma running_gates: "running dev E c \<Longrightarrow> gates_set E (snd c)"
proof (induction rule: running.induct)
  case (up s mb_info_addr t)
  then show ?case using bring_up_gates by simp
next
  case (main c c')
  from main(2) obtain st p s sts t where c: "c = (st # p, s)" "exec_stmt dev st s = Inr (sts, t)" "c' = (sts @ p, t)"
    by cases
  have "main_inv (st # p, s)" using running_inv [OF main(1)] c(1) by simp
  then have "IDT t = IDT s" using exec_stmt_IDT [OF c(2)] main_inv_args by blast
  then show ?case using main(3) c by (simp add: gates_set_def)
next
  case (irq c c')
  from irq(2) obtain p s r cr2 r' t where "c = (p, s)" "c' = (p, t)" "irq_handler dev cr2 r s = Inr (r', t)" by cases
  then show ?case using irq(3) gates_set_same irq_handler_IDT by fastforce
qed

section \<open>Taking interrupts\<close>

lemma code_at_stub:
  assumes "inj_on (stub_address E) {..<48}" "n < 48"
  shows "code_at E (stub_address E n) = Some (vector_stub n)"
proof -
  have "find (\<lambda>m. stub_address E m = stub_address E n) [0..<48] = Some n"
    unfolding find_Some_iff using assms by (intro exI [of _ n]) (auto dest: inj_onD)
  then show ?thesis by (simp add: code_at_def)
qed

lemma kernel_code_selected: "selected 0x08 \<noteq> None"
  by (simp add: selected_def selector_ti_def selector_idx_def GDT_def GDTR_size_def access_present_def GDT_ENTRY_def)

lemma take_interrupt_stub:
  assumes "gates_set E s" "inj_on (stub_address E) {..<48}" "n < 48"
  shows "take_interrupt dev cr2 clob E n err (c, s) =
    Some (run_code dev cr2 clob (vector_stub n) (deliver err (stub_address E n) c, s))"
proof -
  have "kernel_gate (stub_address E n) (IDT s (of_nat n))" using assms(1,3) by (simp add: gates_set_def)
  from kernel_gate_interrupt [OF this] show ?thesis
    using code_at_stub [OF assms(2,3)] kernel_code_selected by (simp add: take_interrupt_def)
qed

text \<open>Several interrupts of one vector, one behind the other.\<close>

primrec take_interrupts :: "device \<Rightarrow> u64 \<Rightarrow> (cpu \<Rightarrow> cpu) \<Rightarrow> boot_env \<Rightarrow> nat \<Rightarrow> nat \<Rightarrow> cpu \<times> kheap \<Rightarrow>
    (cpu \<times> kheap) result option" where
  "take_interrupts dev cr2 clob E n 0 x = Some (Inr x)"
| "take_interrupts dev cr2 clob E n (Suc k) x =
     (case take_interrupt dev cr2 clob E n None x of
        None \<Rightarrow> None
      | Some (Inl e) \<Rightarrow> Some (Inl e)
      | Some (Inr y) \<Rightarrow> take_interrupts dev cr2 clob E n k y)"

lemma regs_of_ram [simp]: "regs_of n e (c\<lparr>ram := m\<rparr>) = regs_of n e c"
  by (simp add: regs_of_def)

lemma take_interrupts_sequence:
  assumes "inj_on (stub_address E) {..<48}" "returns_frame (\<lambda>_. c_call clob)" "32 \<le> n" "n < 48"
    and "gates_set E s" "irq_sequence dev cr2 (replicate k (regs_of (of_nat n) 0 c)) s = Inr t"
  shows "\<exists>m. take_interrupts dev cr2 clob E n k (c, s) = Some (Inr (c\<lparr>ram := m\<rparr>, t))"
  using assms(5,6)
proof (induction k arbitrary: c s)
  case 0
  then show ?case by (auto intro!: exI [of _ "ram c"])
next
  case (Suc k)
  let ?r = "regs_of (of_nat n) 0 c"
  obtain r' u where u: "irq_handler dev cr2 ?r s = Inr (r', u)" "irq_sequence dev cr2 (replicate k ?r) u = Inr t"
    using Suc.prems(2) by auto
  have "None \<noteq> (None :: u64 option) \<longleftrightarrow> n \<in> set err_vectors" using assms(3) by (auto simp: err_vectors_def)
  from run_stub [OF assms(4) this assms(2), of dev cr2 "stub_address E n" c s]
  obtain m where "run_code dev cr2 clob (vector_stub n) (deliver None (stub_address E n) c, s) = Inr (c\<lparr>ram := m\<rparr>, u)"
    using u(1) assms(3) by auto
  then have "take_interrupt dev cr2 clob E n None (c, s) = Some (Inr (c\<lparr>ram := m\<rparr>, u))"
    using take_interrupt_stub [OF Suc.prems(1) assms(1,4)] by simp
  moreover have "gates_set E u" using gates_set_same irq_handler_IDT [OF u(1)] Suc.prems(1) by blast
  ultimately show ?case using Suc.IH [of u "c\<lparr>ram := m\<rparr>"] u(2) by simp
qed

section \<open>A kernel that has just come up\<close>

lemma ps2_init_installs:
  assumes "ps2_init dev s = Inr t" "\<And>h. dev h DATA_PORT = 0x55"
  shows "irq_handlers t = (irq_handlers s)(KBD_IRQ \<mapsto> Kbd_int_handler)"
proof -
  let ?name = "fold (\<lambda>i. ps2_command_arg dev (0x61 + of_nat i) (nuid64_str ! i)) [0..<6]"
  obtain config response s4 h1 h2 where init: "ps2_init dev s = (if response \<noteq> 0x55
       then printk (''ps2: controller self-test failed'' @ [CHR 0x0A]) [] s4
       else ps2_start dev (ps2_command dev COMMAND_PORT1_ENABLE (?name s4)))" and s4: "only_trace s s4"
    "outs (hw_trace s4) = outs (hw_trace s) @ setup_writes (new_config config)" "config = dev h1 DATA_PORT"
    "outs h1 = outs (hw_trace s) @ [(0x64, 0xAD), (0x64, 0xA7), (0x64, 0x20)]" "response = dev h2 DATA_PORT"
    "outs h2 = outs (hw_trace s) @ setup_writes (new_config config)" "hw_trace s4 = h2 @ [In DATA_PORT response]"
    by (rule ps2_init_setup)
  have "only_trace s (ps2_command dev COMMAND_PORT1_ENABLE (?name s4))"
    by (rule only_trace_trans [OF s4(1) only_trace_trans [OF fold_command_args(1) ps2_only_trace(2)]])
  then show ?thesis
    using assms(1) init s4(5) assms(2) [of h2] ps2_start_frame(2) [of dev _ t] only_trace_interrupts(1) by fastforce
qed

lemma bring_up_ready:
  fixes s :: "'a kheap_scheme"
  assumes "kmain_bring_up dev E mbi s = Inr t" "between_keys s" "irq_handlers s = (\<lambda>_. None)"
    and "\<And>h. dev h DATA_PORT = 0x55"
  shows "between_keys t" "irq_handlers t = boot_handlers True"
proof -
  let ?u = "idt_init (isr_stubs E) (irq_stubs E) (idt_at E) (vga_terminal_initialize s)"
  obtain mem v w where v: "mmu_init (page_tables E) (kernel_end_param E) mem (load64 (vmem ?u) (kernel_end_at E)) ?u = Inr v"
    and w: "pit_init v = Inr w" and t: "ps2_init dev w = Inr t"
    using assms(1) by (auto simp: kmain_bring_up_def Let_def)
  have pw: "interrupts.more w = interrupts.more v" "irq_handlers w = (irq_handlers v)(TIMER_IRQ \<mapsto> Pit_interrupt)"
    using w pit_init_frame [of v] by auto
  show "between_keys t"
    using past_interrupts(3) [OF ps2_init_frame(1) [OF t]] past_interrupts(3) [OF pw(1)] mmu_init_frame(4) [OF v]
      bring_up(4) [of E s] assms(2) by simp
  show "irq_handlers t = boot_handlers True"
    using ps2_init_installs [OF t assms(4)] pw(2) mmu_init_frame(2) [OF v] bring_up(3) [of E s] assms(3)
    by (simp add: boot_handlers_def fun_upd_twist)
qed

text \<open>The sample kernel behind \<open>sti\<close>, before its first command.\<close>

lemma sample_running:
  obtains s where "running sample_device sample_env (tl kmain_end_stmts, s)" "between_keys s"
    "irq_handlers s = boot_handlers True"
proof -
  obtain t s where "kmain sample_device sample_env 992 MULTIBOOT2_BOOTLOADER_MAGIC sample_machine = Inr (Spinning, t)"
    and s: "kmain_bring_up sample_device sample_env 992 sample_machine = Inr s"
    using sample_machine_boots kmain_is_bring_up by (metis rbind_eq_Inr)
  have "running sample_device sample_env (Do_sti # tl kmain_end_stmts, s)"
    using running.up [OF sample_machine_fields(3,4) s] by (simp add: kmain_end_stmts_def)
  from running.main [OF this main_step.intros]
  have r: "running sample_device sample_env (tl kmain_end_stmts, log_event Sti s)" by fastforce
  have "between_keys sample_machine"
    by (simp add: kbd_state_defs sample_machine_def sample_heap_def sample_mmu_def sample_palloc_def mmu.defs palloc.defs
        kbd.defs kbd_init_def boot_interrupts_def interrupts.defs)
  from bring_up_ready [OF s this sample_machine_fields(4)]
  have "between_keys s" "irq_handlers s = boot_handlers True" by (simp_all add: sample_device_def)
  then show thesis using that [OF r] by (simp add: log_event_def between_keys_def decoder_idle_def)
qed

lemma sample_stubs: "inj_on (stub_address sample_env) {..<48}"
proof (rule inj_onI)
  fix n m assume n: "n \<in> {..<48}" "m \<in> {..<48}" "stub_address sample_env n = stub_address sample_env m"
  have u: "unat (stub_address sample_env k) = (if k < 32 then 0x100000 + 16 * k else 0x200000 + 16 * (k - 32))" if "k < 48" for k
    using that by (simp add: stub_address_def sample_env_def unat_word_ariths unat_of_nat take_bit_nat_eq_self) arith
  have "unat (stub_address sample_env n) = unat (stub_address sample_env m)" using n(3) by (rule arg_cong)
  then show "n = m" using n(1,2) u [of n] u [of m] by (auto split: if_splits)
qed

section \<open>Properties\<close>

text \<open>
  C12: An interrupt in the running kernel takes the whole path, whatever \<open>kmain\<close> was doing.  For each of
  the 48 vectors the gate leads through its stub to the dispatcher, which sees the registers of the
  interrupted program; what it does to the kernel's state is all that happens, and if it does not stop
  the kernel, the program goes on with every register as it was.
\<close>

theorem interrupt_reaches_handler:
  assumes "running dev E (p, s)" "inj_on (stub_address E) {..<48}" "returns_frame (\<lambda>_. c_call clob)"
    and "n < 48" "err \<noteq> None \<longleftrightarrow> n \<in> set err_vectors"
  shows "\<exists>m. take_interrupt dev cr2 clob E n err (c, s) =
    Some (rbind ((if n < 32 then isr_handler else irq_handler) dev cr2
        (regs_of (of_nat n) (case err of Some e \<Rightarrow> e | None \<Rightarrow> 0) c) s) (\<lambda>(_, t). Inr (c\<lparr>ram := m\<rparr>, t)))"
proof -
  have "gates_set E s" using running_gates [OF assms(1)] by simp
  from take_interrupt_stub [OF this assms(2,4)] show ?thesis
    using run_stub [OF assms(4,5,3), of dev cr2 "stub_address E n" c s] by (cases "n < 32") simp_all
qed

text \<open>The timer interrupts the sample kernel.\<close>

theorem interrupt_reaches_handler_witness:
  "\<exists>s m. running sample_device sample_env (tl kmain_end_stmts, s) \<and>
     take_interrupt sample_device 0 id sample_env 32 None (sample_cpu, s) =
       Some (Inr (sample_cpu\<lparr>ram := m\<rparr>, irq_ack 0 s))"
proof -
  obtain s where s: "running sample_device sample_env (tl kmain_end_stmts, s)" "irq_handlers s = boot_handlers True"
    using sample_running by blast
  let ?r = "regs_of 32 0 sample_cpu"
  have f: "returns_frame (\<lambda>_. c_call id)" by (simp add: returns_frame_def c_call_def)
  have "\<exists>m. take_interrupt sample_device 0 id sample_env 32 None (sample_cpu, s) =
      Some (rbind (irq_handler sample_device 0 ?r s) (\<lambda>(_, t). Inr (sample_cpu\<lparr>ram := m\<rparr>, t)))"
    using interrupt_reaches_handler [OF s(1) sample_stubs f, of 32 None 0 sample_cpu] by (simp add: err_vectors_def)
  moreover have "irq_handler sample_device 0 ?r s = Inr (?r, irq_ack 0 s)"
    using call_boot_handler [OF s(2), of ?r sample_device 0] by (simp add: irq_handler_def regs_of_def)
  ultimately show ?thesis using s(1) by auto
qed

text \<open>
  C3: Typing works from the interrupt line to the screen without the running program noticing.  In a
  running kernel whose keyboard driver has no command pending and whose decoder is between
  keystrokes, the keyboard interrupts that deliver the scan codes of any presses and releases inside
  the tables put exactly the characters of the pressed keys on the terminal, in order, and write nothing
  to a device but one acknowledgement each; the interrupted program goes on with every register as it
  was.
\<close>

theorem typing_reaches_screen:
  assumes "running dev E (p, s)" "inj_on (stub_address E) {..<48}" "returns_frame (\<lambda>_. c_call clob)"
    and "irq_handlers s = boot_handlers True" "driver_state s = STATE_READY" "decoder_idle s"
    and "\<forall>k \<in> set ks. scan_ok k" "delivers dev (hw_trace s) (concat (map scan_bytes ks))"
  shows "\<exists>m t. take_interrupts dev cr2 clob E 33 (length (concat (map scan_bytes ks))) (c, s) = Some (Inr (c\<lparr>ram := m\<rparr>, t)) \<and>
    decoder_idle t \<and> driver_state t = STATE_READY \<and>
    vga.truncate t = fold vga_putchar (concat (map scan_text ks)) (vga.truncate s) \<and>
    outs (hw_trace t) = outs (hw_trace s) @ replicate (length (concat (map scan_bytes ks))) (PIC1_COMMAND, PIC_EOI)"
proof -
  let ?k = "length (concat (map scan_bytes ks))" and ?r = "regs_of (of_nat 33) 0 c"
  have "\<forall>r \<in> set (replicate ?k ?r). int_no r = 33" "length (replicate ?k ?r) = ?k" by (simp_all add: regs_of_def)
  from keystrokes_reach_screen [OF assms(4-8) this(2,1), of cr2]
  obtain t where t: "irq_sequence dev cr2 (replicate ?k ?r) s = Inr t" "decoder_idle t" "driver_state t = STATE_READY"
    "vga.truncate t = fold vga_putchar (concat (map scan_text ks)) (vga.truncate s)"
    "outs (hw_trace t) = outs (hw_trace s) @ replicate ?k (PIC1_COMMAND, PIC_EOI)" by auto
  have "gates_set E s" using running_gates [OF assms(1)] by simp
  then show ?thesis
    using take_interrupts_sequence [OF assms(2,3) _ _ _ t(1)] t(2-5) by auto
qed

text \<open>A keyboard that sends 0x55, the key with the equals sign, to the sample kernel.\<close>

theorem typing_reaches_screen_witness:
  "\<exists>s m t. running sample_device sample_env (tl kmain_end_stmts, s) \<and>
     take_interrupts sample_device 0 id sample_env 33 1 (sample_cpu, s) = Some (Inr (sample_cpu\<lparr>ram := m\<rparr>, t)) \<and>
     vga.truncate t = vga_putchar (of_char (CHR ''='')) (vga.truncate s)"
proof -
  obtain s where s: "running sample_device sample_env (tl kmain_end_stmts, s)" "between_keys s"
    "irq_handlers s = boot_handlers True" using sample_running by blast
  have f: "returns_frame (\<lambda>_. c_call id)" by (simp add: returns_frame_def c_call_def)
  have idle: "driver_state s = STATE_READY" "decoder_idle s" using s(2) by (simp_all add: between_keys_def)
  have "scan_text (Make 0x55) = [of_char (CHR ''='')]"
    by (simp add: key_text_def scan2_norm_to_keycode_def keycode_to_char_def keycode_chars_def)
  moreover have "delivers sample_device h [0x55]" for h by (simp add: sample_device_def output_full_def)
  ultimately show ?thesis
    using typing_reaches_screen [OF s(1) sample_stubs f s(3) idle, of "[Make 0x55]" 0 sample_cpu] s(1) by auto
qed

end
