(* ===== verification/Boot_Screen.thy ===== *)
theory Boot_Screen
  imports Kernull_Prelude
begin

text \<open>
  Printing before long mode: \<^verbatim>\<open>src/arch/x86_64/boot/vga.asm\<close>, 32-bit code with 8- and 16-bit registers.
  The routines change only the low half of \<open>edx\<close>, and \<open>put_entry_at\<close> uses all of it as an address: its
  upper half, whatever the caller left there, is the parameter \<open>edx\<close> here.  Addresses are 32 bits wide.
\<close>

section \<open>State and cells\<close>

text \<open>
  The byte at the label \<open>column\<close> is loaded into \<open>dl\<close> and the byte at \<open>row\<close> into \<open>dh\<close>; the code uses
  \<open>dl\<close> as the row and \<open>dh\<close> as the column.  These two bytes and the one at \<open>color\<close> are fields of their own,
  outside the memory \<open>bmem\<close>: a string or a cell that overlaps them is not modelled.
\<close>

record boot_screen =
  bmem :: mem
  boot_color :: u8
  cursor_dl :: u8
  cursor_dh :: u8

abbreviation BOOT_VGA_WIDTH :: u8 where "BOOT_VGA_WIDTH \<equiv> 80"
abbreviation BOOT_VGA_HEIGHT :: u8 where "BOOT_VGA_HEIGHT \<equiv> 25"

definition set_low16 :: "u32 \<Rightarrow> u16 \<Rightarrow> u32" where
  "set_low16 r v = (r AND 0xFFFF0000) OR ucast v"

text \<open>\<open>mul dl\<close> leaves the 16-bit product in \<open>ax\<close>, of which \<open>al\<close> goes back to \<open>dl\<close>.\<close>

definition getidx :: "u8 \<Rightarrow> u8 \<Rightarrow> u16" where
  "getidx dl dh =
     (let dh = push_bit 1 dh;
          ax = ucast BOOT_VGA_WIDTH * ucast dl :: u16;
          dl = ucast ax;
          dl = push_bit 1 dl;
          dl = dl + dh
      in ucast dl)"

definition protected_vga_set_color :: "u8 \<Rightarrow> u8 \<Rightarrow> boot_screen \<Rightarrow> boot_screen" where
  "protected_vga_set_color dl dh s = s\<lparr>boot_color := push_bit 4 dl OR dh\<rparr>"

definition put_entry_at :: "u32 \<Rightarrow> u8 \<Rightarrow> u8 \<Rightarrow> u8 \<Rightarrow> boot_screen \<Rightarrow> boot_screen" where
  "put_entry_at edx al dl dh s =
     (let ebx = set_low16 edx (getidx dl dh);
          m = (bmem s)(ucast (0xB8000 + ebx) := al)
      in s\<lparr>bmem := m(ucast (0xB8001 + ebx) := boot_color s)\<rparr>)"

definition boot_putchar :: "u32 \<Rightarrow> u8 \<Rightarrow> boot_screen \<Rightarrow> boot_screen" where
  "boot_putchar edx al s =
     (let dl = cursor_dl s; dh = cursor_dh s
      in if al = 0x0A then s\<lparr>cursor_dl := dl, cursor_dh := 0\<rparr>
         else
           let s = put_entry_at edx al dl dh s;
               dh = dh + 1
           in if dh \<noteq> BOOT_VGA_WIDTH then s\<lparr>cursor_dl := dl, cursor_dh := dh\<rparr>
              else
                let dh = 0;
                    dl = dl + 1
                in if dl \<noteq> BOOT_VGA_HEIGHT then s\<lparr>cursor_dl := dl, cursor_dh := dh\<rparr>
                   else s\<lparr>cursor_dl := 0, cursor_dh := dh\<rparr>)"

lemma count_down: "(cx :: u16) \<noteq> 1 \<Longrightarrow> unat (cx - 2) < unat (cx - 1)"
proof -
  assume "cx \<noteq> 1"
  then have nz: "cx - 1 \<noteq> 0" by simp
  have "unat (cx - 1 - 1) = unat (cx - 1) - 1" by (rule unat_minus_one [OF nz])
  moreover have "0 < unat (cx - 1)" using nz by (simp only: unat_gt_0 not_False_eq_True)
  ultimately show "unat (cx - 2) < unat (cx - 1)" by simp
qed

text \<open>The loop tests its counter after decrementing it: a count of 0 stands for 65536.\<close>

function boot_write :: "u32 \<Rightarrow> u32 \<Rightarrow> u16 \<Rightarrow> boot_screen \<Rightarrow> boot_screen" where
  "boot_write edx esi cx s =
     (let s = boot_putchar edx (bmem s (ucast esi)) s;
          cx = cx - 1
      in if cx = 0 then s else boot_write edx (esi + 1) cx s)"
  by pat_completeness auto
termination
  by (relation "measure (\<lambda>(edx, esi, cx, s). unat (cx - 1))") (auto simp: count_down)

declare boot_write.simps [simp del]

partial_function (option) boot_strlen :: "mem \<Rightarrow> u32 \<Rightarrow> u32 \<Rightarrow> u32 option" where
  "boot_strlen m esi ecx =
     (if m (ucast esi) = 0 then Some ecx else boot_strlen m (esi + 1) (ecx + 1))"

definition protected_vga_print :: "u32 \<Rightarrow> u32 \<Rightarrow> boot_screen \<Rightarrow> boot_screen option" where
  "protected_vga_print edx esi s =
     (case boot_strlen (bmem s) esi 0 of
        None \<Rightarrow> None
      | Some ecx \<Rightarrow> Some (boot_write edx esi (ucast ecx) s))"

section \<open>Printing in the first row\<close>

text \<open>A string at a 32-bit address.\<close>

fun boot_string :: "mem \<Rightarrow> u32 \<Rightarrow> u8 list \<Rightarrow> bool" where
  "boot_string m a [] \<longleftrightarrow> m (ucast a) = 0"
| "boot_string m a (b # bs) \<longleftrightarrow> m (ucast a) = b \<and> b \<noteq> 0 \<and> boot_string m (a + 1) bs"

lemma boot_strlen_string: "boot_string m a bs \<Longrightarrow> boot_strlen m a n = Some (n + of_nat (length bs))"
  by (induction bs arbitrary: a n) (subst boot_strlen.simps, simp add: algebra_simps)+

text \<open>The start of the screen as \<open>put_entry_at\<close> addresses it, and its cells from an address on.\<close>

definition boot_base :: "u32 \<Rightarrow> u32" where
  "boot_base edx = 0xB8000 + (edx AND 0xFFFF0000)"

fun put_cells :: "u32 \<Rightarrow> u8 \<Rightarrow> u8 list \<Rightarrow> mem \<Rightarrow> mem" where
  "put_cells p c [] m = m"
| "put_cells p c (b # bs) m = put_cells (p + 2) c bs (m(ucast p := b, ucast (p + 1) := c))"

lemma ucast_32_inj: "(ucast (a :: u32) :: u64) = ucast b \<longleftrightarrow> a = b"
  by (metis unat_ucast_32_64 word_unat_eq_iff)

lemma unat_of_nat_32: "n < 2 ^ 32 \<Longrightarrow> unat (of_nat n :: u32) = n"
  by (simp add: unat_of_nat take_bit_nat_eq_self_iff)

lemma put_cells_below:
  assumes "\<forall>i < 2 * length bs. p + of_nat i \<noteq> a"
  shows "put_cells p c bs m (ucast a) = m (ucast a)"
  using assms
proof (induction bs arbitrary: p m)
  case (Cons b bs)
  have "p \<noteq> a" "p + 1 \<noteq> a" using Cons.prems [rule_format, of 0] Cons.prems [rule_format, of 1] by simp_all
  moreover have "\<forall>i < 2 * length bs. p + 2 + of_nat i \<noteq> a"
  proof (intro allI impI)
    fix i assume "i < 2 * length bs"
    then show "p + 2 + of_nat i \<noteq> a" using Cons.prems [rule_format, of "i + 2"] by (simp add: algebra_simps)
  qed
  ultimately show ?case using Cons.IH by (simp add: ucast_32_inj)
qed simp

lemma put_cells_at:
  assumes "i < 2 * length bs" "2 * length bs \<le> 2 ^ 32"
  shows "put_cells p c bs m (ucast (p + of_nat i)) = (if even i then bs ! (i div 2) else c)"
  using assms
proof (induction bs arbitrary: p m i)
  case (Cons b bs)
  let ?m = "m(ucast p := b, ucast (p + 1) := c)"
  have off: "\<forall>k < 2 * length bs. p + 2 + of_nat k \<noteq> p + of_nat j" if "j < 2" for j
  proof (intro allI impI notI)
    fix k assume k: "k < 2 * length bs" "p + 2 + of_nat k = p + of_nat j"
    then have "(of_nat (2 + k) :: u32) = of_nat j" by (simp add: add.assoc)
    then have "unat (of_nat (2 + k) :: u32) = unat (of_nat j :: u32)" by (rule arg_cong)
    moreover have "2 + k < 2 ^ 32" "j < 2 ^ 32" using k(1) Cons.prems(2) that by auto
    ultimately have "2 + k = j" by (simp only: unat_of_nat_32)
    then show False using that by simp
  qed
  consider (0) "i = 0" | (1) "i = 1" | j where "i = Suc (Suc j)" by (metis One_nat_def not0_implies_Suc)
  then show ?case
  proof cases
    case 0
    then show ?thesis using put_cells_below [OF off [of 0], of c ?m] by (simp add: ucast_32_inj)
  next
    case 1
    then show ?thesis using put_cells_below [OF off [of 1], of c ?m] by simp
  next
    case (3 j)
    have "put_cells (p + 2) c bs ?m (ucast (p + 2 + of_nat j)) = (if even j then bs ! (j div 2) else c)"
      using Cons.IH [of j] Cons.prems 3 by simp
    then show ?thesis using 3 by (simp add: algebra_simps)
  qed
qed simp

text \<open>In the first row the offset is exact.\<close>

lemma getidx_first:
  assumes "x < 80" shows "getidx 0 (of_nat x) = of_nat (2 * x)"
proof -
  have "unat (push_bit 1 (of_nat x :: u8)) = 2 * x"
    using assms by (simp add: push_bit_eq_mult unat_word_ariths(2) unat_of_nat take_bit_nat_eq_self)
  then have "(ucast (push_bit 1 (of_nat x :: u8)) :: u16) = of_nat (2 * x)"
    using assms by (simp add: word_unat_eq_iff unsigned_ucast_eq unat_of_nat take_bit_nat_eq_self del: of_nat_mult)
  then show ?thesis by (simp add: getidx_def)
qed

lemma set_low16_add: "set_low16 r v = (r AND 0xFFFF0000) + ucast v"
proof -
  have m: "(0xFFFF0000 :: u32) = NOT (mask 16)" by (simp add: mask_eq_exp_minus_1)
  have "(r AND 0xFFFF0000) AND ucast v = 0"
    unfolding m by (rule bit_word_eqI) (auto simp: bit_simps dest: bit_imp_le_length)
  then show ?thesis unfolding set_low16_def by (rule disjunctive_add_eq_or [symmetric])
qed

lemma boot_putchar_first:
  assumes "cursor_dl s = 0" "cursor_dh s = of_nat x" "x < 79" "al \<noteq> 0x0A"
  shows "boot_putchar edx al s = s\<lparr>bmem := (bmem s)(ucast (boot_base edx + of_nat (2 * x)) := al,
    ucast (boot_base edx + of_nat (2 * x) + 1) := boot_color s), cursor_dh := of_nat (Suc x)\<rparr>"
proof -
  have "(ucast (of_nat (2 * x) :: u16) :: u32) = of_nat (2 * x)"
    using assms(3) by (simp add: word_unat_eq_iff unsigned_ucast_eq unat_of_nat take_bit_nat_eq_self del: of_nat_mult)
  then have ebx: "set_low16 edx (getidx 0 (of_nat x)) = (edx AND 0xFFFF0000) + of_nat (2 * x)"
    using assms(3) by (simp add: set_low16_add getidx_first del: of_nat_mult)
  have "(of_nat x + 1 :: u8) \<noteq> 80"
  proof
    assume "(of_nat x + 1 :: u8) = 80"
    then have "(of_nat (x + 1) :: u8) = of_nat 80" by (simp add: add.commute)
    then have "unat (of_nat (x + 1) :: u8) = unat (of_nat 80 :: u8)" by (rule arg_cong)
    moreover have "x + 1 < 256" "(80 :: nat) < 256" using assms(3) by simp_all
    ultimately have "x + 1 = 80" by (simp only: unat_of_nat_8)
    then show False using assms(3) by simp
  qed
  then show ?thesis
    using assms by (simp add: boot_putchar_def put_entry_at_def Let_def ebx boot_base_def algebra_simps del: of_nat_mult)
qed

lemma boot_string_cong:
  "boot_string m a bs \<Longrightarrow> \<forall>k \<le> length bs. m' (ucast (a + of_nat k)) = m (ucast (a + of_nat k)) \<Longrightarrow> boot_string m' a bs"
proof (induction bs arbitrary: a)
  case (Cons b bs)
  have "m' (ucast (a + 1 + of_nat k)) = m (ucast (a + 1 + of_nat k))" if "k \<le> length bs" for k
    using Cons.prems(2) [rule_format, of "Suc k"] that by (simp add: algebra_simps)
  then show ?case using Cons.IH [of "a + 1"] Cons.prems(1) Cons.prems(2) [rule_format, of 0] by simp
qed simp

text \<open>A string of \<open>n\<close> characters that lies outside the first row as \<open>put_entry_at\<close> addresses it.\<close>

definition off_screen :: "u32 \<Rightarrow> u32 \<Rightarrow> nat \<Rightarrow> bool" where
  "off_screen edx a n \<longleftrightarrow> (\<forall>k \<le> n. \<forall>j < 160. a + of_nat k \<noteq> boot_base edx + of_nat j)"

lemma off_screen_next: "off_screen edx a (Suc n) \<Longrightarrow> off_screen edx (a + 1) n"
proof -
  assume o: "off_screen edx a (Suc n)"
  have "a + 1 + of_nat k \<noteq> boot_base edx + of_nat j" if "k \<le> n" "j < 160" for k j
    using o [unfolded off_screen_def, rule_format, of "Suc k" j] that by (simp add: algebra_simps)
  then show ?thesis by (simp add: off_screen_def)
qed

lemma boot_write_string:
  assumes "boot_string (bmem s) a bs" "bs \<noteq> []" "0x0A \<notin> set bs" "cursor_dl s = 0" "cursor_dh s = of_nat x"
    and "x + length bs < 80" "off_screen edx a (length bs)"
  shows "boot_write edx a (of_nat (length bs)) s =
    s\<lparr>bmem := put_cells (boot_base edx + of_nat (2 * x)) (boot_color s) bs (bmem s), cursor_dh := of_nat (x + length bs)\<rparr>"
  using assms
proof (induction bs arbitrary: a s x)
  case (Cons b bs)
  let ?p = "boot_base edx + of_nat (2 * x)"
  let ?m = "(bmem s)(ucast ?p := b, ucast (?p + 1) := boot_color s)"
  let ?t = "s\<lparr>bmem := ?m, cursor_dh := of_nat (Suc x)\<rparr>"
  have put: "boot_putchar edx (bmem s (ucast a)) s = ?t"
    using Cons.prems by (subst boot_putchar_first [of s x]) auto
  have cnt: "(of_nat (length (b # bs)) :: u16) - 1 = of_nat (length bs)" by simp
  show ?case
  proof (cases "bs = []")
    case True
    then show ?thesis using put by (subst boot_write.simps) (simp add: Let_def)
  next
    case False
    then have nz: "(of_nat (length bs) :: u16) \<noteq> 0"
      using Cons.prems(6) by (simp add: word_unat_eq_iff unat_of_nat take_bit_nat_eq_self)
    have "boot_string ?m (a + 1) bs"
    proof (rule boot_string_cong)
      show "boot_string (bmem s) (a + 1) bs" using Cons.prems(1) by simp
      have "a + of_nat (Suc k) \<noteq> ?p" "a + of_nat (Suc k) \<noteq> ?p + 1" if "k \<le> length bs" for k
        using Cons.prems(7) [unfolded off_screen_def, rule_format, of "Suc k" "2 * x"]
          Cons.prems(7) [unfolded off_screen_def, rule_format, of "Suc k" "2 * x + 1"] that Cons.prems(6)
        by (simp_all add: algebra_simps)
      then show "\<forall>k \<le> length bs. ?m (ucast (a + 1 + of_nat k)) = bmem s (ucast (a + 1 + of_nat k))"
        by (simp add: ucast_32_inj algebra_simps)
    qed
    moreover have "bmem ?t = ?m" by simp
    ultimately have "boot_string (bmem ?t) (a + 1) bs" by (simp only:)
    moreover have "0x0A \<notin> set bs" "cursor_dl ?t = 0" "cursor_dh ?t = of_nat (Suc x)" "Suc x + length bs < 80"
      "off_screen edx (a + 1) (length bs)"
      using Cons.prems off_screen_next [of edx a "length bs"] by simp_all
    ultimately have "boot_write edx (a + 1) (of_nat (length bs)) ?t =
      ?t\<lparr>bmem := put_cells (boot_base edx + of_nat (2 * Suc x)) (boot_color ?t) bs (bmem ?t),
        cursor_dh := of_nat (Suc x + length bs)\<rparr>"
      using False by (intro Cons.IH)
    moreover have "boot_base edx + of_nat (2 * Suc x) = ?p + 2" by simp
    ultimately show ?thesis using put cnt nz by (subst boot_write.simps) (simp add: Let_def ac_simps)
  qed
qed simp

lemma protected_vga_print_string:
  assumes "boot_string (bmem s) a bs" "bs \<noteq> []" "0x0A \<notin> set bs" "cursor_dl s = 0" "cursor_dh s = of_nat x"
    and "x + length bs < 80" "off_screen edx a (length bs)"
  shows "protected_vga_print edx a s = Some
    (s\<lparr>bmem := put_cells (boot_base edx + of_nat (2 * x)) (boot_color s) bs (bmem s), cursor_dh := of_nat (x + length bs)\<rparr>)"
proof -
  have "(ucast (of_nat (length bs) :: u32) :: u16) = of_nat (length bs)"
    using assms(6) by (simp add: word_unat_eq_iff unsigned_ucast_eq unat_of_nat take_bit_nat_eq_self)
  then show ?thesis
    using boot_write_string [OF assms] by (simp add: protected_vga_print_def boot_strlen_string [OF assms(1)])
qed

end
