(* ===== verification/Boot.thy ===== *)
theory Boot
  imports Boot_Screen Kmain Descriptors
begin

text \<open>
  From the boot loader to \<open>kmain\<close>: \<^verbatim>\<open>src/arch/x86_64/boot/boot.asm\<close>, \<^verbatim>\<open>long_mode_start.asm\<close> and
  \<^verbatim>\<open>multiboot_header.asm\<close>.  The checks, the first page tables, the registers that enable long mode, the
  segment registers, and the values that reach \<open>kmain\<close> over the stack.  Return addresses and saved registers on the stack are
  not modelled.  What \<open>cpuid\<close> answers and which bits of the flags can be set are parameters.
\<close>

section \<open>State and parameters\<close>

text \<open>Addresses that linker and assembler decide.\<close>

record boot_layout =
  initial_page_tables :: u32
  stack_top :: u32
  gdt_at :: u32
  err_prefix :: u32
  no_multiboot_err :: u32
  no_cpuid_err :: u32
  no_long_supported_err :: u32

text \<open>The leaves of \<open>cpuid\<close> as \<open>eax\<close> and \<open>edx\<close>; the flags as they read back after a write.\<close>

record boot_cpu =
  cpuid :: "u32 \<Rightarrow> u32 \<times> u32"
  set_flags :: "u32 \<Rightarrow> u32"
  eflags :: u32

text \<open>The registers; \<open>lgdt\<close> sets limit and base of the descriptor table.\<close>

record boot_machine = boot_screen +
  esp :: u32
  gdt_limit :: u16
  gdt_base :: u32
  segs :: segments
  cr0 :: u32
  cr3 :: u32
  cr4 :: u32
  efer :: u32

definition push32 :: "u32 \<Rightarrow> boot_machine \<Rightarrow> boot_machine" where
  "push32 v s = s\<lparr>esp := esp s - 4, bmem := store32 (bmem s) (ucast (esp s - 4)) v\<rparr>"

section \<open>Checks\<close>

text \<open>A check gives the address of the message of its failure, and \<open>edx\<close> at that point.\<close>

definition multiboot_check :: "boot_layout \<Rightarrow> u32 \<Rightarrow> u32 \<Rightarrow> (u32 \<times> u32) option" where
  "multiboot_check L eax edx = (if eax \<noteq> 0x36d76289 then Some (no_multiboot_err L, edx) else None)"

definition cpuid_check :: "boot_layout \<Rightarrow> boot_cpu \<Rightarrow> u32 \<Rightarrow> (u32 \<times> u32) option" where
  "cpuid_check L C edx =
     (let eax = eflags C;
          ecx = eax;
          eax = eax XOR push_bit 21 1;
          eax = set_flags C eax;
          eax = eax XOR ecx
      in if eax = 0 then Some (no_cpuid_err L, edx) else None)"

definition long_supported_check :: "boot_layout \<Rightarrow> boot_cpu \<Rightarrow> (u32 \<times> u32) option" where
  "long_supported_check L C =
     (let (eax, edx) = cpuid C 0x80000000
      in if eax < 0x80000001 then Some (no_long_supported_err L, edx)
         else
           let (eax, edx) = cpuid C 0x80000001
           in if edx AND push_bit 29 1 = 0 then Some (no_long_supported_err L, edx) else None)"

text \<open>The three checks in order.\<close>

definition boot_checks :: "boot_layout \<Rightarrow> boot_cpu \<Rightarrow> u32 \<Rightarrow> u32 \<Rightarrow> (u32 \<times> u32) option" where
  "boot_checks L C eax edx =
     (case multiboot_check L eax edx of
        Some e \<Rightarrow> Some e
      | None \<Rightarrow> (case cpuid_check L C edx of Some e \<Rightarrow> Some e | None \<Rightarrow> long_supported_check L C))"

text \<open>The screen routines on the whole state.\<close>

definition on_screen :: "(boot_screen \<Rightarrow> boot_screen option) \<Rightarrow> boot_machine \<Rightarrow> boot_machine option" where
  "on_screen f s = (case f (boot_screen.truncate s) of
     None \<Rightarrow> None
   | Some t \<Rightarrow> Some (s\<lparr>bmem := bmem t, boot_color := boot_color t, cursor_dl := cursor_dl t, cursor_dh := cursor_dh t\<rparr>))"

text \<open>\<open>dx\<close> is what setting the colour leaves in it.\<close>

definition boot_error :: "boot_layout \<Rightarrow> u32 \<Rightarrow> u32 \<Rightarrow> boot_machine \<Rightarrow> boot_machine option" where
  "boot_error L esi edx s =
     (let edx = set_low16 edx 0x0404
      in case on_screen (\<lambda>t. protected_vga_print edx (err_prefix L) (protected_vga_set_color 0x0 0x4 t)) s of
        None \<Rightarrow> None
      | Some s \<Rightarrow>
          let edx = set_low16 edx 0x0F0F
          in on_screen (\<lambda>t. protected_vga_print edx esi (protected_vga_set_color 0x0 0xF t)) s)"

section \<open>Page tables and long mode\<close>

text \<open>The loop over the 32 entries: what it adds to is \<open>edx\<close>, what it stores is \<open>ebx\<close>.\<close>

fun set_entry :: "nat \<Rightarrow> u32 \<Rightarrow> u32 \<Rightarrow> u32 \<Rightarrow> mem \<Rightarrow> mem" where
  "set_entry 0 edi ebx edx m = m"
| "set_entry (Suc ecx) edi ebx edx m =
     (let m = store32 m (ucast edi) ebx;
          edx = edx + 0x200000;
          edi = edi + 8
      in set_entry ecx edi ebx edx m)"

definition setup_page_tables :: "boot_layout \<Rightarrow> u32 \<Rightarrow> mem \<Rightarrow> mem" where
  "setup_page_tables L edx m =
     (let edi = initial_page_tables L;
          eax = 0x1000;
          eax = eax + edi;
          eax = eax OR 0b11;
          m = store32 m (ucast edi) eax;
          edi = edi + 0x1000;
          eax = 0x1000;
          eax = eax + edi;
          eax = eax OR 0b11;
          m = store32 m (ucast edi) eax;
          edi = edi + 0x1000;
          ebx = 0b10000011
      in set_entry 32 edi ebx edx m)"

definition enable_paging :: "boot_layout \<Rightarrow> boot_machine \<Rightarrow> boot_machine" where
  "enable_paging L s =
     (let s = s\<lparr>cr3 := initial_page_tables L\<rparr>;
          s = s\<lparr>cr4 := cr4 s OR push_bit 5 1\<rparr>;
          s = s\<lparr>efer := efer s OR push_bit 8 1\<rparr>
      in s\<lparr>cr0 := cr0 s OR push_bit 31 1\<rparr>)"

section \<open>Start\<close>

text \<open>The machine halts behind a message, or \<open>kmain\<close> is called with these two registers.\<close>

datatype boot_end = Halts | Calls_kmain u64 u64

definition long_mode_start :: "boot_machine \<Rightarrow> boot_end \<times> boot_machine" where
  "long_mode_start s =
     (let ax = 0x10;
          s = s\<lparr>segs := (segs s)\<lparr>seg_ss := ax\<rparr>\<rparr>;
          s = s\<lparr>segs := (segs s)\<lparr>seg_ds := ax\<rparr>\<rparr>;
          s = s\<lparr>segs := (segs s)\<lparr>seg_es := ax\<rparr>\<rparr>;
          s = s\<lparr>segs := (segs s)\<lparr>seg_fs := ax\<rparr>\<rparr>;
          s = s\<lparr>segs := (segs s)\<lparr>seg_gs := ax\<rparr>\<rparr>;
          rsp = ucast (esp s) :: u64;
          rdi = load64 (bmem s) rsp;
          rsp = rsp + 8;
          rsi = load64 (bmem s) rsp;
          rsp = rsp + 8
      in (Calls_kmain rdi rsi, s\<lparr>esp := ucast rsp\<rparr>))"

text \<open>The far jump at the end of \<open>_start\<close> loads the code segment register.\<close>

definition boot_start :: "boot_layout \<Rightarrow> boot_cpu \<Rightarrow> u32 \<Rightarrow> u32 \<Rightarrow> u32 \<Rightarrow> boot_machine \<Rightarrow> (boot_end \<times> boot_machine) option" where
  "boot_start L C eax ebx edx s =
     (let s = s\<lparr>esp := stack_top L\<rparr>;
          s = push32 0 s;
          s = push32 eax s;
          s = push32 0 s;
          s = push32 ebx s
      in case boot_checks L C eax edx of
           Some (msg, edx) \<Rightarrow> (case boot_error L msg edx s of None \<Rightarrow> None | Some s \<Rightarrow> Some (Halts, s))
         | None \<Rightarrow>
             let s = s\<lparr>bmem := setup_page_tables L (snd (cpuid C 0x80000001)) (bmem s)\<rparr>;
                 s = enable_paging L s;
                 s = s\<lparr>gdt_limit := GDTR_size, gdt_base := gdt_at L\<rparr>;
                 s = s\<lparr>segs := (segs s)\<lparr>seg_cs := 0x08\<rparr>\<rparr>
             in Some (long_mode_start s))"

text \<open>The header the boot loader looks for, as its 32-bit words; the end tag has two 16-bit fields.\<close>

definition header_length :: u32 where
  "header_length = 24"

definition multiboot_header :: "u32 list" where
  "multiboot_header = [0xE85250D6, 0, header_length, - (0xE85250D6 + 0 + header_length), 0, 8]"

section \<open>The first page tables\<close>

definition zero_in :: "mem \<Rightarrow> u64 \<Rightarrow> nat \<Rightarrow> bool" where
  "zero_in m p n \<longleftrightarrow> (\<forall>x. in_range p n x \<longrightarrow> m x = 0)"

lemma load64_zero: "zero_in m p 8 \<Longrightarrow> load64 m p = 0"
  by (rule bit_word_eqI) (auto simp: load64_def bit_load_bytes zero_in_def)

lemma zero_in_part:
  assumes "zero_in m p n" "k + j \<le> n" "n \<le> 2 ^ 64" shows "zero_in m (p + of_nat k) j"
  unfolding zero_in_def
proof (intro allI impI)
  fix x assume "in_range (p + of_nat k) j x"
  then obtain i where i: "i < j" "x = p + of_nat k + of_nat i" by (rule in_rangeE)
  then have x: "x = p + of_nat (k + i)" by simp
  have "k + i < 2 ^ 64" "k + i < n" using i(1) assms(2,3) by linarith+
  then have "in_range p n x" unfolding x by (simp only: in_range_add)
  then show "m x = 0" using assms(1) by (simp add: zero_in_def)
qed

lemma load64_low:
  assumes "\<And>k. 4 \<le> k \<Longrightarrow> k < 8 \<Longrightarrow> m (p + of_nat k) = 0" shows "load64 (store32 m p v) p = ucast v"
proof (rule bit_word_eqI)
  fix i assume "i < LENGTH(64)"
  then have i: "i div 8 < 8" "i < 64" by simp_all
  have inside: "in_range p k (p + of_nat (i div 8)) \<longleftrightarrow> i div 8 < k" for k using i by (subst in_range_add) simp_all
  show "bit (load64 (store32 m p v) p) i = bit (ucast v :: u64) i"
  proof (cases "i div 8 < 4")
    case True
    moreover have "8 * (i div 8) + i mod 8 = i" by simp
    moreover have "unat (of_nat (i div 8) :: u64) = i div 8" using i by simp
    ultimately show ?thesis using i inside [of 4] by (simp add: load64_def bit_load_bytes store32_apply bit_simps)
  next
    case False
    have "m (p + of_nat (i div 8)) = 0" using i False by (intro assms) simp_all
    moreover have "\<not> bit v i" using False by (auto dest: bit_imp_le_length)
    ultimately show ?thesis
      using inside [of 4] False by (simp add: load64_def bit_load_bytes store32_apply bit_simps)
  qed
qed

lemma zero_inD: "zero_in m p n \<Longrightarrow> k < n \<Longrightarrow> n \<le> 2 ^ 64 \<Longrightarrow> m (p + of_nat k) = 0"
  by (simp add: zero_in_def)

lemma load64_store32_other:
  assumes "unat a + 4 \<le> unat b \<or> unat b + 8 \<le> unat a" "unat a + 4 \<le> 2 ^ 64" "unat b + 8 \<le> 2 ^ 64"
  shows "load64 (store32 m a v) b = load64 m b"
proof -
  have "disjoint_ranges a 4 b 8"
    using assms disjoint_ranges_below [of a 4 b 8] disjoint_ranges_above [of b 8 a 4] by blast
  then show ?thesis by (intro load64_cong) (auto simp: store32_apply disjoint_ranges_def)
qed

lemma zero_in_store32:
  assumes "zero_in m p n" "unat a + 4 \<le> unat p \<or> unat p + n \<le> unat a" "unat p + n \<le> 2 ^ 64" "unat a + 4 \<le> 2 ^ 64"
  shows "zero_in (store32 m a v) p n"
proof -
  have "disjoint_ranges a 4 p n"
    using assms(2-4) disjoint_ranges_below [of a 4 p n] disjoint_ranges_above [of p n a 4] by blast
  then show ?thesis using assms(1) by (auto simp: zero_in_def store32_apply disjoint_ranges_def)
qed

lemma next_entry_addr:
  assumes "unat (edi :: u32) + 8 < 2 ^ 32"
  shows "unat (edi + 8) = unat edi + 8" "(ucast (edi + 8) :: u64) = ucast edi + 8"
proof -
  show u: "unat (edi + 8) = unat edi + 8" using assms by (simp add: unat_word_ariths(1))
  have "unat (ucast edi + 8 :: u64) = unat edi + 8" using assms by (simp add: unat_word_ariths(1))
  then show "(ucast (edi + 8) :: u64) = ucast edi + 8" using u by (simp only: word_unat_eq_iff unat_ucast_32_64)
qed

lemma set_entry_outside:
  assumes "unat edi + 8 * n < 2 ^ 32" "unat a + 8 \<le> unat edi \<or> unat edi + 8 * n \<le> unat a" "unat a + 8 \<le> 2 ^ 64"
  shows "load64 (set_entry n edi ebx edx m) a = load64 m a"
  using assms
proof (induction n arbitrary: edi edx m)
  case (Suc n)
  have e: "unat (edi + 8) = unat edi + 8" using Suc.prems(1) by (intro next_entry_addr) simp
  have "load64 (set_entry n (edi + 8) ebx (edx + 0x200000) (store32 m (ucast edi) ebx)) a =
      load64 (store32 m (ucast edi) ebx) a"
    using Suc.prems e by (intro Suc.IH) auto
  also have "\<dots> = load64 m a" using Suc.prems by (intro load64_store32_other) auto
  finally show ?case by simp
qed simp

lemma set_entry_entry:
  assumes "unat edi + 8 * n < 2 ^ 32" "zero_in m (ucast edi) (8 * n)" "i < n"
  shows "load64 (set_entry n edi ebx edx m) (ucast edi + of_nat (8 * i)) = ucast ebx"
  using assms
proof (induction n arbitrary: edi edx m i)
  case (Suc n)
  let ?m = "store32 m (ucast edi) ebx" and ?e = "ucast edi :: u64"
  note e = next_entry_addr [of edi]
  have lt: "unat edi + 8 < 2 ^ 32" using Suc.prems(1) by simp
  show ?case
  proof (cases i)
    case 0
    have "load64 (set_entry n (edi + 8) ebx (edx + 0x200000) ?m) ?e = load64 ?m ?e"
      using Suc.prems(1) e(1) [OF lt] by (intro set_entry_outside) auto
    also have "\<dots> = ucast ebx"
      using zero_inD [OF Suc.prems(2)] Suc.prems(1) by (intro load64_low) simp
    finally show ?thesis using 0 by simp
  next
    case (Suc j)
    have "zero_in m (?e + of_nat 8) (8 * n)" using Suc.prems(1,2) by (intro zero_in_part) auto
    then have "zero_in ?m (ucast (edi + 8)) (8 * n)"
      unfolding e(2) [OF lt] using Suc.prems(1) e(1) [OF lt]
      by (intro zero_in_store32) (auto simp: e(2) [OF lt, symmetric])
    then have "load64 (set_entry n (edi + 8) ebx (edx + 0x200000) ?m) (ucast (edi + 8) + of_nat (8 * j)) = ucast ebx"
      using Suc.prems(1,3) Suc e(1) [OF lt] by (intro Suc.IH) auto
    moreover have "ucast (edi + 8) + of_nat (8 * j) = ?e + of_nat (8 * i)" by (simp add: e(2) [OF lt] Suc)
    ultimately show ?thesis by simp
  qed
qed simp

text \<open>The three tables after \<open>setup_page_tables\<close>, entry by entry.\<close>

definition boot_table_entry :: "u32 \<Rightarrow> nat \<Rightarrow> u64" where
  "boot_table_entry T i =
     (if i = 0 then ucast ((0x1000 + T) OR 0b11)
      else if i = 512 then ucast ((0x1000 + (T + 0x1000)) OR 0b11)
      else if 1024 \<le> i \<and> i < 1056 then 0x83 else 0)"

lemma table_offset:
  assumes "unat (T :: u32) + k < 2 ^ 32"
  shows "unat (T + of_nat k) = unat T + k" "(ucast (T + of_nat k) :: u64) = ucast T + of_nat k"
    "unat (ucast T + of_nat k :: u64) = unat T + k"
proof -
  show u: "unat (T + of_nat k) = unat T + k" using assms by (simp add: unat_word_ariths(1) unat_of_nat_32)
  show "unat (ucast T + of_nat k :: u64) = unat T + k" using assms by (simp add: unat_word_ariths(1))
  then show "(ucast (T + of_nat k) :: u64) = ucast T + of_nat k" using u by (simp only: word_unat_eq_iff unat_ucast_32_64)
qed

text \<open>The stores into the three tables, and where each leaves the memory alone.\<close>

lemma setup_page_tables_stages:
  assumes "unat (initial_page_tables L) + 0x3000 < 2 ^ 32"
    and T_def: "T = initial_page_tables L" and P_def: "P = (ucast T :: u64)"
    and m1_def: "m1 = store32 m P ((0x1000 + T) OR 0b11)"
    and m2_def: "m2 = store32 m1 (P + 0x1000) ((0x1000 + (T + 0x1000)) OR 0b11)"
  shows "unat (T + 0x2000) = unat T + 8192" "(ucast (T + 0x2000) :: u64) = P + 0x2000" "unat (P + 0x1000) = unat T + 4096"
      "unat (P + 0x2000) = unat T + 8192"
    and "setup_page_tables L edx m = set_entry 32 (T + 0x2000) 0b10000011 edx m2"
    and "unat a + 8 \<le> unat T + 8192 \<or> unat T + 8192 + 256 \<le> unat a \<Longrightarrow> unat a + 8 \<le> 2 ^ 64 \<Longrightarrow>
      load64 (setup_page_tables L edx m) a = load64 m2 a"
    and "unat a + 8 \<le> unat T \<or> unat T + 8 \<le> unat a \<Longrightarrow> unat a + 8 \<le> 2 ^ 64 \<Longrightarrow> load64 m1 a = load64 m a"
    and "unat a + 8 \<le> unat T + 4096 \<or> unat T + 4096 + 8 \<le> unat a \<Longrightarrow> unat a + 8 \<le> 2 ^ 64 \<Longrightarrow> load64 m2 a = load64 m1 a"
proof -
  have lt: "unat T + 0x3000 < 2 ^ 32" using assms(1) by (simp add: T_def)
  have o1: "(ucast (T + 0x1000) :: u64) = P + 0x1000" "unat (P + 0x1000) = unat T + 4096"
    using table_offset [of T 4096] lt by (simp_all add: P_def)
  show o2: "unat (T + 0x2000) = unat T + 8192" "(ucast (T + 0x2000) :: u64) = P + 0x2000"
    "unat (P + 0x2000) = unat T + 8192" using table_offset [of T 8192] lt by (simp_all add: P_def)
  show "unat (P + 0x1000) = unat T + 4096" by (rule o1(2))
  show s: "setup_page_tables L edx m = set_entry 32 (T + 0x2000) 0b10000011 edx m2"
    by (simp add: setup_page_tables_def Let_def o1(1) add.assoc m2_def m1_def P_def flip: T_def)
  show "load64 (setup_page_tables L edx m) a = load64 m2 a"
    if "unat a + 8 \<le> unat T + 8192 \<or> unat T + 8192 + 256 \<le> unat a" "unat a + 8 \<le> 2 ^ 64"
    unfolding s using that lt o2(1) by (intro set_entry_outside) auto
  show "load64 m1 a = load64 m a"
    if "unat a + 8 \<le> unat T \<or> unat T + 8 \<le> unat a" "unat a + 8 \<le> 2 ^ 64"
    unfolding m1_def P_def using that lt by (intro load64_store32_other) auto
  show "load64 m2 a = load64 m1 a"
    if "unat a + 8 \<le> unat T + 4096 \<or> unat T + 4096 + 8 \<le> unat a" "unat a + 8 \<le> 2 ^ 64"
    unfolding m2_def using that lt o1(2) by (intro load64_store32_other) auto
qed

lemma setup_page_tables_entries:
  assumes "unat (initial_page_tables L) + 0x3000 < 2 ^ 32" "zero_in m (ucast (initial_page_tables L)) 0x3000"
  shows "i < 1536 \<Longrightarrow> load64 (setup_page_tables L edx m) (ucast (initial_page_tables L) + of_nat (8 * i)) =
      boot_table_entry (initial_page_tables L) i"
    and "unat a + 8 \<le> unat (initial_page_tables L) \<or> unat (initial_page_tables L) + 0x3000 \<le> unat a \<Longrightarrow>
      unat a + 8 \<le> 2 ^ 64 \<Longrightarrow> load64 (setup_page_tables L edx m) a = load64 m a"
proof -
  let ?T = "initial_page_tables L"
  let ?P = "ucast ?T :: u64"
  let ?m1 = "store32 m ?P ((0x1000 + ?T) OR 0b11)"
  let ?m2 = "store32 ?m1 (?P + 0x1000) ((0x1000 + (?T + 0x1000)) OR 0b11)"
  note stages = setup_page_tables_stages [where m = m, OF assms(1) refl refl refl refl]
  note o1 = stages(3) and o2 = stages(1,2,4) and s = stages(5) and out = stages(6) and keep1 = stages(7) and keep2 = stages(8)
  have z: "zero_in m (?P + of_nat k) j" if "k + j \<le> 0x3000" for k j
    using assms(2) that by (intro zero_in_part) auto
  show "load64 (setup_page_tables L edx m) a = load64 m a"
    if "unat a + 8 \<le> unat ?T \<or> unat ?T + 0x3000 \<le> unat a" "unat a + 8 \<le> 2 ^ 64"
    using that out [of a] keep1 [of a] keep2 [of a] by auto
  show "load64 (setup_page_tables L edx m) (?P + of_nat (8 * i)) = boot_table_entry ?T i" if i: "i < 1536"
  proof -
    let ?a = "?P + of_nat (8 * i)"
    have a: "unat ?a = unat ?T + 8 * i" using table_offset(3) [of ?T "8 * i"] assms(1) i by auto
    have m0: "load64 m ?a = 0" using z [of "8 * i" 8] i by (intro load64_zero) auto
    consider "i = 0" | "i = 512" | "1024 \<le> i" "i < 1056" | "i \<noteq> 0" "i \<noteq> 512" "\<not> (1024 \<le> i \<and> i < 1056)" by linarith
    then show ?thesis
    proof cases
      case 1
      have "load64 ?m1 ?P = ucast ((0x1000 + ?T) OR 0b11)" using zero_inD [OF assms(2)] by (intro load64_low) simp
      then show ?thesis using 1 out [of ?P] keep2 [of ?P] assms(1) by (simp add: boot_table_entry_def)
    next
      case 2
      have "zero_in ?m1 (?P + 0x1000) 8"
        using z [of 4096 8] assms(1) o1 by (intro zero_in_store32) auto
      then have "load64 ?m2 (?P + 0x1000) = ucast ((0x1000 + (?T + 0x1000)) OR 0b11)"
        by (intro load64_low zero_inD) auto
      then show ?thesis using 2 out [of "?P + 0x1000"] assms(1) o1 by (simp add: boot_table_entry_def)
    next
      case 3
      have "zero_in ?m1 (?P + 0x2000) 256"
        using z [of 8192 256] assms(1) o2(3) by (simp add: zero_in_store32)
      then have "zero_in ?m2 (?P + 0x2000) 256"
        by (rule zero_in_store32) (use assms(1) o1 o2(3) in simp_all)
      then have "load64 (setup_page_tables L edx m) (ucast (?T + 0x2000) + of_nat (8 * (i - 1024))) = ucast (0b10000011 :: u32)"
        unfolding s using 3 assms(1) o2(1,2) by (intro set_entry_entry) auto
      moreover have "ucast (?T + 0x2000) + of_nat (8 * (i - 1024)) = ?a"
        using 3(1) by (simp add: o2(2) of_nat_diff)
      ultimately have "load64 (setup_page_tables L edx m) ?a = ucast (0b10000011 :: u32)" by (simp only:)
      then show ?thesis using 3 by (simp add: boot_table_entry_def)
    next
      case 4
      then have "unat ?a + 8 \<le> unat ?T + 8192 \<or> unat ?T + 8192 + 256 \<le> unat ?a"
        "unat ?a + 8 \<le> unat ?T + 4096 \<or> unat ?T + 4096 + 8 \<le> unat ?a" "unat ?T + 8 \<le> unat ?a" "unat ?a + 8 \<le> 2 ^ 64"
        using i assms(1) unfolding a by auto
      then show ?thesis using 4 out [of ?a] keep2 [of ?a] keep1 [of ?a] m0 by (simp add: boot_table_entry_def)
    qed
  qed
qed

lemma table_pointer:
  assumes "take_bit 12 (a :: u32) = 0"
  defines "e \<equiv> ucast (a OR 0b11) :: u64"
  shows "pml_present e" "\<not> pml_huge e" "push_bit 12 (pml_address e) = ucast a"
proof -
  have z: "\<not> bit a i" if "i < 12" for i using that assms(1) bit_take_bit_iff [of 12 a i] by simp
  have m: "(0b11 :: u32) = mask 2" by (simp add: mask_eq_exp_minus_1)
  have b: "bit e i \<longleftrightarrow> i < 2 \<or> bit a i" for i
  proof -
    have "bit a i \<Longrightarrow> i < 32" using bit_imp_le_length [of a i] by simp
    then show ?thesis unfolding e_def m by (auto simp: bit_simps)
  qed
  show "pml_present e" "\<not> pml_huge e" using b z by (simp_all add: pml_present_def pml_huge_def)
  show "push_bit 12 (pml_address e) = ucast a"
  proof (rule bit_word_eqI)
    fix i
    have "bit a i \<Longrightarrow> i < 32" using bit_imp_le_length [of a i] by simp
    then show "bit (push_bit 12 (pml_address e)) i = bit (ucast a :: u64) i"
      using z [of i] by (cases "i < 12") (auto simp: pml_address_def bit_simps b)
  qed
qed

text \<open>The addresses of the second and third table.\<close>

lemma later_tables:
  fixes T :: u32
  assumes "take_bit 12 T = 0" "unat T + 0x3000 < 2 ^ 32"
  shows "take_bit 12 (0x1000 + T) = 0" "take_bit 12 (0x1000 + (T + 0x1000)) = 0"
    "ucast (0x1000 + T) = (ucast T + 0x1000 :: u64)" "ucast (0x1000 + (T + 0x1000)) = (ucast T + 0x2000 :: u64)"
proof -
  have "take_bit 12 (x + 0x1000) = take_bit 12 x" for x :: u32
  proof -
    have "unat (x + 0x1000) mod 2 ^ 12 = unat x mod 2 ^ 12"
      unfolding unat_word_ariths(1) by (subst mod_mod_cancel) simp_all
    moreover have "unat (take_bit 12 y) = unat y mod 2 ^ 12" for y :: u32
      by (simp only: unsigned_take_bit_eq) (simp only: take_bit_eq_mod)
    ultimately show ?thesis by (simp only: word_unat_eq_iff)
  qed
  from this [of T] this [of "T + 0x1000"]
  show "take_bit 12 (0x1000 + T) = 0" "take_bit 12 (0x1000 + (T + 0x1000)) = 0"
    using assms(1) by (simp_all only: add.commute)
  show "ucast (0x1000 + T) = (ucast T + 0x1000 :: u64)" "ucast (0x1000 + (T + 0x1000)) = (ucast T + 0x2000 :: u64)"
    using table_offset(2) [of T 4096] table_offset(2) [of T 8192] assms(2) by (simp_all add: add.commute add.left_commute)
qed

text \<open>The walk goes through the first entry of each of the two upper tables.\<close>

lemma boot_walk_steps:
  fixes T :: u32
  assumes T: "take_bit 12 T = 0" "unat T + 0x3000 < 2 ^ 32"
    and M: "\<And>i. i < 1536 \<Longrightarrow> M (ucast T + of_nat (8 * i)) = boot_table_entry T i"
  shows "hw_walk M 4 (ucast T) va =
    (if unat (walk_index 3 va) \<noteq> 0 then Inl 1 else if unat (walk_index 2 va) \<noteq> 0 then Inl 2
     else if unat (walk_index 1 va) < 32 then Inr (take_bit 21 va) else Inl 3)"
proof -
  have e: "M (ucast T + of_nat (8 * k) + 8 * walk_index l va) = boot_table_entry T (k + unat (walk_index l va))"
    if "k \<le> 1024" for k l
  proof -
    have "ucast T + of_nat (8 * k) + 8 * walk_index l va = ucast T + of_nat (8 * (k + unat (walk_index l va)))"
      by (simp add: distrib_left)
    then show ?thesis using M [of "k + unat (walk_index l va)"] walk_index_bound [of l va] that
      by (simp add: add.assoc)
  qed
  note o = later_tables [OF T]
  note t = table_pointer [OF o(1)] table_pointer [OF o(2)]
  have z: "\<not> pml_present 0" by (simp add: pml_present_def)
  have 3: "hw_walk M 4 (ucast T) va = (if unat (walk_index 3 va) \<noteq> 0 then Inl 1 else hw_walk M 3 (ucast T + 0x1000) va)"
  proof -
    have "M (ucast T + 8 * walk_index 3 va) = (if unat (walk_index 3 va) = 0 then ucast ((0x1000 + T) OR 0b11) else 0)"
      using e [of 0 3] walk_index_bound [of 3 va] by (simp add: boot_table_entry_def)
    then show ?thesis by (simp only: hw_walk_levels(1) Let_def) (simp add: t(1,3) o(3) z)
  qed
  have 2: "hw_walk M 3 (ucast T + 0x1000) va =
      (if unat (walk_index 2 va) \<noteq> 0 then Inl 2 else hw_walk M 2 (ucast T + 0x2000) va)"
  proof -
    have e2: "M (ucast T + 0x1000 + 8 * walk_index 2 va) =
        (if unat (walk_index 2 va) = 0 then ucast ((0x1000 + (T + 0x1000)) OR 0b11) else 0)"
      using e [of 512 2] walk_index_bound [of 2 va] by (simp add: boot_table_entry_def)
    show ?thesis
      by (cases "unat (walk_index 2 va) = 0") (simp_all only: e2 hw_walk_levels(2) Let_def t(4-6) o(4) z simp_thms if_True if_False)
  qed
  have "M (ucast T + 0x2000 + 8 * walk_index 1 va) = (if unat (walk_index 1 va) < 32 then 0x83 else 0)"
    using e [of 1024 1] by (simp add: boot_table_entry_def)
  then have "hw_walk M 2 (ucast T + 0x2000) va =
      (if unat (walk_index 1 va) < 32 then Inr (take_bit 21 va) else Inl 3)"
    by (simp only: hw_walk_levels(3) Let_def) (simp add: z pml_present_def pml_huge_def pml_address_def)
  then show ?thesis using 3 2 by simp
qed

text \<open>Every address below 64 MiB leads to the first 2 MiB, and nothing above is mapped.\<close>

lemma boot_walk:
  fixes T :: u32
  assumes "take_bit 12 T = 0" "unat T + 0x3000 < 2 ^ 32"
    and M: "\<And>i. i < 1536 \<Longrightarrow> M (ucast T + of_nat (8 * i)) = boot_table_entry T i"
  shows "unat va < 2 ^ 26 \<Longrightarrow> hw_walk M 4 (ucast T) va = Inr (take_bit 21 va)"
    and "2 ^ 26 \<le> unat va \<Longrightarrow> unat va < 2 ^ 48 \<Longrightarrow> \<exists>l. hw_walk M 4 (ucast T) va = Inl l"
proof -
  note walk = boot_walk_steps [where M = M and va = va, OF assms]
  note w = unat_walk_index [of 3 va] unat_walk_index [of 2 va] unat_walk_index [of 1 va]
  show "hw_walk M 4 (ucast T) va = Inr (take_bit 21 va)" if "unat va < 2 ^ 26"
  proof -
    have "unat va div 2 ^ 39 = 0" "unat va div 2 ^ 30 = 0" "unat va div 2 ^ 21 < 32" using that by simp_all
    then show ?thesis using walk w by simp
  qed
  show "\<exists>l. hw_walk M 4 (ucast T) va = Inl l" if "2 ^ 26 \<le> unat va" "unat va < 2 ^ 48"
  proof (cases "unat va < 2 ^ 30")
    case True
    then have "\<not> unat va div 2 ^ 21 mod 512 < 32" using that(1) by auto
    then show ?thesis using walk w by auto
  next
    case False
    have "unat va div 2 ^ 39 mod 512 \<noteq> 0 \<or> unat va div 2 ^ 30 mod 512 \<noteq> 0"
    proof (rule ccontr)
      assume none: "\<not> (unat va div 2 ^ 39 mod 512 \<noteq> 0 \<or> unat va div 2 ^ 30 mod 512 \<noteq> 0)"
      have "unat va div 2 ^ 39 < 512" using that(2) by simp
      then have "unat va div 2 ^ 39 = 0" using none by simp
      then have "unat va div 2 ^ 30 < 512" by simp
      then have "unat va div 2 ^ 30 = 0" using none by simp
      then show False using False by simp
    qed
    then show ?thesis using walk w by auto
  qed
qed

section \<open>The stack\<close>

definition boot_pushes :: "boot_layout \<Rightarrow> u32 \<Rightarrow> u32 \<Rightarrow> boot_machine \<Rightarrow> boot_machine" where
  "boot_pushes L eax ebx s = push32 ebx (push32 0 (push32 eax (push32 0 (s\<lparr>esp := stack_top L\<rparr>))))"

lemma boot_pushes_state:
  "boot_pushes L eax ebx s = s\<lparr>esp := stack_top L - 16, bmem :=
     store32 (store32 (store32 (store32 (bmem s) (ucast (stack_top L - 4)) 0) (ucast (stack_top L - 8)) eax)
       (ucast (stack_top L - 12)) 0) (ucast (stack_top L - 16)) ebx\<rparr>"
  by (simp add: boot_pushes_def push32_def)

lemma ucast_add_low: "(ucast (x + y :: u64) :: u32) = ucast x + ucast y"
proof -
  have "take_bit 32 (a + b) = take_bit 32 (take_bit 64 a + take_bit 64 b)" for a b :: int
    using take_bit_add [of 32 a b] take_bit_add [of 32 "take_bit 64 a" "take_bit 64 b"] by simp
  then show ?thesis by transfer simp
qed

lemma in_range_ucast:
  assumes "in_range (ucast (b :: u32)) n (ucast (a :: u32))" obtains j where "j < n" "a = b + of_nat j"
proof -
  obtain j where j: "j < n" "(ucast a :: u64) = ucast b + of_nat j" using assms by (rule in_rangeE)
  have "(ucast (ucast x :: u64) :: u32) = x" for x
    by (rule bit_word_eqI) (auto simp: bit_simps)
  then have "a = b + ucast (of_nat j :: u64)" using arg_cong [OF j(2), of "ucast :: u64 \<Rightarrow> u32"] by (simp add: ucast_add_low)
  moreover have "(ucast (of_nat j :: u64) :: u32) = of_nat j" by (rule bit_word_eqI) (auto simp: bit_simps)
  ultimately show thesis using that j(1) by simp
qed

text \<open>The pushed words, read as two 64-bit values, and what the pushes leave alone.\<close>

lemma stack_slots:
  assumes "16 \<le> unat (stack_top L)" "k \<le> 16"
  shows "unat (ucast (stack_top L - of_nat k) :: u64) = unat (stack_top L) - k"
proof -
  have "unat (of_nat k :: u32) = k" using assms(2) by (simp add: unat_of_nat_32)
  then have "unat (stack_top L - of_nat k) = unat (stack_top L) - k"
    using assms by (subst unat_sub) (simp_all add: word_le_nat_alt)
  then show ?thesis by (simp only: unat_ucast_32_64)
qed

lemma boot_pushes_frame:
  assumes "\<And>j. j < 16 \<Longrightarrow> a \<noteq> stack_top L - 16 + of_nat j"
  shows "bmem (boot_pushes L eax ebx s) (ucast a) = bmem s (ucast a)"
proof -
  have out: "\<not> in_range (ucast (stack_top L - 16 + of_nat k)) 4 (ucast a)" if "k \<le> 12" for k
  proof
    assume "in_range (ucast (stack_top L - 16 + of_nat k)) 4 (ucast a)"
    then obtain j where "j < 4" "a = stack_top L - 16 + of_nat (k + j)" by (rule in_range_ucast) (simp add: add.assoc)
    then show False using assms [of "k + j"] that by simp
  qed
  show ?thesis using out [of 0] out [of 4] out [of 8] out [of 12] by (simp add: boot_pushes_state store32_apply)
qed

lemma boot_pushes_words:
  assumes "16 \<le> unat (stack_top L)"
  shows "load64 (bmem (boot_pushes L eax ebx s)) (ucast (stack_top L - 16)) = ucast ebx"
    and "load64 (bmem (boot_pushes L eax ebx s)) (ucast (stack_top L - 16) + 8) = ucast eax"
proof -
  let ?S = "ucast (stack_top L - 16) :: u64"
  note u = stack_slots [OF assms, of 16] stack_slots [OF assms, of 12] stack_slots [OF assms, of 8] stack_slots [OF assms, of 4]
  have lt: "unat (stack_top L) < 2 ^ 32" using unsigned_less [of "stack_top L"] by simp
  have S: "unat (?S + of_nat k) = unat (stack_top L) - 16 + k" if "k \<le> 12" for k
    using that lt u(1) by (simp add: unat_word_ariths(1))
  have slots: "(ucast (stack_top L - 12) :: u64) = ?S + of_nat 4" "(ucast (stack_top L - 8) :: u64) = ?S + of_nat 8"
      "(ucast (stack_top L - 4) :: u64) = ?S + of_nat 12"
    using S [of 4] S [of 8] S [of 12] u assms by (simp_all only: word_unat_eq_iff) simp_all
  have high: "store32 m (p + of_nat 4) 0 (p + of_nat k) = 0" if "4 \<le> k" "k < 8" for m p k
  proof -
    have "in_range (p + of_nat 4) 4 (p + of_nat 4 + of_nat (k - 4))" using that by (subst in_range_add) simp_all
    moreover have "p + of_nat 4 + of_nat (k - 4) = p + of_nat k" using that by (simp add: of_nat_diff)
    ultimately show ?thesis by (simp only: store32_apply) simp
  qed
  have P: "bmem (boot_pushes L eax ebx s) =
      store32 (store32 (store32 (store32 (bmem s) (?S + of_nat 12) 0) (?S + of_nat 8) eax) (?S + of_nat 4) 0) ?S ebx"
    by (simp only: boot_pushes_state slots) simp
  show "load64 (bmem (boot_pushes L eax ebx s)) ?S = ucast ebx" unfolding P by (intro load64_low high)
  have below: "load64 (store32 m (?S + of_nat k) v) (?S + of_nat 8) = load64 m (?S + of_nat 8)" if "k \<le> 4" for m k v
    using that S [of k] S [of 8] lt assms by (intro load64_store32_other) auto
  have "?S + of_nat 12 = ?S + of_nat 8 + of_nat 4" by simp
  then have "load64 (bmem (boot_pushes L eax ebx s)) (?S + of_nat 8) =
      load64 (store32 (store32 (bmem s) (?S + of_nat 8 + of_nat 4) 0) (?S + of_nat 8) eax) (?S + of_nat 8)"
    unfolding P using below [of 4] below [of 0] by (simp add: add.commute)
  also have "\<dots> = ucast eax" by (intro load64_low high)
  finally show "load64 (bmem (boot_pushes L eax ebx s)) (?S + 8) = ucast eax" by simp
qed

lemma boot_pushes_zero:
  assumes "zero_in (bmem s) p n" "16 \<le> unat (stack_top L)" "unat p + n \<le> 2 ^ 64"
    and "unat (stack_top L) \<le> unat p \<or> unat p + n \<le> unat (stack_top L) - 16"
  shows "zero_in (bmem (boot_pushes L eax ebx s)) p n"
proof -
  note u = stack_slots [OF assms(2), of 16] stack_slots [OF assms(2), of 12] stack_slots [OF assms(2), of 8]
    stack_slots [OF assms(2), of 4]
  have lt: "unat (stack_top L) < 2 ^ 32" using unsigned_less [of "stack_top L"] by simp
  have "zero_in (store32 m (ucast (stack_top L - of_nat k)) v) p n" if "zero_in m p n" "k \<le> 16" "4 \<le> k" for m k v
    using that assms(2-4) lt stack_slots [OF assms(2), of k] by (intro zero_in_store32) auto
  from this [of _ 16] this [of _ 12] this [of _ 8] this [of _ 4] show ?thesis
    using assms(1) by (simp add: boot_pushes_state)
qed

section \<open>Properties\<close>

lemma boot_start_pushes:
  "boot_start L C eax ebx edx s =
     (let s = boot_pushes L eax ebx s
      in case boot_checks L C eax edx of
           Some (msg, edx) \<Rightarrow> (case boot_error L msg edx s of None \<Rightarrow> None | Some s \<Rightarrow> Some (Halts, s))
         | None \<Rightarrow>
             let s = s\<lparr>bmem := setup_page_tables L (snd (cpuid C 0x80000001)) (bmem s)\<rparr>;
                 s = enable_paging L s;
                 s = s\<lparr>gdt_limit := GDTR_size, gdt_base := gdt_at L\<rparr>;
                 s = s\<lparr>segs := (segs s)\<lparr>seg_cs := 0x08\<rparr>\<rparr>
             in Some (long_mode_start s))"
  by (simp add: boot_start_def boot_pushes_def Let_def)

text \<open>The segment registers \<open>kmain\<close> starts with.\<close>

definition kernel_segments :: segments where
  "kernel_segments = \<lparr>seg_cs = 0x08, seg_ds = 0x10, seg_es = 0x10, seg_fs = 0x10, seg_gs = 0x10, seg_ss = 0x10\<rparr>"

lemma long_mode_start_fields:
  assumes "long_mode_start s = (e, t)" "seg_cs (segs s) = 0x08"
  shows "e = Calls_kmain (load64 (bmem s) (ucast (esp s))) (load64 (bmem s) (ucast (esp s) + 8))"
    "bmem t = bmem s" "cr0 t = cr0 s" "cr3 t = cr3 s" "cr4 t = cr4 s" "efer t = efer s"
    "gdt_limit t = gdt_limit s" "gdt_base t = gdt_base s" "segs t = kernel_segments"
    "esp t = ucast (ucast (esp s) + 16 :: u64)"
proof -
  have et: "e = Calls_kmain (load64 (bmem s) (ucast (esp s))) (load64 (bmem s) (ucast (esp s) + 8))"
    "t = s\<lparr>segs := (segs s)\<lparr>seg_ss := 0x10, seg_ds := 0x10, seg_es := 0x10, seg_fs := 0x10, seg_gs := 0x10\<rparr>,
       esp := ucast (ucast (esp s) + 8 + 8 :: u64)\<rparr>"
    using assms(1) by (simp_all add: long_mode_start_def Let_def)
  show "e = Calls_kmain (load64 (bmem s) (ucast (esp s))) (load64 (bmem s) (ucast (esp s) + 8))" by (fact et(1))
  show "bmem t = bmem s" "cr0 t = cr0 s" "cr3 t = cr3 s" "cr4 t = cr4 s" "efer t = efer s"
    "gdt_limit t = gdt_limit s" "gdt_base t = gdt_base s" "esp t = ucast (ucast (esp s) + 16 :: u64)"
    by (simp_all add: et(2) add.assoc)
  show "segs t = kernel_segments"
    using assms(2) by (cases "segs s") (simp add: et(2) kernel_segments_def)
qed

text \<open>The state behind passed checks.\<close>

lemma boot_start_passes:
  assumes "boot_checks L C eax edx = None"
    and "take_bit 12 (initial_page_tables L) = 0" "unat (initial_page_tables L) + 0x3000 < 2 ^ 32"
    and "zero_in (bmem s) (ucast (initial_page_tables L)) 0x3000"
    and "16 \<le> unat (stack_top L)"
    and "unat (stack_top L) \<le> unat (initial_page_tables L) \<or> unat (initial_page_tables L) + 0x3000 \<le> unat (stack_top L) - 16"
  shows "\<exists>t. boot_start L C eax ebx edx s = Some (Calls_kmain (ucast ebx) 0x36d76289, t) \<and>
    bmem t = setup_page_tables L (snd (cpuid C 0x80000001)) (bmem (boot_pushes L eax ebx s)) \<and>
    cr3 t = initial_page_tables L \<and> bit (cr0 t) 31 \<and> bit (cr4 t) 5 \<and> bit (efer t) 8 \<and>
    segs t = kernel_segments \<and> gdt_limit t = GDTR_size \<and> gdt_base t = gdt_at L \<and> esp t = stack_top L \<and>
    (\<forall>va. unat va < 2 ^ 26 \<longrightarrow> hw_walk (load64 (bmem t)) 4 (ucast (cr3 t)) va = Inr (take_bit 21 va)) \<and>
    (\<forall>va. 2 ^ 26 \<le> unat va \<and> unat va < 2 ^ 48 \<longrightarrow> (\<exists>l. hw_walk (load64 (bmem t)) 4 (ucast (cr3 t)) va = Inl l))"
proof -
  let ?T = "initial_page_tables L" and ?S = "ucast (stack_top L - 16) :: u64"
  define p where "p = boot_pushes L eax ebx s"
  define m where "m = setup_page_tables L (snd (cpuid C 0x80000001)) (bmem p)"
  let ?q = "enable_paging L (p\<lparr>bmem := m\<rparr>)"
  let ?r = "?q\<lparr>gdt_limit := GDTR_size, gdt_base := gdt_at L, segs := (segs ?q)\<lparr>seg_cs := 0x08\<rparr>\<rparr>"
  obtain e t where et: "long_mode_start ?r = (e, t)" by fastforce
  have magic: "eax = 0x36d76289"
    using assms(1) by (auto simp: boot_checks_def multiboot_check_def split: if_splits)
  have lt: "unat (stack_top L) < 2 ^ 32" using unsigned_less [of "stack_top L"] by simp
  have "zero_in (bmem p) (ucast ?T) 0x3000" unfolding p_def using assms(3-6) by (intro boot_pushes_zero) auto
  note entries = setup_page_tables_entries [OF assms(3) this, of _ "snd (cpuid C 0x80000001)", folded m_def]
  note walk = boot_walk [of ?T "load64 m", OF assms(2,3) entries(1)]
  have S: "unat ?S = unat (stack_top L) - 16" using stack_slots [OF assms(5), of 16] by simp
  then have S8: "unat (?S + 8) = unat (stack_top L) - 8" using lt assms(5) by (simp add: unat_word_ariths(1))
  have "load64 m ?S = load64 (bmem p) ?S"
    by (rule entries(2)) (use assms(5,6) lt in \<open>unfold S, auto\<close>)
  moreover have "load64 m (?S + 8) = load64 (bmem p) (?S + 8)"
    by (rule entries(2)) (use assms(5,6) lt in \<open>unfold S8, auto\<close>)
  ultimately have words: "load64 m ?S = ucast ebx" "load64 m (?S + 8) = 0x36d76289"
    unfolding p_def using boot_pushes_words [OF assms(5), of eax ebx s] by (simp_all add: magic)
  have q: "bmem ?r = m" "cr3 ?r = ?T" "bit (cr0 ?r) 31" "bit (cr4 ?r) 5" "bit (efer ?r) 8" "esp ?r = stack_top L - 16"
    by (simp_all add: enable_paging_def Let_def bit_simps p_def boot_pushes_state)
  note f = long_mode_start_fields [OF et, simplified q]
  have "unat (stack_top L - 16) + 16 = unat (stack_top L)" using stack_slots [OF assms(5), of 16] assms(5) by simp
  then have "unat (?S + of_nat 16) = unat (stack_top L)" using table_offset(3) [of "stack_top L - 16" 16] lt by simp
  then have "unat (ucast (?S + 16) :: u32) = unat (stack_top L)"
    using lt by (simp add: unsigned_ucast_eq take_bit_nat_eq_self)
  then have top: "ucast (?S + 16) = stack_top L" by (simp only: word_unat_eq_iff)
  have t: "bmem t = m" "cr3 t = ?T" "bit (cr0 t) 31" "bit (cr4 t) 5" "bit (efer t) 8" "segs t = kernel_segments"
      "gdt_limit t = GDTR_size" "gdt_base t = gdt_at L" "esp t = stack_top L" "e = Calls_kmain (ucast ebx) 0x36d76289"
    using f q words top by simp_all
  have "boot_start L C eax ebx edx s = Some (Calls_kmain (ucast ebx) 0x36d76289, t)"
    using assms(1) et t(10) by (simp add: boot_start_pushes Let_def p_def m_def)
  then show ?thesis using t(1-9) walk by (intro exI [of _ t]) (simp add: m_def p_def)
qed

text \<open>
  C14: Behind passed checks \<open>kmain\<close> is called with the zero-extended address of the Multiboot information
  and the magic number; long mode and paging are on with the first page tables in use, the kernel's
  descriptor table is loaded, the code segment register holds 0x08 and all others 0x10, and the stack
  is empty again.  The tables map every
  address below 64 MiB onto the first 2 MiB of memory and nothing else below \<open>2 ^ 48\<close>: the loop of
  \<open>setup_page_tables\<close> adds to \<open>edx\<close>, not to the \<open>ebx\<close> that it stores, so 32 entries are equal.
\<close>

theorem boot_enters_kmain:
  assumes "boot_checks L C eax edx = None"
    and "take_bit 12 (initial_page_tables L) = 0" "unat (initial_page_tables L) + 0x3000 < 2 ^ 32"
    and "zero_in (bmem s) (ucast (initial_page_tables L)) 0x3000"
    and "16 \<le> unat (stack_top L)"
    and "unat (stack_top L) \<le> unat (initial_page_tables L) \<or> unat (initial_page_tables L) + 0x3000 \<le> unat (stack_top L) - 16"
  shows "\<exists>t. boot_start L C eax ebx edx s = Some (Calls_kmain (ucast ebx) 0x36d76289, t) \<and>
    cr3 t = initial_page_tables L \<and> bit (cr0 t) 31 \<and> bit (cr4 t) 5 \<and> bit (efer t) 8 \<and>
    segs t = kernel_segments \<and> gdt_limit t = GDTR_size \<and> gdt_base t = gdt_at L \<and> esp t = stack_top L \<and>
    (\<forall>va. unat va < 2 ^ 26 \<longrightarrow> hw_walk (load64 (bmem t)) 4 (ucast (cr3 t)) va = Inr (take_bit 21 va)) \<and>
    (\<forall>va. 2 ^ 26 \<le> unat va \<and> unat va < 2 ^ 48 \<longrightarrow> (\<exists>l. hw_walk (load64 (bmem t)) 4 (ucast (cr3 t)) va = Inl l))"
  using boot_start_passes [OF assms] by blast

text \<open>A machine with the image at 1 MiB.\<close>

definition sample_boot_layout :: boot_layout where
  "sample_boot_layout = \<lparr>initial_page_tables = 0x120000, stack_top = 0x118000, gdt_at = 0x104000, err_prefix = 0x110000,
     no_multiboot_err = 0x110010, no_cpuid_err = 0x110040, no_long_supported_err = 0x110070\<rparr>"

definition sample_processor :: boot_cpu where
  "sample_processor = \<lparr>cpuid = (\<lambda>eax. if eax = 0x80000000 then (0x80000008, 0) else (0, 0x2C100800)),
     set_flags = id, eflags = 2\<rparr>"

definition sample_boot :: "mem \<Rightarrow> boot_machine" where
  "sample_boot m = \<lparr>bmem = m, boot_color = 0, cursor_dl = 0, cursor_dh = 0, esp = 0, gdt_limit = 0x27, gdt_base = 0x8000,
     segs = \<lparr>seg_cs = 0x10, seg_ds = 0x18, seg_es = 0x18, seg_fs = 0x18, seg_gs = 0x18, seg_ss = 0x18\<rparr>,
     cr0 = 0x11, cr3 = 0, cr4 = 0, efer = 0\<rparr>"

lemmas sample_boot_defs = sample_boot_layout_def sample_processor_def sample_boot_def

theorem boot_enters_kmain_witness:
  "\<exists>t. boot_start sample_boot_layout sample_processor 0x36d76289 0x9500 0 (sample_boot (\<lambda>_. 0)) = Some (Calls_kmain 0x9500 0x36d76289, t) \<and>
     hw_walk (load64 (bmem t)) 4 (ucast (cr3 t)) 0x201234 = Inr 0x1234 \<and> segs t = kernel_segments"
proof -
  have "boot_checks sample_boot_layout sample_processor 0x36d76289 0 = None"
    by (simp add: boot_checks_def multiboot_check_def cpuid_check_def long_supported_check_def Let_def sample_boot_defs)
  from boot_enters_kmain [where s = "sample_boot (\<lambda>_. 0)" and ebx = "0x9500", OF this]
  obtain t where t: "boot_start sample_boot_layout sample_processor 0x36d76289 0x9500 0 (sample_boot (\<lambda>_. 0)) =
      Some (Calls_kmain 0x9500 0x36d76289, t)" "segs t = kernel_segments"
    "\<forall>va. unat va < 2 ^ 26 \<longrightarrow> hw_walk (load64 (bmem t)) 4 (ucast (cr3 t)) va = Inr (take_bit 21 va)"
    by (auto simp: sample_boot_defs zero_in_def)
  have "take_bit 21 (0x201234 :: u64) = 0x1234" by simp
  then show ?thesis using t(1,2) t(3) [rule_format, of "0x201234"] by (intro exI [of _ t]) simp
qed

subsection \<open>The error path\<close>

definition off_stack :: "boot_layout \<Rightarrow> u32 \<Rightarrow> nat \<Rightarrow> bool" where
  "off_stack L a n \<longleftrightarrow> (\<forall>k \<le> n. \<forall>j < 16. a + of_nat k \<noteq> stack_top L - 16 + of_nat j)"

definition err_prefix_text :: "u8 list" where
  "err_prefix_text = map of_char ''[ERR]: ''"

lemma err_prefix_text [simp]: "length err_prefix_text = 7" "0x0A \<notin> set err_prefix_text" "err_prefix_text \<noteq> []"
  by (simp_all add: err_prefix_text_def)

lemma set_low16_base [simp]: "boot_base (set_low16 edx v) = boot_base edx"
proof -
  have m: "(0xFFFF0000 :: u32) = NOT (mask 16)" by (simp add: mask_eq_exp_minus_1)
  have "set_low16 edx v AND 0xFFFF0000 = edx AND 0xFFFF0000"
    unfolding set_low16_def m by (rule bit_word_eqI) (auto simp: bit_simps dest: bit_imp_le_length)
  then show ?thesis by (simp add: boot_base_def)
qed

text \<open>One of the two lines of \<open>error\<close>: the colour, then the string.\<close>

lemma print_in_colour:
  assumes "boot_string (bmem s) a bs" "bs \<noteq> []" "0x0A \<notin> set bs" "cursor_dl s = 0" "cursor_dh s = of_nat x"
    and "x + length bs < 80" "off_screen edx a (length bs)"
  shows "on_screen (\<lambda>t. protected_vga_print edx a (protected_vga_set_color 0 c t)) s = Some
    (s\<lparr>bmem := put_cells (boot_base edx + of_nat (2 * x)) c bs (bmem s), boot_color := c, cursor_dh := of_nat (x + length bs)\<rparr>)"
proof -
  let ?t = "protected_vga_set_color 0 c (boot_screen.truncate s)"
  have t: "bmem ?t = bmem s" "cursor_dl ?t = 0" "cursor_dh ?t = of_nat x" "boot_color ?t = c"
    using assms(4,5) by (simp_all add: protected_vga_set_color_def boot_screen.truncate_def)
  have "protected_vga_print edx a ?t = Some (?t\<lparr>bmem := put_cells (boot_base edx + of_nat (2 * x)) c bs (bmem s),
      cursor_dh := of_nat (x + length bs)\<rparr>)"
    using protected_vga_print_string [of ?t a bs x edx] assms unfolding t by simp
  then show ?thesis using t(2) assms(4) by (simp add: on_screen_def t(4))
qed

lemma off_screen_base: "boot_base e = boot_base e' \<Longrightarrow> off_screen e a n = off_screen e' a n"
  by (simp add: off_screen_def)

lemma off_screenD: "off_screen e a n \<Longrightarrow> k \<le> n \<Longrightarrow> j < 160 \<Longrightarrow> boot_base e + of_nat j \<noteq> a + of_nat k"
  unfolding off_screen_def by metis

lemma boot_error_text:
  assumes "boot_string (bmem s) (err_prefix L) err_prefix_text" "off_screen edx (err_prefix L) 7"
    and "boot_string (bmem s) msg bs" "off_screen edx msg (length bs)"
    and "bs \<noteq> []" "0x0A \<notin> set bs" "length bs < 73" "cursor_dl s = 0" "cursor_dh s = 0"
  shows "\<exists>t. boot_error L msg edx s = Some t \<and>
    bmem t = put_cells (boot_base edx + 14) 0xF bs (put_cells (boot_base edx) 0x4 err_prefix_text (bmem s))"
proof -
  let ?m = "put_cells (boot_base edx) 0x4 err_prefix_text (bmem s)"
  let ?s = "s\<lparr>bmem := ?m, boot_color := 0x4, cursor_dh := 7\<rparr>"
  define e where "e = set_low16 edx 0x0404"
  define e' where "e' = set_low16 e 0x0F0F"
  have b: "boot_base e = boot_base edx" "boot_base e' = boot_base edx" by (simp_all add: e_def e'_def)
  have 1: "on_screen (\<lambda>t. protected_vga_print e (err_prefix L) (protected_vga_set_color 0 0x4 t)) s = Some ?s"
    using print_in_colour [of s "err_prefix L" err_prefix_text 0 e] assms off_screen_base [OF b(1)] by (simp add: b)
  have "boot_string (bmem ?s) msg bs"
  proof (rule boot_string_cong [OF assms(3)], intro allI impI)
    fix k assume k: "k \<le> length bs"
    have "\<forall>i < 2 * length err_prefix_text. boot_base edx + of_nat i \<noteq> msg + of_nat k"
      using off_screenD [OF assms(4) k] by simp
    then show "bmem ?s (ucast (msg + of_nat k)) = bmem s (ucast (msg + of_nat k))" by (simp add: put_cells_below)
  qed
  then obtain t where "on_screen (\<lambda>t. protected_vga_print e' msg (protected_vga_set_color 0 0xF t)) ?s = Some t"
      "bmem t = put_cells (boot_base edx + 14) 0xF bs ?m"
    using print_in_colour [of ?s msg bs 7 e'] assms off_screen_base [OF b(2)] by (simp add: b)
  then show ?thesis using 1 by (simp add: boot_error_def Let_def e_def e'_def)
qed

text \<open>The row after the two lines of \<open>error\<close>, and the cells beside it.\<close>

lemma error_row:
  assumes "length bs < 73" and m'_def: "m' = put_cells (b + 14) 0xF bs (put_cells b 0x4 err_prefix_text m)"
  shows "i < 7 \<Longrightarrow> m' (ucast (b + of_nat (2 * i))) = err_prefix_text ! i \<and> m' (ucast (b + of_nat (2 * i + 1))) = 0x04"
    and "i < length bs \<Longrightarrow>
      m' (ucast (b + 14 + of_nat (2 * i))) = bs ! i \<and> m' (ucast (b + 14 + of_nat (2 * i + 1))) = 0x0F"
    and "\<forall>j < 14 + 2 * length bs. a \<noteq> b + of_nat j \<Longrightarrow> m' (ucast a) = m (ucast a)"
proof -
  let ?m = "put_cells b 0x4 err_prefix_text m"
  have second: "m' (ucast (b + 14 + of_nat i)) = (if even i then bs ! (i div 2) else 0xF)" if "i < 2 * length bs" for i
    unfolding m'_def using that assms(1) by (intro put_cells_at) simp_all
  have first: "m' (ucast (b + of_nat i)) = (if even i then err_prefix_text ! (i div 2) else 0x4)" if "i < 14" for i
  proof -
    have "b + 14 + of_nat k \<noteq> b + of_nat i" if "k < 2 * length bs" for k
    proof
      assume "b + 14 + of_nat k = b + of_nat i"
      then have "(of_nat (14 + k) :: u32) = of_nat i" by (simp add: add.assoc)
      then have "unat (of_nat (14 + k) :: u32) = unat (of_nat i :: u32)" by (rule arg_cong)
      moreover have "14 + k < 2 ^ 32" "i < 2 ^ 32" using \<open>i < 14\<close> that assms(1) by auto
      ultimately show False using \<open>i < 14\<close> by (simp only: unat_of_nat_32)
    qed
    then have "m' (ucast (b + of_nat i)) = ?m (ucast (b + of_nat i))" unfolding m'_def by (intro put_cells_below) simp
    also have "\<dots> = (if even i then err_prefix_text ! (i div 2) else 0x4)" using that by (intro put_cells_at) simp_all
    finally show ?thesis .
  qed
  show "m' (ucast (b + of_nat (2 * i))) = err_prefix_text ! i \<and> m' (ucast (b + of_nat (2 * i + 1))) = 0x04" if "i < 7"
    using first [of "2 * i"] first [of "2 * i + 1"] that by simp
  show "m' (ucast (b + 14 + of_nat (2 * i))) = bs ! i \<and> m' (ucast (b + 14 + of_nat (2 * i + 1))) = 0x0F" if "i < length bs"
    using second [of "2 * i"] second [of "2 * i + 1"] that by simp
  assume out: "\<forall>j < 14 + 2 * length bs. a \<noteq> b + of_nat j"
  have "b + 14 + of_nat k \<noteq> a" if "k < 2 * length bs" for k
    using out [rule_format, of "14 + k"] that by (auto simp: add.assoc)
  moreover have "b + of_nat k \<noteq> a" if "k < 14" for k using out [rule_format, of k] that by auto
  ultimately show "m' (ucast a) = m (ucast a)" unfolding m'_def by (simp add: put_cells_below)
qed

text \<open>
  C32: A check that fails shows \<open>[ERR]: \<close> in red and its message in white, the two behind each other in
  one row of cells from \<open>boot_base edx\<close> on, writes nothing else besides the stack, and halts.  The row is
  the first of the screen only when the upper half of \<open>edx\<close> is 0; \<open>cpuid\<close> or the boot loader may leave
  something else there, and then the message is invisible.
\<close>

theorem boot_error_shown:
  assumes "boot_checks L C eax edx\<^sub>0 = Some (msg, edx)"
    and "boot_string (bmem s) (err_prefix L) err_prefix_text" "boot_string (bmem s) msg bs"
    and "off_stack L (err_prefix L) 7" "off_stack L msg (length bs)"
    and "off_screen edx (err_prefix L) 7" "off_screen edx msg (length bs)"
    and "bs \<noteq> []" "0x0A \<notin> set bs" "length bs < 73" "cursor_dl s = 0" "cursor_dh s = 0"
  shows "\<exists>t. boot_start L C eax ebx edx\<^sub>0 s = Some (Halts, t) \<and>
    (\<forall>i < 7. bmem t (ucast (boot_base edx + of_nat (2 * i))) = err_prefix_text ! i \<and>
             bmem t (ucast (boot_base edx + of_nat (2 * i + 1))) = 0x04) \<and>
    (\<forall>i < length bs. bmem t (ucast (boot_base edx + 14 + of_nat (2 * i))) = bs ! i \<and>
             bmem t (ucast (boot_base edx + 14 + of_nat (2 * i + 1))) = 0x0F) \<and>
    (\<forall>a. (\<forall>j < 14 + 2 * length bs. a \<noteq> boot_base edx + of_nat j) \<and> (\<forall>j < 16. a \<noteq> stack_top L - 16 + of_nat j) \<longrightarrow>
       bmem t (ucast a) = bmem s (ucast a))"
proof -
  let ?B = "boot_base edx"
  define p where "p = boot_pushes L eax ebx s"
  have frame: "bmem p (ucast a) = bmem s (ucast a)" if "\<forall>j < 16. a \<noteq> stack_top L - 16 + of_nat j" for a
    unfolding p_def using that by (intro boot_pushes_frame) simp
  have "boot_string (bmem p) a cs" if "boot_string (bmem s) a cs" "off_stack L a (length cs)" for a cs
    by (rule boot_string_cong [OF that(1)]) (use that(2) in \<open>simp add: frame off_stack_def\<close>)
  then have strings: "boot_string (bmem p) (err_prefix L) err_prefix_text" "boot_string (bmem p) msg bs"
    using assms(2-5) by simp_all
  let ?m = "put_cells ?B 0x4 err_prefix_text (bmem p)"
  have "cursor_dl p = 0" "cursor_dh p = 0" using assms(11,12) by (simp_all add: p_def boot_pushes_state)
  then obtain t where t: "boot_error L msg edx p = Some t" "bmem t = put_cells (?B + 14) 0xF bs ?m"
    using boot_error_text [OF strings(1) assms(6) strings(2) assms(7-10)] by blast
  have start: "boot_start L C eax ebx edx\<^sub>0 s = Some (Halts, t)"
    using assms(1) t(1) by (simp add: boot_start_pushes p_def Let_def)
  note row = error_row [OF assms(10) t(2)]
  have "bmem t (ucast a) = bmem s (ucast a)"
    if "\<forall>j < 14 + 2 * length bs. a \<noteq> ?B + of_nat j" "\<forall>j < 16. a \<noteq> stack_top L - 16 + of_nat j" for a
    using row(3) [OF that(1)] frame [OF that(2)] by simp
  then show ?thesis using start row(1,2) by (intro exI [of _ t]) blast
qed

text \<open>A processor without long mode, whose \<open>edx\<close> has bit 20 set: the text lands 1 MiB above the screen.\<close>

lemma boot_string_bytes:
  assumes "\<And>k. k < length bs \<Longrightarrow> m (ucast (a + of_nat k)) = bs ! k \<and> bs ! k \<noteq> 0" "m (ucast (a + of_nat (length bs))) = 0"
  shows "boot_string m a bs"
  using assms
proof (induction bs arbitrary: a)
  case (Cons b bs)
  have "boot_string m (a + 1) bs"
  proof (rule Cons.IH)
    show "m (ucast (a + 1 + of_nat k)) = bs ! k \<and> bs ! k \<noteq> 0" if "k < length bs" for k
      using Cons.prems(1) [of "Suc k"] that by (simp add: algebra_simps)
    show "m (ucast (a + 1 + of_nat (length bs))) = 0" using Cons.prems(2) by (simp add: algebra_simps)
  qed
  then show ?case using Cons.prems(1) [of 0] by simp
qed simp

lemma apart32:
  assumes "unat (a :: u32) + n < unat b" "unat b + j < 2 ^ 32" "k \<le> n"
  shows "a + of_nat k \<noteq> b + of_nat j" "b + of_nat j \<noteq> a + of_nat k"
proof -
  have "unat (a + of_nat k) = unat a + k" "unat (b + of_nat j) = unat b + j"
    using table_offset(1) [of a k] table_offset(1) [of b j] assms by auto
  then show "a + of_nat k \<noteq> b + of_nat j" "b + of_nat j \<noteq> a + of_nat k" using assms(1,3) by auto
qed

lemma off_below:
  shows "unat a + n < unat (stack_top L - 16) \<Longrightarrow> unat (stack_top L - 16) + 16 < 2 ^ 32 \<Longrightarrow> off_stack L a n"
    and "unat a + n < unat (boot_base e) \<Longrightarrow> unat (boot_base e) + 160 < 2 ^ 32 \<Longrightarrow> off_screen e a n"
  unfolding off_stack_def off_screen_def by (intro allI impI apart32(1) [of a n], simp_all)+

definition long_mode_text :: "u8 list" where
  "long_mode_text = map of_char ''long mode is not supported by the processor''"

definition sample_rodata :: mem where
  "sample_rodata x =
     (let bs = (if x < 0x110070 then err_prefix_text else long_mode_text);
          i = unat x - (if x < 0x110070 then 0x110000 else 0x110070)
      in if i < length bs then bs ! i else 0)"

definition sample_old_processor :: boot_cpu where
  "sample_old_processor = sample_processor\<lparr>cpuid := \<lambda>eax. if eax = 0x80000000 then (0x80000008, 0) else (0, 0x00100800)\<rparr>"

lemma sample_rodata_strings:
  "boot_string sample_rodata 0x110000 err_prefix_text" "boot_string sample_rodata 0x110070 long_mode_text"
proof -
  have nz: "\<forall>b \<in> set err_prefix_text. b \<noteq> 0" "\<forall>b \<in> set long_mode_text. b \<noteq> 0" and len: "length long_mode_text = 43"
    by (simp_all add: err_prefix_text_def long_mode_text_def)
  have lo: "unat (ucast (0x110000 + of_nat k :: u32) :: u64) = 0x110000 + k" if "k \<le> 7" for k
    using table_offset(1) [of "0x110000" k] that by (simp only: unat_ucast_32_64) simp
  have hi: "unat (ucast (0x110070 + of_nat k :: u32) :: u64) = 0x110070 + k" if "k \<le> 43" for k
    using table_offset(1) [of "0x110070" k] that by (simp only: unat_ucast_32_64) simp
  show "boot_string sample_rodata 0x110000 err_prefix_text"
    by (rule boot_string_bytes) (use nz(1) in \<open>simp_all add: sample_rodata_def Let_def word_less_nat_alt lo del: unat_ucast_32_64\<close>)
  show "boot_string sample_rodata 0x110070 long_mode_text"
    by (rule boot_string_bytes) (use nz(2) in \<open>simp_all add: sample_rodata_def Let_def word_less_nat_alt hi len del: unat_ucast_32_64\<close>)
qed

theorem boot_error_shown_witness:
  "\<exists>t. boot_start sample_boot_layout sample_old_processor 0x36d76289 0x9500 0 (sample_boot sample_rodata) = Some (Halts, t) \<and>
     bmem t 0x1B8000 = of_char (CHR ''['') \<and> bmem t 0x1B8001 = 0x04 \<and> bmem t 0xB8000 = sample_rodata 0xB8000"
proof -
  let ?s = "sample_boot sample_rodata"
  have b: "boot_base 0x00100800 = 0x1B8000" by (simp add: boot_base_def)
  have len: "length long_mode_text = 43" "long_mode_text \<noteq> []" "0x0A \<notin> set long_mode_text"
    by (simp_all add: long_mode_text_def)
  have c: "boot_checks sample_boot_layout sample_old_processor 0x36d76289 0 = Some (0x110070, 0x00100800)"
    by (simp add: boot_checks_def multiboot_check_def cpuid_check_def long_supported_check_def Let_def sample_boot_defs
        sample_old_processor_def)
  have "\<exists>t. boot_start sample_boot_layout sample_old_processor 0x36d76289 0x9500 0 ?s = Some (Halts, t) \<and>
    (\<forall>i < 7. bmem t (ucast (boot_base 0x00100800 + of_nat (2 * i))) = err_prefix_text ! i \<and>
             bmem t (ucast (boot_base 0x00100800 + of_nat (2 * i + 1))) = 0x04) \<and>
    (\<forall>i < length long_mode_text. bmem t (ucast (boot_base 0x00100800 + 14 + of_nat (2 * i))) = long_mode_text ! i \<and>
             bmem t (ucast (boot_base 0x00100800 + 14 + of_nat (2 * i + 1))) = 0x0F) \<and>
    (\<forall>a. (\<forall>j < 14 + 2 * length long_mode_text. a \<noteq> boot_base 0x00100800 + of_nat j) \<and>
         (\<forall>j < 16. a \<noteq> stack_top sample_boot_layout - 16 + of_nat j) \<longrightarrow> bmem t (ucast a) = bmem ?s (ucast a))"
  proof (rule boot_error_shown [OF c])
    show "boot_string (bmem ?s) (err_prefix sample_boot_layout) err_prefix_text" "boot_string (bmem ?s) 0x110070 long_mode_text"
      using sample_rodata_strings by (simp_all add: sample_boot_defs)
    show "off_stack sample_boot_layout (err_prefix sample_boot_layout) 7" "off_stack sample_boot_layout 0x110070 (length long_mode_text)"
      by (rule off_below(1); simp add: sample_boot_defs len)+
    show "off_screen 0x00100800 (err_prefix sample_boot_layout) 7" "off_screen 0x00100800 0x110070 (length long_mode_text)"
      by (rule off_below(2); simp add: sample_boot_defs len b)+
  qed (use len in \<open>simp_all add: sample_boot_def\<close>)
  then obtain t where t: "boot_start sample_boot_layout sample_old_processor 0x36d76289 0x9500 0 ?s = Some (Halts, t)"
    "\<forall>i < 7. bmem t (ucast (boot_base 0x00100800 + of_nat (2 * i))) = err_prefix_text ! i \<and>
             bmem t (ucast (boot_base 0x00100800 + of_nat (2 * i + 1))) = 0x04"
    "\<forall>a. (\<forall>j < 14 + 2 * length long_mode_text. a \<noteq> boot_base 0x00100800 + of_nat j) \<and>
         (\<forall>j < 16. a \<noteq> stack_top sample_boot_layout - 16 + of_nat j) \<longrightarrow> bmem t (ucast a) = bmem ?s (ucast a)"
    by blast
  have "0xB8000 \<noteq> boot_base 0x00100800 + of_nat j" if "j < 14 + 2 * length long_mode_text" for j
    using apart32(1) [of "0xB8000" 0 "0x1B8000" j 0] that by (simp add: b len)
  moreover have "0xB8000 \<noteq> stack_top sample_boot_layout - 16 + of_nat j" if "j < 16" for j
    using apart32(1) [of "0xB8000" 0 "0x117FF0" j 0] that by (simp add: sample_boot_layout_def)
  ultimately have "bmem t (ucast (0xB8000 :: u32)) = bmem ?s (ucast (0xB8000 :: u32))" using t(3) by blast
  then show ?thesis using t(1) t(2) [rule_format, of 0]
    by (intro exI [of _ t]) (simp add: b err_prefix_text_def sample_boot_def)
qed

text \<open>The header carries its length and a checksum that makes its first four words sum to 0.\<close>

lemma multiboot_header_checksum:
  "sum_list (take 4 multiboot_header) = 0" "4 * length multiboot_header = unat header_length"
  by (simp_all add: multiboot_header_def header_length_def)

end
