(* ===== verification/Handover.thy ===== *)
theory Handover
  imports Boot
begin

text \<open>
  From the boot loader to the idle kernel: what \<open>kmain\<close> finds in memory when it looks at it through the
  page tables of the boot code, and what the change to the tables of \<open>mmu_init\<close> leaves as it is.  The
  state \<open>kmain\<close> starts in has the memory by virtual address as \<open>vmem\<close> and the page tables by physical
  address as \<open>pmem\<close>; here both come from the one memory of the boot code.
\<close>

section \<open>Memory through the first page tables\<close>

text \<open>The byte at a virtual address; an access to an unmapped one would fault, its value is arbitrary.\<close>

definition boot_view :: "boot_machine \<Rightarrow> mem" where
  "boot_view t va = (case hw_walk (load64 (bmem t)) 4 (ucast (cr3 t)) va of Inr pa \<Rightarrow> bmem t pa | Inl _ \<Rightarrow> 0)"

text \<open>A region in the first 2 MiB, outside the stack of 16 KiB and the three tables.\<close>

definition left_alone :: "boot_layout \<Rightarrow> u64 \<Rightarrow> nat \<Rightarrow> bool" where
  "left_alone L a n \<longleftrightarrow> unat a + n \<le> 2 ^ 21 \<and>
     (unat a + n \<le> unat (stack_top L) - 16384 \<or> unat (stack_top L) \<le> unat a) \<and>
     (unat a + n \<le> unat (initial_page_tables L) \<or> unat (initial_page_tables L) + 0x3000 \<le> unat a)"

definition boot_layout_ok :: "boot_layout \<Rightarrow> bool" where
  "boot_layout_ok L \<longleftrightarrow> take_bit 12 (initial_page_tables L) = 0 \<and> unat (initial_page_tables L) + 0x3000 < 2 ^ 32 \<and>
     16384 \<le> unat (stack_top L) \<and>
     (unat (stack_top L) \<le> unat (initial_page_tables L) \<or> unat (initial_page_tables L) + 0x3000 \<le> unat (stack_top L) - 16384)"

lemma in_range_bounds:
  assumes "in_range a n x" "unat a + n \<le> 2 ^ 64" shows "unat a \<le> unat x" "unat x < unat a + n"
proof -
  obtain i where "i < n" "x = a + of_nat i" using assms(1) by (rule in_rangeE)
  then show "unat a \<le> unat x" "unat x < unat a + n" using unat_add_of_nat [OF assms(2)] by auto
qed

lemma store32_outside: "unat x < unat a \<or> unat a + 4 \<le> unat x \<Longrightarrow> unat a + 4 \<le> 2 ^ 64 \<Longrightarrow> store32 m a v x = m x"
  using in_range_bounds [of a 4 x] by (auto simp: store32_apply)

lemma store64_outside: "unat x < unat a \<or> unat a + 8 \<le> unat x \<Longrightarrow> unat a + 8 \<le> 2 ^ 64 \<Longrightarrow> store64 m a v x = m x"
  using in_range_bounds [of a 8 x] by (auto simp: store64_apply)

lemma set_entry_bytes:
  assumes "unat edi + 8 * n < 2 ^ 32" "unat x < unat edi \<or> unat edi + 8 * n \<le> unat x"
  shows "set_entry n edi ebx edx m x = m x"
  using assms
proof (induction n arbitrary: edi edx m)
  case (Suc n)
  have e: "unat (edi + 8) = unat edi + 8" using Suc.prems(1) by (intro next_entry_addr) simp
  have "set_entry n (edi + 8) ebx (edx + 0x200000) (store32 m (ucast edi) ebx) x = store32 m (ucast edi) ebx x"
    using Suc.prems e by (intro Suc.IH) auto
  also have "\<dots> = m x" using Suc.prems by (intro store32_outside) auto
  finally show ?case by simp
qed simp

lemma setup_page_tables_bytes:
  assumes "unat (initial_page_tables L) + 0x3000 < 2 ^ 32"
    and "unat x < unat (initial_page_tables L) \<or> unat (initial_page_tables L) + 0x3000 \<le> unat x"
  shows "setup_page_tables L edx m x = m x"
proof -
  let ?T = "initial_page_tables L"
  have o: "unat (?T + 0x1000) = unat ?T + 0x1000" "unat (?T + 0x1000 + 0x1000) = unat ?T + 0x2000"
    using table_offset(1) [of ?T 4096] table_offset(1) [of ?T 8192] assms(1) by (simp_all add: add.assoc)
  show ?thesis
    unfolding setup_page_tables_def Let_def using assms o
    by (subst set_entry_bytes) (auto simp: store32_outside)
qed

text \<open>Neither the pushes nor the page tables touch such a region, and the tables show it as it is.\<close>

lemma boot_memory:
  assumes "boot_layout_ok L" "left_alone L a n" "in_range a n x"
    and t: "bmem t = setup_page_tables L edx (bmem (boot_pushes L eax ebx s))"
    and walk: "\<forall>va. unat va < 2 ^ 26 \<longrightarrow> hw_walk (load64 (bmem t)) 4 (ucast (cr3 t)) va = Inr (take_bit 21 va)"
  shows "bmem t x = bmem s x" "boot_view t x = bmem s x"
proof -
  have x: "unat a \<le> unat x" "unat x < unat a + n"
    using in_range_bounds [OF assms(3)] assms(2) by (auto simp: left_alone_def)
  then have lt: "unat x < 2 ^ 21" using assms(2) by (simp add: left_alone_def)
  have y: "unat (ucast x :: u32) = unat x" "x = ucast (ucast x :: u32)"
  proof -
    show u: "unat (ucast x :: u32) = unat x" using lt by (simp add: unsigned_ucast_eq take_bit_nat_eq_self)
    then show "x = ucast (ucast x :: u32)" by (simp only: word_unat_eq_iff unat_ucast_32_64)
  qed
  have "ucast x \<noteq> stack_top L - 16 + of_nat j" if "j < 16" for j
  proof
    assume e: "ucast x = stack_top L - 16 + of_nat j"
    have s: "unat (stack_top L - 16) = unat (stack_top L) - 16"
      using stack_slots [of L 16] assms(1) by (simp add: boot_layout_ok_def)
    have "unat (stack_top L) < 2 ^ 32" using unsigned_less [of "stack_top L"] by simp
    then have "unat (stack_top L - 16 + of_nat j) = unat (stack_top L) - 16 + j"
      using table_offset(1) [of "stack_top L - 16" j] s that assms(1) by (simp add: boot_layout_ok_def)
    then show False using e y(1) x that assms(1,2) by (auto simp: boot_layout_ok_def left_alone_def)
  qed
  then have "bmem (boot_pushes L eax ebx s) x = bmem s x"
    using boot_pushes_frame [of "ucast x" L eax ebx s] y(2) by simp
  then show m: "bmem t x = bmem s x"
    unfolding t using assms(1,2) x by (subst setup_page_tables_bytes) (auto simp: boot_layout_ok_def left_alone_def)
  have "take_bit 21 x = x" using lt by (simp add: word_unat_eq_iff unsigned_take_bit_eq take_bit_nat_eq_self)
  then show "boot_view t x = bmem s x" using walk lt m by (simp add: boot_view_def)
qed

lemma boot_passes:
  assumes "boot_checks L C eax edx = None" "boot_layout_ok L" "zero_in (bmem b) (ucast (initial_page_tables L)) 0x3000"
  obtains t where "boot_start L C eax ebx edx b = Some (Calls_kmain (ucast ebx) 0x36d76289, t)"
    "bmem t = setup_page_tables L (snd (cpuid C 0x80000001)) (bmem (boot_pushes L eax ebx b))"
    "\<forall>va. unat va < 2 ^ 26 \<longrightarrow> hw_walk (load64 (bmem t)) 4 (ucast (cr3 t)) va = Inr (take_bit 21 va)"
proof -
  have "unat (stack_top L) \<le> unat (initial_page_tables L) \<or> unat (initial_page_tables L) + 0x3000 \<le> unat (stack_top L) - 16"
    "16 \<le> unat (stack_top L)" "take_bit 12 (initial_page_tables L) = 0" "unat (initial_page_tables L) + 0x3000 < 2 ^ 32"
    using assms(2) by (auto simp: boot_layout_ok_def)
  from boot_start_passes [OF assms(1) this(3,4) assms(3) this(2,1)] that show thesis by blast
qed

section \<open>Properties\<close>

text \<open>
  C2: From the boot loader to the idle loop.  Behind passed checks, with the image, the Multiboot
  information and its memory map in the first 2 MiB, apart from stack and first page tables, and the
  tables of the kernel zeroed, the boot code calls \<open>kmain\<close> in a state in which the C code finds, through
  the first page tables, what the loader put there: \<open>kmain\<close> computes the end of memory from the loader's
  map, and reaches its endless loop with the first 64 GiB mapped high, the heap behind the metadata for
  that memory, and the keyboard driver's invariant.
\<close>

theorem boot_loader_to_idle:
  assumes "boot_checks L C eax edx = None" "boot_layout_ok L" "zero_in (bmem b) (ucast (initial_page_tables L)) 0x3000"
    and tables: "layout_ok (page_tables E)" "\<And>T. is_table T \<Longrightarrow> left_alone L (table_at (page_tables E) T) 4096"
      "\<And>T. is_table T \<Longrightarrow> zero_in (bmem b) (table_at (page_tables E) T) 4096"
    and info: "has_memory_map (bmem b) (ucast ebx + 8) ts" "left_alone L (ucast ebx + 8) (tags_length ts)"
    and mem: "multiboot_get_memory_end (bmem b) (ucast ebx + 8) = Inr memory_end" "unat memory_end < 2 ^ 32"
    and "low_pml2_count (kernel_end_param E) \<le> 32"
    and "left_alone L (kernel_end_at E) 8" "unat (load64 (bmem b) (kernel_end_at E)) < 2 ^ 39"
    and "\<And>h. bound \<le> resets (outs h) \<Longrightarrow> dev h DATA_PORT \<noteq> 0xFE"
  shows "\<exists>t. boot_start L C eax ebx edx b = Some (Calls_kmain (ucast ebx) 0x36d76289, t) \<and>
    (\<forall>s :: kheap. vmem s = boot_view t \<longrightarrow> pmem s = load64 (bmem t) \<longrightarrow> kbd_inv s \<longrightarrow> irq_handlers s = (\<lambda>_. None) \<longrightarrow>
      (\<exists>u. kmain dev E (ucast ebx) 0x36d76289 s = Inr (Spinning, u) \<and>
        (\<forall>p. unat p < 2 ^ 36 \<longrightarrow> mmu_translate (mmu_to_virt p) u = p) \<and>
        heap_end u = KERNEL_HEAP_START + of_nat (metadata_pages memory_end * 4096) \<and> kbd_inv u))"
proof -
  obtain t where t: "boot_start L C eax ebx edx b = Some (Calls_kmain (ucast ebx) 0x36d76289, t)"
    "bmem t = setup_page_tables L (snd (cpuid C 0x80000001)) (bmem (boot_pushes L eax ebx b))"
    "\<forall>va. unat va < 2 ^ 26 \<longrightarrow> hw_walk (load64 (bmem t)) 4 (ucast (cr3 t)) va = Inr (take_bit 21 va)"
    using boot_passes [OF assms(1-3)] by blast
  note same = boot_memory [OF assms(2) _ _ t(2,3)]
  have "unat ebx < 2 ^ 32" using unsigned_less [of ebx] by simp
  then have "unat (ucast ebx + 8 :: u64) = unat ebx + 8" by (simp add: unat_word_ariths(1))
  then have a: "0 < unat (ucast ebx + 8 :: u64)" "unat (ucast ebx + 8 :: u64) + tags_length ts \<le> 2 ^ 32"
    using info(2) by (simp_all add: left_alone_def)
  have view: "multiboot_get_memory_end (boot_view t) (ucast ebx + 8) = Inr memory_end"
    using memory_end_cong(1) [OF info(1) a same(2) [OF info(2)]] mem(1) by simp
  have ke: "load64 (boot_view t) (kernel_end_at E) = load64 (bmem b) (kernel_end_at E)"
    by (rule load64_cong) (rule same(2) [OF assms(12)])
  have zero: "load64 (bmem t) (table_at (page_tables E) T + 8 * of_nat i) = 0" if T: "is_table T" "i < 512" for T i
  proof -
    have "zero_in (bmem t) (table_at (page_tables E) T) 4096"
      using tables(3) [OF T(1)] same(1) [OF tables(2) [OF T(1)]] by (simp add: zero_in_def)
    from zero_in_part [OF this, of "8 * i" 8] T(2) show ?thesis using load64_zero by simp
  qed
  have "\<exists>u. kmain dev E (ucast ebx) MULTIBOOT2_BOOTLOADER_MAGIC s = Inr (Spinning, u) \<and>
      (\<forall>p. unat p < 2 ^ 36 \<longrightarrow> mmu_translate (mmu_to_virt p) u = p) \<and>
      heap_end u = KERNEL_HEAP_START + of_nat (metadata_pages memory_end * 4096) \<and> kbd_inv u"
    if s: "vmem s = boot_view t" "pmem s = load64 (bmem t)" "kbd_inv s" "irq_handlers s = (\<lambda>_. None)" for s :: kheap
  proof -
    have "\<And>T i. is_table T \<Longrightarrow> i < 512 \<Longrightarrow> cell (page_tables E) s T i = 0" by (simp add: cell_def s(2) zero)
    then obtain u ff where u: "kmain dev E (ucast ebx) MULTIBOOT2_BOOTLOADER_MAGIC s = Inr (Spinning, u)"
      "booted (page_tables E) (unat (low_pml2_count (kernel_end_param E))) ff (metadata_pages memory_end) u"
      "heap_end u = KERNEL_HEAP_START + of_nat (metadata_pages memory_end * 4096)"
      using kmain_reaches_loop [of s "ucast ebx" memory_end E bound dev] view mem(2) tables(1) assms(11,13,14)
      unfolding s(1) ke by blast
    have "\<forall>p. unat p < 2 ^ 36 \<longrightarrow> mmu_translate (mmu_to_virt p) u = p" using translate_high [OF u(2)] by fastforce
    then show ?thesis using u kmain_spinning(1) [OF u(1) s(3,4)] by blast
  qed
  then show ?thesis using t(1) by (intro exI [of _ t]) simp
qed

text \<open>
  The sample machine: the image at 1 MiB, the Multiboot information with its map at 992, and everything
  else zero.
\<close>

lemma sample_info_zero: "unat x \<ge> 1080 \<Longrightarrow> sample_info x = 0"
  by (simp add: sample_info_def store64_outside store32_outside)

lemma sample_image_zero: "1080 \<le> unat a \<Longrightarrow> unat a + n \<le> 2 ^ 64 \<Longrightarrow> zero_in sample_info a n"
  unfolding zero_in_def using in_range_bounds(1) [of a n] sample_info_zero order_trans by blast

lemma sample_layout_table: "is_table T \<Longrightarrow> 0x130000 \<le> unat (table_at sample_layout T) \<and> unat (table_at sample_layout T) \<le> 0x198000"
  by (cases T) (simp_all add: sample_layout_def row_def unat_word_ariths unat_of_nat)

lemma sample_memory_map: "has_memory_map sample_info (ucast (992 :: u32) + 8) [(1, 9), (6, 64)]"
proof -
  have "(ucast (992 :: u32) :: u64) + 8 = 1000" by simp
  moreover have "nth_tag 1000 [(1, 9), (6, 64)] 1 = 1016" by (simp add: align8_def)
  ultimately show ?thesis
    unfolding has_memory_map_def using sample_tags
    by (simp add: tags_fit_def upt_rec sample_mmap del: tags_at.simps)
qed

lemma sample_left_alone:
  "left_alone sample_boot_layout (ucast (992 :: u32) + 8) (tags_length [(1, 9), (6, 64)])"
  "left_alone sample_boot_layout (kernel_end_at sample_env) 8"
  "is_table T \<Longrightarrow> left_alone sample_boot_layout (table_at sample_layout T) 4096"
  using sample_layout_table [of T]
  by (simp_all add: left_alone_def sample_boot_layout_def sample_env_def align8_def)

theorem boot_loader_to_idle_witness:
  "\<exists>t u. boot_start sample_boot_layout sample_processor 0x36d76289 992 0 (sample_boot sample_info) =
       Some (Calls_kmain 992 0x36d76289, t) \<and>
     kmain sample_device sample_env 992 0x36d76289 (sample_machine\<lparr>vmem := boot_view t, pmem := load64 (bmem t)\<rparr>) =
       Inr (Spinning, u) \<and> heap_end u = KERNEL_HEAP_START + 0x1000"
proof -
  let ?b = "sample_boot sample_info"
  have mem: "bmem ?b = sample_info" by (simp add: sample_boot_def)
  have E: "page_tables sample_env = sample_layout" "kernel_end_param sample_env = 0x180000" "kernel_end_at sample_env = 0x6000"
    by (simp_all add: sample_env_def)
  have c: "boot_checks sample_boot_layout sample_processor 0x36d76289 0 = None"
    by (simp add: boot_checks_def multiboot_check_def cpuid_check_def long_supported_check_def Let_def sample_boot_defs)
  have "\<exists>t. boot_start sample_boot_layout sample_processor 0x36d76289 992 0 ?b = Some (Calls_kmain (ucast (992 :: u32)) 0x36d76289, t) \<and>
    (\<forall>s :: kheap. vmem s = boot_view t \<longrightarrow> pmem s = load64 (bmem t) \<longrightarrow> kbd_inv s \<longrightarrow> irq_handlers s = (\<lambda>_. None) \<longrightarrow>
      (\<exists>u. kmain sample_device sample_env (ucast (992 :: u32)) 0x36d76289 s = Inr (Spinning, u) \<and>
        (\<forall>p. unat p < 2 ^ 36 \<longrightarrow> mmu_translate (mmu_to_virt p) u = p) \<and>
        heap_end u = KERNEL_HEAP_START + of_nat (metadata_pages 0x9FBFF * 4096) \<and> kbd_inv u))"
  proof (rule boot_loader_to_idle [OF c, where ts = "[(1, 9), (6, 64)]" and bound = 0])
    show "boot_layout_ok sample_boot_layout" by (simp add: boot_layout_ok_def sample_boot_layout_def)
    show "zero_in (bmem ?b) (ucast (initial_page_tables sample_boot_layout)) 0x3000"
      unfolding mem by (rule sample_image_zero) (simp_all add: sample_boot_layout_def)
    show "layout_ok (page_tables sample_env)" unfolding E by (rule sample_layout_ok)
    show "has_memory_map (bmem ?b) (ucast (992 :: u32) + 8) [(1, 9), (6, 64)]" unfolding mem by (rule sample_memory_map)
    show "multiboot_get_memory_end (bmem ?b) (ucast (992 :: u32) + 8) = Inr 0x9FBFF"
      unfolding mem using sample_machine_fields(6) by simp
    show "low_pml2_count (kernel_end_param sample_env) \<le> 32" by (simp add: E low_pml2_count_def)
    show "unat (load64 (bmem ?b) (kernel_end_at sample_env)) < 2 ^ 39" by (simp add: E mem sample_machine_fields(5))
    fix T assume T: "is_table T"
    show "left_alone sample_boot_layout (table_at (page_tables sample_env) T) 4096"
      unfolding E by (rule sample_left_alone(3) [OF T])
    show "zero_in (bmem ?b) (table_at (page_tables sample_env) T) 4096"
      unfolding mem E using sample_layout_table [OF T] by (intro sample_image_zero) auto
  qed (use sample_left_alone in \<open>simp_all add: sample_device_def\<close>)
  then obtain t where t: "boot_start sample_boot_layout sample_processor 0x36d76289 992 0 ?b = Some (Calls_kmain (ucast (992 :: u32)) 0x36d76289, t)"
    and k: "\<forall>s :: kheap. vmem s = boot_view t \<longrightarrow> pmem s = load64 (bmem t) \<longrightarrow> kbd_inv s \<longrightarrow> irq_handlers s = (\<lambda>_. None) \<longrightarrow>
      (\<exists>u. kmain sample_device sample_env (ucast (992 :: u32)) 0x36d76289 s = Inr (Spinning, u) \<and>
        (\<forall>p. unat p < 2 ^ 36 \<longrightarrow> mmu_translate (mmu_to_virt p) u = p) \<and>
        heap_end u = KERNEL_HEAP_START + of_nat (metadata_pages 0x9FBFF * 4096) \<and> kbd_inv u)" by blast
  let ?s = "sample_machine\<lparr>vmem := boot_view t, pmem := load64 (bmem t)\<rparr>"
  have "kbd_inv ?s" "irq_handlers ?s = (\<lambda>_. None)" "vmem ?s = boot_view t" "pmem ?s = load64 (bmem t)"
    using sample_machine_fields(3,4) by (auto simp: kbd_inv_def queue_inv_def queued_def)
  with k obtain u where "kmain sample_device sample_env (ucast (992 :: u32)) 0x36d76289 ?s = Inr (Spinning, u)"
    "heap_end u = KERNEL_HEAP_START + of_nat (metadata_pages 0x9FBFF * 4096)" by blast
  moreover have "metadata_pages 0x9FBFF = 1" by (simp add: metadata_pages_def pages_for_def)
  ultimately show ?thesis using t by (intro exI [of _ t] exI [of _ u]) simp
qed

text \<open>
  C11: The change of page tables.  Over the whole low map the tables of the boot code and those of
  \<open>mmu_init\<close> give the same physical address exactly from 4096 up to 2 MiB: there everything the kernel
  uses - its code, stack, tables and the screen - stays where it was.  Below, the null page goes; above, the
  boot tables repeat the first 2 MiB, and only \<open>mmu_init\<close> makes the map the identity.
\<close>

theorem table_switch_agrees:
  fixes s :: kheap
  assumes "boot_checks L C eax edx = None" "boot_layout_ok L" "zero_in (bmem b) (ucast (initial_page_tables L)) 0x3000"
    and "layout_ok P" "\<And>T i. is_table T \<Longrightarrow> i < 512 \<Longrightarrow> cell P s T i = 0"
    and "low_pml2_count kernel_end_addr \<le> 32" "unat memsize < 2 ^ 32" "unat kernel_end < 2 ^ 39"
  shows "\<exists>t u. boot_start L C eax ebx edx b = Some (Calls_kmain (ucast ebx) 0x36d76289, t) \<and>
    mmu_init P kernel_end_addr memsize kernel_end s = Inr u \<and>
    (\<forall>va. unat va < unat (low_pml2_count kernel_end_addr) * 2 ^ 21 \<longrightarrow>
       (hw_walk (load64 (bmem t)) 4 (ucast (cr3 t)) va = Inr (mmu_translate va u) \<longleftrightarrow> 4096 \<le> unat va \<and> unat va < 2 ^ 21))"
proof -
  let ?c = "unat (low_pml2_count kernel_end_addr)"
  obtain t where t: "boot_start L C eax ebx edx b = Some (Calls_kmain (ucast ebx) 0x36d76289, t)"
    "\<forall>va. unat va < 2 ^ 26 \<longrightarrow> hw_walk (load64 (bmem t)) 4 (ucast (cr3 t)) va = Inr (take_bit 21 va)"
    using boot_passes [OF assms(1-3)] by blast
  obtain u ff n where u: "mmu_init P kernel_end_addr memsize kernel_end s = Inr u" "booted P ?c ff n u"
    using mmu_init_booted [OF assms(4-8)] by blast
  have "hw_walk (load64 (bmem t)) 4 (ucast (cr3 t)) va = Inr (mmu_translate va u) \<longleftrightarrow> 4096 \<le> unat va \<and> unat va < 2 ^ 21"
    if va: "unat va < ?c * 2 ^ 21" for va
  proof -
    have "?c \<le> 32" using assms(6) by (simp add: word_le_nat_alt)
    then have "unat va < 2 ^ 26" using va by simp
    then have walk: "hw_walk (load64 (bmem t)) 4 (ucast (cr3 t)) va = Inr (take_bit 21 va)" using t(2) by blast
    have off: "unat (take_bit 21 va) = unat va mod 2 ^ 21" by (simp only: unsigned_take_bit_eq) (simp only: take_bit_eq_mod)
    have "take_bit 21 va \<noteq> - 4"
    proof
      assume "take_bit 21 va = - 4"
      then have "unat (- 4 :: u64) = unat va mod 2 ^ 21" using off by simp
      then show False by simp
    qed
    moreover have "take_bit 21 va = va \<longleftrightarrow> unat va < 2 ^ 21" by (simp add: word_unat_eq_iff off mod_eq_self_iff_div_eq_0 div_eq_0_iff)
    ultimately show ?thesis unfolding walk translate_low [OF u(2) va] by (auto simp: not_less)
  qed
  then show ?thesis using t(1) u(1) by blast
qed

text \<open>The screen stays at its address, the byte 2 MiB above it moves.\<close>

theorem table_switch_agrees_witness:
  "\<exists>t u. boot_start sample_boot_layout sample_processor 0x36d76289 992 0 (sample_boot sample_info) =
       Some (Calls_kmain 992 0x36d76289, t) \<and>
     mmu_init sample_layout 0x180000 0x9FBFF 0 sample_machine = Inr u \<and>
     hw_walk (load64 (bmem t)) 4 (ucast (cr3 t)) 0xB8000 = Inr (mmu_translate 0xB8000 u) \<and>
     hw_walk (load64 (bmem t)) 4 (ucast (cr3 t)) 0x2B8000 \<noteq> Inr (mmu_translate 0x2B8000 u)"
proof -
  have c: "boot_checks sample_boot_layout sample_processor 0x36d76289 0 = None"
    by (simp add: boot_checks_def multiboot_check_def cpuid_check_def long_supported_check_def Let_def sample_boot_defs)
  have l: "boot_layout_ok sample_boot_layout" by (simp add: boot_layout_ok_def sample_boot_layout_def)
  have z: "zero_in (bmem (sample_boot sample_info)) (ucast (initial_page_tables sample_boot_layout)) 0x3000"
    unfolding sample_boot_def by (simp, rule sample_image_zero) (simp_all add: sample_boot_layout_def)
  have n: "low_pml2_count 0x180000 = 8" by (simp add: low_pml2_count_def)
  have "cell sample_layout sample_machine T i = 0" for T i by (simp add: cell_def sample_machine_fields)
  then obtain t u where "boot_start sample_boot_layout sample_processor 0x36d76289 992 0 (sample_boot sample_info) =
      Some (Calls_kmain (ucast (992 :: u32)) 0x36d76289, t)" "mmu_init sample_layout 0x180000 0x9FBFF 0 sample_machine = Inr u"
    and a: "\<forall>va. unat va < unat (low_pml2_count 0x180000) * 2 ^ 21 \<longrightarrow>
      (hw_walk (load64 (bmem t)) 4 (ucast (cr3 t)) va = Inr (mmu_translate va u) \<longleftrightarrow> 4096 \<le> unat va \<and> unat va < 2 ^ 21)"
    using table_switch_agrees [OF c l z sample_layout_ok, of sample_machine "0x180000" "0x9FBFF" 0 992] by (auto simp: n)
  then show ?thesis using a [rule_format, of "0xB8000"] a [rule_format, of "0x2B8000"] by (auto simp: n)
qed

end
