(* ===== verification/Spec2Isabelle.thy ===== *)
theory Spec2Isabelle
  imports C_String Vga_Terminal Printk Multiboot Hw_Ports Interrupts Descriptors Ps2_Controller Input_Codes
    Ps2_Keyboard Scan_Decoder Page_Alloc Paging Kheap Free_List Heap_Growth Heap_Safety Mmu_Init Kmain Typing
    Interleaving Irq_Entry Interrupt_Path Boot_Screen Boot Handover
begin

text \<open>
  Verification of the kernull kernel, a small x86-64 kernel in C.

  \<^bold>\<open>The program.\<close>  The boot code (assembly) enters long mode and calls \<open>kmain\<close> with the multiboot
  information.  \<open>kmain\<close> (\<^verbatim>\<open>src/arch/x86_64/kmain.c\<close>) clears the VGA terminal, asks the multiboot
  parser for the end of memory, installs the interrupt table, builds the page tables with the page
  frame allocator and the kernel heap on top, starts the timer and the PS/2 controller, sends the
  first keyboard commands and spins.  From then on interrupts do the work: a stub (assembly) saves
  the registers and calls \<open>isr_handler\<close> or \<open>irq_handler\<close> (\<^verbatim>\<open>idt.c\<close>), which look up the registered
  handler; the keyboard's feeds the command protocol or the scan code decoder, which prints the
  typed characters; a page fault prints a report and stops the machine.

  \<^bold>\<open>State.\<close>  Every component keeps its C statics in a record, and each record extends the one of the
  component below, so that an operation is written for the smallest state it needs and works on all
  larger ones: \<open>vga\<close> (\<open>Vga_Terminal\<close>), \<open>console\<close> (\<open>Printk\<close>), \<open>machine\<close> with the history of hardware
  interactions (\<open>Hw_Ports\<close>), \<open>interrupts\<close> (\<open>Interrupts\<close>), \<open>kbd\<close> (\<open>Ps2_Keyboard\<close>), \<open>palloc\<close>
  (\<open>Page_Alloc\<close>), \<open>mmu\<close> (\<open>Paging\<close>), \<open>kheap\<close> (\<open>Kheap\<close>).  A C function becomes a function of the same name
  from arguments and state to result and state; one that can fail returns a sum whose left side is a
  \<open>fault\<close>: an endless loop, \<open>abort\<close>, an index outside an array, a null dereference, a missing \<open>return\<close>,
  a missing variable argument.  Integers have their C width and wrap.

  \<^bold>\<open>Theories\<close>, in the order of the dependencies:

  \<^item> \<open>Kernull_Prelude\<close>: integer types, byte memory with little-endian loads and stores, outcomes, and
    the lemmas all components share (reads over writes, evaluation on sample memories, bit-fields).
  \<^item> \<open>C_String\<close> (\<^verbatim>\<open>kernel/string.c\<close>): all functions.  \<open>memmove\<close> is right for every overlap, \<open>strlen\<close>
    returns exactly when there is a NUL, \<open>strstr\<close> finds the first occurrence; \<open>strcmp\<close> is 0 for every
    prefix and \<open>strcat\<close> writes behind the NUL.
  \<^item> \<open>Vga_Terminal\<close> (\<^verbatim>\<open>arch/x86_64/vga_print.c\<close>): all functions, refining an abstract terminal of 25
    rows of 80 cells; the locale \<open>char_sink\<close> lifts the refinement from one character to strings.
  \<^item> \<open>Printk\<close> (\<^verbatim>\<open>kernel/printk.c\<close>): \<open>itoa\<close> with a round trip, and \<open>vprintk\<close> refining \<open>format_out\<close>, the
    text a format stands for, errors included.
  \<^item> \<open>Multiboot\<close> (\<^verbatim>\<open>kernel/multiboot2_parser.c\<close>): finding a tag, which entries of the memory map the
    end of memory is computed from, and that nothing outside the information is read.
  \<^item> \<open>Hw_Ports\<close> (\<^verbatim>\<open>include/arch/x86_64/asm.h\<close>): port accesses as events, the devices as a parameter that
    gives the answer to a read from the whole history; \<open>popcntl\<close> counts bits.
  \<^item> \<open>Interrupts\<close> (\<^verbatim>\<open>gdt.c\<close>, \<^verbatim>\<open>idt.c\<close>, \<^verbatim>\<open>pic.c\<close>, \<^verbatim>\<open>pit.c\<close>): descriptors read back as encoded, the gates
    after \<open>idt_init\<close>, the timer divisor.
  \<^item> \<open>Descriptors\<close> (\<^verbatim>\<open>gdt.c\<close>, \<^verbatim>\<open>include/arch/x86_64/idt.h\<close>, \<^verbatim>\<open>segment_selector.h\<close>, \<^verbatim>\<open>gdt_load.asm\<close>): the
    bit-fields of descriptors and selectors, and that the tables are well typed: what each selector and
    each of the 48 vectors that \<open>idt_init\<close> sets names.
  \<^item> \<open>Ps2_Controller\<close> (\<^verbatim>\<open>kernel/ps2_8042.c\<close>): bounded waits and their results, the protocol of \<open>ps2_init\<close>
    and when it returns.
  \<^item> \<open>Input_Codes\<close>, \<open>Ps2_Keyboard\<close>, \<open>Scan_Decoder\<close> (\<^verbatim>\<open>kernel/ps2_keyboard.c\<close>): the ring buffer is a
    bounded queue (locale \<open>bounded_fifo\<close>), the handler takes the steps of the abstract command protocol,
    reachable states satisfy \<open>kbd_inv\<close>, the decoder prints what is typed.
  \<^item> \<open>Page_Alloc\<close> (\<^verbatim>\<open>mm/page_alloc.c\<close>): the bitmap allocator; the locale \<open>frame_allocator\<close> gives that no
    frame is handed out twice.
  \<^item> \<open>Paging\<close> (\<^verbatim>\<open>mm/mm.c\<close>): \<open>mmu_translate\<close> equals the page walk \<open>hw_walk\<close> of the processor; what \<open>map_addr\<close>
    really maps; the lookups agree.
  \<^item> \<open>Kheap\<close> (\<^verbatim>\<open>kernel/kmalloc.c\<close>): \<open>kmalloc\<close>, \<open>kfree\<close> and their helpers on free lists whose blocks do not
    overlap, in whatever order (\<open>separate\<close>): what they return and which bytes they leave alone; the
    locale \<open>block_memory\<close> has what the list operations need of block headers in memory.
  \<^item> \<open>Free_List\<close>: the same functions against an address-ordered list of free blocks (\<open>heap_inv\<close>).
  \<^item> \<open>Heap_Growth\<close>: the same functions when the heap has to grow, on top of page allocator and page
    tables: they return while there are frames, and what they return.
  \<^item> \<open>Heap_Safety\<close>: what a client may rely on, as the locale \<open>block_allocator\<close>: any sequence of
    allocations of at least 8 bytes from the list, releases and writes keeps blocks apart and contents;
    what a smaller request does to the list; and how two allocations come to overlap when the heap grows twice.
  \<^item> \<open>Mmu_Init\<close> (\<^verbatim>\<open>mm/mm.c\<close>): \<open>mmu_init\<close> builds tables that translate the high, low and heap regions as
    meant; what the page fault handler puts on the screen before it halts.
  \<^item> \<open>Kmain\<close> (\<^verbatim>\<open>kmain.c\<close> and the dispatchers of \<^verbatim>\<open>idt.c\<close>): the boot reaches its loop with
    the handlers that the answer of the keyboard controller in the port history calls for, and the states
    reachable from there through interrupts (\<open>kernel_reach\<close>) are safe.
  \<^item> \<open>Typing\<close>: the way of a keystroke through dispatcher, driver, decoder and terminal; the interrupts
    that deliver scan codes put the typed characters on the screen and are acknowledged.

  \<^item> \<open>Interleaving\<close>: the statements of \<open>kmain\<close> from \<open>sti\<close> on, with interrupts between any two of them; the
    driver's invariant holds whenever a keyboard interrupt can come.
  \<^item> \<open>Irq_Entry\<close> (\<^verbatim>\<open>irq.asm\<close>): the entry stubs as instruction lists; an interrupt is transparent to the
    interrupted program, and the dispatcher sees its registers in the frame.
  \<^item> \<open>Interrupt_Path\<close>: gate, stub, dispatcher, handler and the way back in one transition of processor and
    kernel state: every vector of a running kernel leads to its handler, and typing reaches the screen.
  \<^item> \<open>Boot_Screen\<close> (\<^verbatim>\<open>boot/vga.asm\<close>) and \<open>Boot\<close> (\<^verbatim>\<open>boot/boot.asm\<close>, \<^verbatim>\<open>long_mode_start.asm\<close>,
    \<^verbatim>\<open>multiboot_header.asm\<close>): the checks, the message of a check that fails, the first page tables and what
    they map, the segment registers, and the values that reach \<open>kmain\<close>.
  \<^item> \<open>Handover\<close>: the boot code and \<open>kmain\<close> over one memory: what the C code finds through the first page tables,
    from the boot loader to the endless loop, and what the change of page tables leaves in place.

  \<^bold>\<open>Loops and bounds.\<close>  Counted loops are recursion on the count.  A loop that ends only for suitable
  data is a \<open>partial_function\<close> into option, and the theorems prove that it returns: for strings with a
  NUL, tag lists with an end tag, well-formed free lists.  The reset loop of \<open>ps2_init\<close> waits on the
  device and may run for ever; the theorems assume a device that stops asking for a resend after some
  number of resets.  No fuel is used.

  \<^bold>\<open>Boundaries of the model.\<close>  The linker script is not modelled: the addresses it decides are parameters
  (\<open>boot_env\<close>, \<open>boot_layout\<close>, \<open>table_layout\<close>, the stubs).  Of the assembly, return addresses and saved registers
  on the stack of the boot code are left out.  The entry stubs and the boot code have processor states of
  their own, beside the state of the C code: \<open>Interrupt_Path\<close> runs the former together with it, where a
  called C function returns its argument and keeps the frame, and \<open>Handover\<close> derives the memories in which
  \<open>kmain\<close> starts from that of the boot code.  The stack the stubs use is not part of \<open>vmem\<close>.  The
  kernel's data by virtual address (\<open>vmem\<close>) and the page tables by physical address (\<open>pmem\<close>) are
  separate memories: that a data access goes through the tables, and may fault there, is not modelled,
  nor is the screen buffer part of them.  A handler runs to its end, and interrupts come between
  statements; a call of \<open>printk\<close>, a write to the keyboard port and switching the port off or on, each with
  its wait loop, count as one.  The NUL that \<open>itoa\<close> stores below the array of \<open>print_number\<close> hits a byte of
  the stack whose use the compiler decides; it is dropped with the array, while the stray byte read
  there is modelled.  The colour and the cursor of the boot code's screen routines are kept outside
  \<open>bmem\<close>.  No code calls \<open>gdt_load\<close>: \<open>reload_segments\<close> is modelled, but the segment registers of the running
  kernel are those of \<open>boot_start\<close> and \<open>long_mode_start\<close>.  Bit-fields of type \<open>u64\<close> have the
  type \<open>u64\<close> in expressions, as the compiler named in the Makefile (clang) has it.  Structures
  of \<^verbatim>\<open>multiboot2.h\<close> that no C code uses are left out.
\<close>

end
